(* ===== verification/Prelude.thy ===== *)
theory Prelude
  imports Main "HOL-Library.Word" "HOL-Library.Signed_Division" "HOL-Library.Char_ord"
begin

text \<open>
  The part of C that every component of posix-commons uses: undefined behaviour and failed
  assertions as values of an error type, checked accesses to arrays, \<open>size_t\<close> arithmetic
  with its wrap-around, the conversions to \<open>int\<close>, and the generic lemmas the component
  theories share.

  A fallible operation returns \<open>'a res\<close>: \<open>Inl\<close> names the reason why the C program has no
  defined continuation, \<open>Inr\<close> carries the result. A loop whose termination depends on data the
  code computes returns \<open>'a run\<close>: \<open>None\<close> means that the loop never ends.
\<close>

section \<open>Results\<close>

datatype c_error =
    Out_Of_Bounds        \<comment> \<open>an array access outside the object\<close>
  | Bad_Pointer          \<comment> \<open>a null, dangling or foreign pointer is dereferenced\<close>
  | Int_Overflow         \<comment> \<open>a signed operation or conversion outside its range\<close>
  | Assert_Failed        \<comment> \<open>an \<open>assert\<close> of the source does not hold\<close>
  | Uninitialised        \<comment> \<open>a value is read before it is written\<close>
  | Deadlock             \<comment> \<open>a thread locks a mutex that it holds already\<close>
  | Bad_Argument         \<comment> \<open>an argument outside the domain of a function of the C library\<close>

type_synonym 'a res = "c_error + 'a"
type_synonym 'a run = "'a res option"

definition bindE :: "'a res \<Rightarrow> ('a \<Rightarrow> 'b res) \<Rightarrow> 'b res" where
  "bindE m f = (case m of Inl e \<Rightarrow> Inl e | Inr x \<Rightarrow> f x)"

definition assertE :: "bool \<Rightarrow> c_error \<Rightarrow> unit res" where
  "assertE b e = (if b then Inr () else Inl e)"

definition bindR :: "'a run \<Rightarrow> ('a \<Rightarrow> 'b run) \<Rightarrow> 'b run" where
  "bindR m f = (case m of None \<Rightarrow> None | Some (Inl e) \<Rightarrow> Some (Inl e) | Some (Inr x) \<Rightarrow> f x)"

named_theorems res_simps \<open>rewriting of the result combinators\<close>

lemma bindE_simps [simp, res_simps]:
  "bindE (Inl e) f = Inl e"
  "bindE (Inr x) f = f x"
  by (simp_all add: bindE_def)

lemma bindR_simps [simp, res_simps]:
  "bindR None f = None"
  "bindR (Some (Inl e)) f = Some (Inl e)"
  "bindR (Some (Inr x)) g = g x"
  by (simp_all add: bindR_def)

lemma assertE_simps [simp, res_simps]:
  "assertE True e = Inr ()"
  "assertE False e = Inl e"
  by (simp_all add: assertE_def)

lemma bindE_Inr_iff: "bindE m f = Inr y \<longleftrightarrow> (\<exists>x. m = Inr x \<and> f x = Inr y)"
  by (cases m) auto

lemma bindE_assoc: "bindE (bindE m f) g = bindE m (\<lambda>x. bindE (f x) g)"
  by (cases m) auto

lemma bindE_cong [fundef_cong]:
  "m = n \<Longrightarrow> (\<And>x. n = Inr x \<Longrightarrow> f x = g x) \<Longrightarrow> bindE m f = bindE n g"
  by (cases n) auto

lemma assertE_Inr_iff [simp]: "assertE b e = Inr u \<longleftrightarrow> b"
  by (simp add: assertE_def)

text \<open>A loop over a list of arguments that stops at the first error.\<close>

fun foldE :: "('a \<Rightarrow> 's \<Rightarrow> 's res) \<Rightarrow> 'a list \<Rightarrow> 's \<Rightarrow> 's res" where
  "foldE f [] s = Inr s"
| "foldE f (x # xs) s = bindE (f x s) (foldE f xs)"

lemma foldE_append: "foldE f (xs @ ys) s = bindE (foldE f xs s) (foldE f ys)"
proof (induction xs arbitrary: s)
  case (Cons x xs)
  then show ?case by (cases "f x s") auto
qed simp

section \<open>Arrays\<close>

definition rd :: "'a list \<Rightarrow> nat \<Rightarrow> 'a res" where
  "rd xs i = (if i < length xs then Inr (xs ! i) else Inl Out_Of_Bounds)"

definition wr :: "'a list \<Rightarrow> nat \<Rightarrow> 'a \<Rightarrow> 'a list res" where
  "wr xs i v = (if i < length xs then Inr (xs[i := v]) else Inl Out_Of_Bounds)"

text \<open>\<open>memcpy(dst + pos, src, n)\<close> on arrays: both ranges must lie inside their objects.\<close>

definition blit :: "'a list \<Rightarrow> nat \<Rightarrow> 'a list \<Rightarrow> nat \<Rightarrow> 'a list res" where
  "blit dst pos src n =
     (if n \<le> length src \<and> pos + n \<le> length dst
      then Inr (take pos dst @ take n src @ drop (pos + n) dst)
      else Inl Out_Of_Bounds)"

lemma rd_in [simp]: "i < length xs \<Longrightarrow> rd xs i = Inr (xs ! i)"
  by (simp add: rd_def)

lemma rd_out [simp]: "length xs \<le> i \<Longrightarrow> rd xs i = Inl Out_Of_Bounds"
  by (simp add: rd_def)

lemma wr_in [simp]: "i < length xs \<Longrightarrow> wr xs i v = Inr (xs[i := v])"
  by (simp add: wr_def)

lemma wr_out [simp]: "length xs \<le> i \<Longrightarrow> wr xs i v = Inl Out_Of_Bounds"
  by (simp add: wr_def)

lemma blit_in [simp]:
  "n \<le> length src \<Longrightarrow> pos + n \<le> length dst \<Longrightarrow>
   blit dst pos src n = Inr (take pos dst @ take n src @ drop (pos + n) dst)"
  by (simp add: blit_def)

lemma blit_length: "blit dst pos src n = Inr dst' \<Longrightarrow> length dst' = length dst"
  by (auto simp: blit_def split: if_splits)

lemma blit_take: "blit dst pos src n = Inr dst' \<Longrightarrow> take (pos + n) dst' = take pos dst @ take n src"
  by (auto simp: blit_def split: if_splits)

text \<open>Arrays whose elements may be indeterminate: \<open>None\<close> until they are written.\<close>

definition rd_init :: "nat option list \<Rightarrow> nat \<Rightarrow> nat res" where
  "rd_init xs i = bindE (rd xs i) (\<lambda>v. case v of None \<Rightarrow> Inl Uninitialised | Some x \<Rightarrow> Inr x)"

lemma rd_init_in [simp]: "i < length xs \<Longrightarrow> xs ! i = Some v \<Longrightarrow> rd_init xs i = Inr v"
  by (simp add: rd_init_def)

text \<open>A buffer whose first bytes are known: the prefix \<open>xs\<close> grows as the code stores behind it.\<close>

definition starts :: "'a option list \<Rightarrow> 'a list \<Rightarrow> bool" where
  "starts buf xs \<longleftrightarrow> length xs \<le> length buf \<and> take (length xs) buf = map Some xs"

lemma starts_append: "starts buf (xs @ ys) \<Longrightarrow> starts buf xs"
  by (auto simp: starts_def take_add)

lemma starts_blit:
  assumes "starts buf xs" "n \<le> length ys" "length xs + n \<le> length buf"
  obtains buf' where "blit buf (length xs) (map Some ys) n = Inr buf'" "starts buf' (xs @ take n ys)"
    "length buf' = length buf"
  using assms by (simp add: starts_def take_map)

lemma starts_wr:
  assumes "starts buf xs" "length xs < length buf"
  obtains buf' where "wr buf (length xs) (Some x) = Inr buf'" "starts buf' (xs @ [x])"
    "length buf' = length buf"
proof -
  have "take (Suc (length xs)) (buf[length xs := Some x]) = take (length xs) buf @ [Some x]"
    using assms(2) by (simp add: take_Suc_conv_app_nth)
  then show ?thesis using assms
    by (intro that [of "buf[length xs := Some x]"]) (simp_all add: starts_def)
qed

section \<open>Machine integers\<close>

text \<open>\<open>size_t\<close> and \<open>uint64_t\<close> values are naturals below \<open>2 ^ 64\<close>; their arithmetic wraps.\<close>

definition size_mod :: nat where
  "size_mod = 2 ^ 64"

definition szt_add :: "nat \<Rightarrow> nat \<Rightarrow> nat" where
  "szt_add a b = (a + b) mod size_mod"

definition szt_sub :: "nat \<Rightarrow> nat \<Rightarrow> nat" where
  "szt_sub a b = (a + (size_mod - b)) mod size_mod"

lemma szt_add_exact [simp]: "a + b < size_mod \<Longrightarrow> szt_add a b = a + b"
  by (simp add: szt_add_def)

lemma szt_sub_exact [simp]: "b \<le> a \<Longrightarrow> a < size_mod \<Longrightarrow> szt_sub a b = a - b"
proof -
  assume "b \<le> a" and "a < size_mod"
  then have "(a + (size_mod - b)) mod size_mod = ((a - b) + size_mod) mod size_mod" by simp
  also have "\<dots> = a - b" using \<open>a < size_mod\<close> by simp
  finally show ?thesis by (simp add: szt_sub_def)
qed

text \<open>The value one below zero wraps to the largest \<open>size_t\<close>, and adding to it wraps back.\<close>

lemma szt_sub_0_1: "szt_sub 0 1 = size_mod - 1"
  by (simp add: szt_sub_def size_mod_def)

lemma szt_sub_add_cancel: "a < size_mod \<Longrightarrow> b < size_mod \<Longrightarrow> szt_add (szt_sub a b) b = a"
  by (simp add: szt_sub_def szt_add_def mod_add_left_eq)

text \<open>\<open>int\<close> values are integers of the 32-bit range; leaving the range is undefined.\<close>

definition INT_MIN :: int where "INT_MIN = - (2 ^ 31)"
definition INT_MAX :: int where "INT_MAX = 2 ^ 31 - 1"

definition is_int :: "int \<Rightarrow> bool" where
  "is_int x \<longleftrightarrow> INT_MIN \<le> x \<and> x \<le> INT_MAX"

definition c_int :: "int \<Rightarrow> int res" where
  "c_int x = (if is_int x then Inr x else Inl Int_Overflow)"

text \<open>
  Converting a wider integer to \<open>int\<close> keeps the low 32 bits in two's complement (the
  implementation-defined choice of every compiler the library is built with).
\<close>

definition to_int32 :: "int \<Rightarrow> int" where
  "to_int32 x = (x + 2 ^ 31) mod 2 ^ 32 - 2 ^ 31"

text \<open>Converting a signed integer to \<open>uint64_t\<close> or \<open>size_t\<close>.\<close>

definition to_u64 :: "int \<Rightarrow> nat" where
  "to_u64 x = nat (x mod 2 ^ 64)"

lemma c_int_in [simp]: "is_int x \<Longrightarrow> c_int x = Inr x"
  by (simp add: c_int_def)

lemma to_int32_id [simp]: "is_int x \<Longrightarrow> to_int32 x = x"
  by (simp add: is_int_def INT_MIN_def INT_MAX_def to_int32_def)

lemma to_int32_range: "is_int (to_int32 x)"
  by (simp add: is_int_def INT_MIN_def INT_MAX_def to_int32_def)

text \<open>C's \<open>/\<close> and \<open>%\<close> by ten.\<close>

lemma abs_sdiv_10: "\<bar>x sdiv 10\<bar> = \<bar>x\<bar> div 10" for x :: int
  by (cases "x = 0") (simp_all add: signed_divide_int_def abs_mult abs_sgn_eq)

lemma sdiv_10_nonneg: "0 \<le> x \<Longrightarrow> x sdiv 10 = x div 10" for x :: int
  by (cases "x = 0") (simp_all add: signed_divide_int_def)

lemma smod_10_nonneg: "0 \<le> x \<Longrightarrow> x smod 10 = x mod 10" for x :: int
  by (cases "x = 0") (simp_all add: signed_modulo_int_def)

lemma sdiv_2_nonneg: "0 \<le> x \<Longrightarrow> x sdiv 2 = x div 2" for x :: int
  by (cases "x = 0") (simp_all add: signed_divide_int_def)

text \<open>The macros of \<open>src/common/math.h\<close>, at the unsigned types they are used at.\<close>

definition posixc_max :: "nat \<Rightarrow> nat \<Rightarrow> nat" where
  "posixc_max a b = (if a > b then a else b)"

definition posixc_min :: "nat \<Rightarrow> nat \<Rightarrow> nat" where
  "posixc_min a b = (if a < b then a else b)"

section \<open>Lists and bounded quantifiers\<close>

lemma all_from_split:
  "a < m \<Longrightarrow> (\<forall>k. a \<le> k \<and> k < m \<longrightarrow> P k) \<longleftrightarrow> P a \<and> (\<forall>k. Suc a \<le> k \<and> k < m \<longrightarrow> P k)"
  for a m :: nat
  by (metis Suc_leD not_less_eq_eq order_antisym order_refl)

lemma take_Suc_nth: "i < length xs \<Longrightarrow> take (Suc i) xs = take i xs @ [xs ! i]"
  by (rule take_Suc_conv_app_nth)

section \<open>Characters\<close>

text \<open>The classification functions of \<open>ctype.h\<close> in the C locale, on bytes.\<close>

definition tolower :: "char \<Rightarrow> char" where
  "tolower c = (if 65 \<le> (of_char c :: nat) \<and> (of_char c :: nat) \<le> 90
                then char_of ((of_char c :: nat) + 32) else c)"

definition toupper :: "char \<Rightarrow> char" where
  "toupper c = (if 97 \<le> (of_char c :: nat) \<and> (of_char c :: nat) \<le> 122
                then char_of ((of_char c :: nat) - 32) else c)"

definition isupper :: "char \<Rightarrow> bool" where
  "isupper c \<longleftrightarrow> 65 \<le> (of_char c :: nat) \<and> (of_char c :: nat) \<le> 90"

definition isascii :: "char \<Rightarrow> bool" where
  "isascii c \<longleftrightarrow> (of_char c :: nat) < 128"

definition byte_of :: "char \<Rightarrow> nat" where
  "byte_of c = of_char c"

lemma byte_of_less [simp]: "byte_of c < 256"
  by (simp add: byte_of_def)

lemma byte_of_inj: "byte_of c = byte_of d \<Longrightarrow> c = d"
  by (simp add: byte_of_def)

lemma of_char_of_small: "n < 256 \<Longrightarrow> (of_char (char_of n :: char) :: nat) = n" for n :: nat
  by simp

lemma tolower_cases: "tolower c = d \<Longrightarrow> c = d \<or> c = toupper d"
proof (cases "isupper c")
  case True
  assume "tolower c = d"
  with True have d: "d = char_of ((of_char c :: nat) + 32)" by (simp add: tolower_def isupper_def)
  have "(of_char d :: nat) = of_char c + 32" using True d by (simp add: isupper_def)
  then have "toupper d = char_of (of_char c :: nat)" using True by (simp add: toupper_def isupper_def)
  then show ?thesis by simp
qed (auto simp: tolower_def isupper_def)

lemma tolower_idem [simp]: "tolower (tolower c) = tolower c"
  by (auto simp: tolower_def)

text \<open>\<open>char\<close> is signed on the program's platforms. A call such as \<open>tolower(c)\<close> on a \<open>char\<close> converts it to
  \<open>int\<close>; C defines the functions of \<open>ctype.h\<close> for the values of \<open>unsigned char\<close> and for \<open>EOF\<close>, so the bytes
  from \<open>0x80\<close> on, which are negative, are no arguments for them. The one exception is \<open>0xFF\<close>, which is
  \<open>-1\<close> and so \<open>EOF\<close>, and is returned as it is.\<close>

definition ctype_ok :: "char \<Rightarrow> bool" where
  "ctype_ok c \<longleftrightarrow> byte_of c < 128 \<or> byte_of c = 255"

definition c_tolower :: "char \<Rightarrow> char res" where
  "c_tolower c = bindE (assertE (ctype_ok c) Bad_Argument) (\<lambda>_. Inr (tolower c))"

definition c_toupper :: "char \<Rightarrow> char res" where
  "c_toupper c = bindE (assertE (ctype_ok c) Bad_Argument) (\<lambda>_. Inr (toupper c))"

lemma c_tolower_ok [simp]: "ctype_ok c \<Longrightarrow> c_tolower c = Inr (tolower c)"
  by (simp add: c_tolower_def)

lemma c_toupper_ok [simp]: "ctype_ok c \<Longrightarrow> c_toupper c = Inr (toupper c)"
  by (simp add: c_toupper_def)

lemma c_tolower_undefined [simp]: "\<not> ctype_ok c \<Longrightarrow> c_tolower c = Inl Bad_Argument"
  by (simp add: c_tolower_def)

end
