(* ===== verification/Kernel_List.thy ===== *)
theory Kernel_List
  imports Prelude
begin

text \<open>
  The intrusive circular doubly linked list of \<open>src/common/list.h\<close> (the Linux kernel list).
  A \<open>list_head\<close> is a pair of pointers; the heap maps the addresses of the list heads that
  exist to their contents, and every access through a pointer outside the heap is
  \<open>Bad_Pointer\<close>. The functions are the source's, statement by statement, so that aliasing
  between the arguments (an empty list has \<open>head->next == head->prev == head\<close>) is visible.

  \<open>ring h ys\<close> says that the heads \<open>ys\<close> form one circle in \<open>h\<close>, in this order by \<open>next\<close> and in
  the opposite order by \<open>prev\<close>; \<open>dlist h head xs\<close> reads a circle as a list \<open>xs\<close> anchored at
  \<open>head\<close>. Each operation is shown to implement its operation on the list \<open>xs\<close>, and to leave
  every other list head of the heap as it was.
\<close>

section \<open>Data and operations\<close>

type_synonym addr = "64 word"

record list_head =
  lnext :: addr
  lprev :: addr

type_synonym lheap = "addr \<rightharpoonup> list_head"

definition NULL :: addr where
  "NULL = 0"

definition load :: "lheap \<Rightarrow> addr \<Rightarrow> list_head res" where
  "load h p = (case h p of None \<Rightarrow> Inl Bad_Pointer | Some n \<Rightarrow> Inr n)"

definition get_next :: "lheap \<Rightarrow> addr \<Rightarrow> addr res" where
  "get_next h p = bindE (load h p) (\<lambda>n. Inr (lnext n))"

definition get_prev :: "lheap \<Rightarrow> addr \<Rightarrow> addr res" where
  "get_prev h p = bindE (load h p) (\<lambda>n. Inr (lprev n))"

definition set_next :: "lheap \<Rightarrow> addr \<Rightarrow> addr \<Rightarrow> lheap res" where
  "set_next h p v = bindE (load h p) (\<lambda>n. Inr (h(p \<mapsto> n\<lparr>lnext := v\<rparr>)))"

definition set_prev :: "lheap \<Rightarrow> addr \<Rightarrow> addr \<Rightarrow> lheap res" where
  "set_prev h p v = bindE (load h p) (\<lambda>n. Inr (h(p \<mapsto> n\<lparr>lprev := v\<rparr>)))"

definition INIT_LIST_HEAD :: "lheap \<Rightarrow> addr \<Rightarrow> lheap res" where
  "INIT_LIST_HEAD h p = bindE (set_next h p p) (\<lambda>h. set_prev h p p)"

definition u_list_add :: "lheap \<Rightarrow> addr \<Rightarrow> addr \<Rightarrow> addr \<Rightarrow> lheap res" where
  "u_list_add h cur prev nxt =
     bindE (set_prev h nxt cur) (\<lambda>h.
     bindE (set_next h cur nxt) (\<lambda>h.
     bindE (set_prev h cur prev) (\<lambda>h.
     set_next h prev cur)))"

definition list_add :: "lheap \<Rightarrow> addr \<Rightarrow> addr \<Rightarrow> lheap res" where
  "list_add h cur head = bindE (get_next h head) (\<lambda>n. u_list_add h cur head n)"

definition list_add_tail :: "lheap \<Rightarrow> addr \<Rightarrow> addr \<Rightarrow> lheap res" where
  "list_add_tail h cur head = bindE (get_prev h head) (\<lambda>p. u_list_add h cur p head)"

definition u_list_del :: "lheap \<Rightarrow> addr \<Rightarrow> addr \<Rightarrow> lheap res" where
  "u_list_del h prev nxt = bindE (set_prev h nxt prev) (\<lambda>h. set_next h prev nxt)"

definition list_del :: "lheap \<Rightarrow> addr \<Rightarrow> lheap res" where
  "list_del h entry =
     bindE (get_prev h entry) (\<lambda>p. bindE (get_next h entry) (\<lambda>n.
     bindE (u_list_del h p n) (\<lambda>h.
     bindE (set_next h entry NULL) (\<lambda>h.
     set_prev h entry NULL))))"

definition list_del_init :: "lheap \<Rightarrow> addr \<Rightarrow> lheap res" where
  "list_del_init h entry =
     bindE (get_prev h entry) (\<lambda>p. bindE (get_next h entry) (\<lambda>n.
     bindE (u_list_del h p n) (\<lambda>h. INIT_LIST_HEAD h entry)))"

definition list_move :: "lheap \<Rightarrow> addr \<Rightarrow> addr \<Rightarrow> lheap res" where
  "list_move h l head =
     bindE (get_prev h l) (\<lambda>p. bindE (get_next h l) (\<lambda>n.
     bindE (u_list_del h p n) (\<lambda>h. list_add h l head)))"

definition list_move_tail :: "lheap \<Rightarrow> addr \<Rightarrow> addr \<Rightarrow> lheap res" where
  "list_move_tail h l head =
     bindE (get_prev h l) (\<lambda>p. bindE (get_next h l) (\<lambda>n.
     bindE (u_list_del h p n) (\<lambda>h. list_add_tail h l head)))"

definition list_empty :: "lheap \<Rightarrow> addr \<Rightarrow> bool res" where
  "list_empty h head = bindE (get_next h head) (\<lambda>n. Inr (n = head))"

definition u_list_splice :: "lheap \<Rightarrow> addr \<Rightarrow> addr \<Rightarrow> lheap res" where
  "u_list_splice h l head =
     bindE (get_next h l) (\<lambda>first. bindE (get_prev h l) (\<lambda>last. bindE (get_next h head) (\<lambda>at.
     bindE (set_prev h first head) (\<lambda>h.
     bindE (set_next h head first) (\<lambda>h.
     bindE (set_next h last at) (\<lambda>h.
     set_prev h at last))))))"

definition list_splice :: "lheap \<Rightarrow> addr \<Rightarrow> addr \<Rightarrow> lheap res" where
  "list_splice h l head =
     bindE (list_empty h l) (\<lambda>e. if \<not> e then u_list_splice h l head else Inr h)"

definition list_splice_init :: "lheap \<Rightarrow> addr \<Rightarrow> addr \<Rightarrow> lheap res" where
  "list_splice_init h l head =
     bindE (list_empty h l) (\<lambda>e.
       if \<not> e then bindE (u_list_splice h l head) (\<lambda>h. INIT_LIST_HEAD h l) else Inr h)"

text \<open>\<open>list_entry\<close> goes from a list head to the structure it is embedded in at byte offset \<open>member\<close>;
  \<open>member_addr\<close> is \<open>&pos->member\<close>.\<close>

definition list_entry :: "addr \<Rightarrow> addr \<Rightarrow> addr" where
  "list_entry ptr member = ptr - member"

abbreviation member_addr :: "addr \<Rightarrow> addr \<Rightarrow> addr" where
  "member_addr pos member \<equiv> pos + member"

section \<open>Iteration\<close>

text \<open>
  The iteration macros, with the loop body as a function on a state \<open>'s\<close> that contains the heap
  (\<open>hp\<close> projects it). \<open>None\<close> is a loop that never reaches the head again.
\<close>

partial_function (option) for_each_loop ::
    "('s \<Rightarrow> lheap) \<Rightarrow> (lheap \<Rightarrow> addr \<Rightarrow> addr res) \<Rightarrow> (addr \<Rightarrow> 's \<Rightarrow> 's res) \<Rightarrow>
     addr \<Rightarrow> addr \<Rightarrow> 's \<Rightarrow> 's run" where
  "for_each_loop hp succ body head pos s =
     (if pos = head then Some (Inr s)
      else case body pos s of Inl e \<Rightarrow> Some (Inl e)
           | Inr s' \<Rightarrow> (case succ (hp s') pos of Inl e \<Rightarrow> Some (Inl e)
             | Inr p \<Rightarrow> for_each_loop hp succ body head p s'))"

definition list_for_each :: "('s \<Rightarrow> lheap) \<Rightarrow> (addr \<Rightarrow> 's \<Rightarrow> 's res) \<Rightarrow> addr \<Rightarrow> 's \<Rightarrow> 's run" where
  "list_for_each hp body head s =
     bindR (Some (get_next (hp s) head)) (\<lambda>p. for_each_loop hp get_next body head p s)"

definition list_for_each_prev ::
    "('s \<Rightarrow> lheap) \<Rightarrow> (addr \<Rightarrow> 's \<Rightarrow> 's res) \<Rightarrow> addr \<Rightarrow> 's \<Rightarrow> 's run" where
  "list_for_each_prev hp body head s =
     bindR (Some (get_prev (hp s) head)) (\<lambda>p. for_each_loop hp get_prev body head p s)"

partial_function (option) for_each_safe_loop ::
    "('s \<Rightarrow> lheap) \<Rightarrow> (addr \<Rightarrow> 's \<Rightarrow> 's res) \<Rightarrow> addr \<Rightarrow> addr \<Rightarrow> addr \<Rightarrow> 's \<Rightarrow> 's run" where
  "for_each_safe_loop hp body head pos n s =
     (if pos = head then Some (Inr s)
      else case body pos s of Inl e \<Rightarrow> Some (Inl e)
           | Inr s' \<Rightarrow> (case get_next (hp s') n of Inl e \<Rightarrow> Some (Inl e)
             | Inr n' \<Rightarrow> for_each_safe_loop hp body head n n' s'))"

definition list_for_each_safe ::
    "('s \<Rightarrow> lheap) \<Rightarrow> (addr \<Rightarrow> 's \<Rightarrow> 's res) \<Rightarrow> addr \<Rightarrow> 's \<Rightarrow> 's run" where
  "list_for_each_safe hp body head s =
     bindR (Some (get_next (hp s) head)) (\<lambda>pos.
     bindR (Some (get_next (hp s) pos)) (\<lambda>n. for_each_safe_loop hp body head pos n s))"

partial_function (option) for_each_entry_loop ::
    "('s \<Rightarrow> lheap) \<Rightarrow> addr \<Rightarrow> (addr \<Rightarrow> 's \<Rightarrow> 's res) \<Rightarrow> addr \<Rightarrow> addr \<Rightarrow> 's \<Rightarrow> 's run" where
  "for_each_entry_loop hp member body head pos s =
     (if member_addr pos member = head then Some (Inr s)
      else case body pos s of Inl e \<Rightarrow> Some (Inl e)
           | Inr s' \<Rightarrow> (case get_next (hp s') (member_addr pos member) of Inl e \<Rightarrow> Some (Inl e)
             | Inr p \<Rightarrow> for_each_entry_loop hp member body head (list_entry p member) s'))"

definition list_for_each_entry ::
    "('s \<Rightarrow> lheap) \<Rightarrow> addr \<Rightarrow> (addr \<Rightarrow> 's \<Rightarrow> 's res) \<Rightarrow> addr \<Rightarrow> 's \<Rightarrow> 's run" where
  "list_for_each_entry hp member body head s =
     bindR (Some (get_next (hp s) head)) (\<lambda>p.
       for_each_entry_loop hp member body head (list_entry p member) s)"

partial_function (option) for_each_entry_safe_loop ::
    "('s \<Rightarrow> lheap) \<Rightarrow> addr \<Rightarrow> (addr \<Rightarrow> 's \<Rightarrow> 's res) \<Rightarrow> addr \<Rightarrow> addr \<Rightarrow> addr \<Rightarrow> 's \<Rightarrow> 's run" where
  "for_each_entry_safe_loop hp member body head pos n s =
     (if member_addr pos member = head then Some (Inr s)
      else case body pos s of Inl e \<Rightarrow> Some (Inl e)
           | Inr s' \<Rightarrow> (case get_next (hp s') (member_addr n member) of Inl e \<Rightarrow> Some (Inl e)
             | Inr n' \<Rightarrow> for_each_entry_safe_loop hp member body head n (list_entry n' member) s'))"

definition list_for_each_entry_safe ::
    "('s \<Rightarrow> lheap) \<Rightarrow> addr \<Rightarrow> (addr \<Rightarrow> 's \<Rightarrow> 's res) \<Rightarrow> addr \<Rightarrow> 's \<Rightarrow> 's run" where
  "list_for_each_entry_safe hp member body head s =
     bindR (Some (get_next (hp s) head)) (\<lambda>p.
     let pos = list_entry p member in
     bindR (Some (get_next (hp s) (member_addr pos member))) (\<lambda>n.
       for_each_entry_safe_loop hp member body head pos (list_entry n member) s))"

section \<open>The representation\<close>

definition nx :: "lheap \<Rightarrow> addr \<Rightarrow> addr" where
  "nx h p = lnext (the (h p))"

definition pv :: "lheap \<Rightarrow> addr \<Rightarrow> addr" where
  "pv h p = lprev (the (h p))"

fun path :: "('a \<Rightarrow> 'a) \<Rightarrow> 'a list \<Rightarrow> bool" where
  "path f (a # b # r) = (f a = b \<and> path f (b # r))"
| "path f _ = True"

definition cyc :: "('a \<Rightarrow> 'a) \<Rightarrow> 'a list \<Rightarrow> bool" where
  "cyc f ys \<longleftrightarrow> path f (ys @ [hd ys])"

definition ring :: "lheap \<Rightarrow> addr list \<Rightarrow> bool" where
  "ring h ys \<longleftrightarrow> ys \<noteq> [] \<and> distinct ys \<and> set ys \<subseteq> dom h \<and> cyc (nx h) ys \<and> cyc (pv h) (rev ys)"

definition dlist :: "lheap \<Rightarrow> addr \<Rightarrow> addr list \<Rightarrow> bool" where
  "dlist h head xs \<longleftrightarrow> ring h (head # xs)"

text \<open>\<open>same_outside A h h'\<close>: the heaps agree on every list head outside \<open>A\<close>.\<close>

definition same_outside :: "addr set \<Rightarrow> lheap \<Rightarrow> lheap \<Rightarrow> bool" where
  "same_outside A h h' \<longleftrightarrow> (\<forall>p. p \<notin> A \<longrightarrow> h' p = h p) \<and> dom h' = dom h"

subsection \<open>Paths and circles\<close>

lemma path_append: "path f (xs @ a # ys) \<longleftrightarrow> path f (xs @ [a]) \<and> path f (a # ys)"
proof (induction xs)
  case (Cons x xs)
  then show ?case by (cases xs) auto
qed simp

lemma path_snocD: "path f (xs @ [a]) \<Longrightarrow> path f xs"
proof (induction xs)
  case (Cons x xs)
  then show ?case by (cases xs) auto
qed simp

lemma cyc_path: "cyc f ys \<Longrightarrow> path f ys"
  by (auto simp: cyc_def dest: path_snocD)

lemma path_tl: "path f (x # xs) \<Longrightarrow> path f xs"
  by (cases xs) auto

lemma path_upd: "u \<notin> set (butlast xs) \<Longrightarrow> path (f(u := v)) xs = path f xs"
proof (induction xs)
  case (Cons x xs)
  then show ?case by (cases xs) auto
qed simp

lemma cyc_rotate1: "cyc f (a # ys) \<Longrightarrow> cyc f (ys @ [a])"
proof (cases ys)
  case (Cons b zs)
  assume "cyc f (a # ys)"
  then have "f a = b" and "path f (b # zs @ [a])" using Cons by (simp_all add: cyc_def)
  then have "path f ((b # zs) @ a # [b])"
    by (subst path_append) simp
  then show ?thesis using Cons by (simp add: cyc_def)
qed (simp add: cyc_def)

lemma cyc_unrotate1: "cyc f (ys @ [a]) \<Longrightarrow> cyc f (a # ys)"
proof (cases ys)
  case (Cons b zs)
  assume "cyc f (ys @ [a])"
  then have "path f ((b # zs) @ a # [b])" using Cons by (simp add: cyc_def)
  then have "path f ((b # zs) @ [a])" and "f a = b"
    by (subst (asm) path_append; simp)+
  then show ?thesis using Cons by (simp add: cyc_def)
qed (simp add: cyc_def)

lemma cyc_swap: "cyc f (xs @ ys) = cyc f (ys @ xs)"
proof -
  have "cyc f (xs @ ys) \<Longrightarrow> cyc f (ys @ xs)" for xs ys :: "'a list"
  proof (induction xs arbitrary: ys)
    case (Cons x xs)
    from Cons.prems have "cyc f (xs @ (ys @ [x]))" using cyc_rotate1 by fastforce
    from Cons.IH [OF this] show ?case by simp
  qed simp
  then show ?thesis by blast
qed

lemma cyc_succ: "cyc f (a # ys) \<Longrightarrow> f a = hd (ys @ [a])"
  by (cases ys) (simp_all add: cyc_def)

lemma cyc_insert:
  assumes "cyc f (ys @ [p])" and "distinct (ys @ [p])" and "c \<notin> set (ys @ [p])"
  shows "cyc (f(c := hd (ys @ [p]), p := c)) (ys @ [p, c])"
proof -
  let ?g = "f(c := hd (ys @ [p]), p := c)"
  have "path f (ys @ [p])" using assms(1) by (rule cyc_path)
  moreover have "path ?g (ys @ [p]) = path f (ys @ [p])"
    using assms(2,3) by (subst path_upd; simp add: butlast_append)+
  moreover have "path ?g [p, c, hd (ys @ [p])]" using assms(3) by auto
  ultimately have "path ?g (ys @ p # [c, hd (ys @ [p])])" by (subst path_append) simp
  moreover have "hd (ys @ [p, c]) = hd (ys @ [p])" by (cases ys) auto
  ultimately show ?thesis by (simp add: cyc_def)
qed

lemma cyc_remove:
  assumes "cyc f (e # ys @ [p])" and "distinct (e # ys @ [p])"
  shows "cyc (f(p := hd (ys @ [p]))) (ys @ [p])"
proof -
  have "path f (ys @ [p])" using assms(1) by (blast dest: cyc_path path_tl)
  moreover have "path (f(p := hd (ys @ [p]))) (ys @ [p]) = path f (ys @ [p])"
    using assms(2) by (subst path_upd) (simp_all add: butlast_append)
  ultimately have "path (f(p := hd (ys @ [p]))) (ys @ p # [hd (ys @ [p])])"
    by (subst path_append) simp
  then show ?thesis by (simp add: cyc_def)
qed

lemma cyc_cong: "(\<And>x. x \<in> set ys \<Longrightarrow> f x = g x) \<Longrightarrow> cyc f ys = cyc g ys"
proof -
  assume eq: "\<And>x. x \<in> set ys \<Longrightarrow> f x = g x"
  have "path f xs = path g xs" if "\<And>x. x \<in> set (butlast xs) \<Longrightarrow> f x = g x" for xs
    using that
  proof (induction xs)
    case (Cons x xs)
    then show ?case by (cases xs) auto
  qed simp
  from this [of "ys @ [hd ys]"] show ?thesis using eq by (simp add: cyc_def)
qed

text \<open>Two circles cut open and joined: the pieces \<open>xs\<close> and \<open>ys\<close> lose the head of the first circle.\<close>

lemma cyc_join:
  assumes "cyc f (l # xs @ [p])" and "cyc f (ys @ [q])"
    and "distinct (l # xs @ [p] @ ys @ [q])"
  shows "cyc (f(q := hd (xs @ [p]), p := hd (ys @ [q]))) (xs @ [p] @ ys @ [q])"
proof -
  let ?g = "f(q := hd (xs @ [p]), p := hd (ys @ [q]))"
  have 1: "path f (xs @ [p])" using assms(1) by (blast dest: cyc_path path_tl)
  have 2: "path f (ys @ [q])" using assms(2) by (rule cyc_path)
  have "path ?g (xs @ [p])" "path ?g (ys @ [q])"
    using assms(3) 1 2 by (subst path_upd; simp add: butlast_append)+
  moreover from \<open>path ?g (ys @ [q])\<close> have "path ?g (p # ys @ [q])"
    using assms(3) by (cases ys) auto
  ultimately have "path ?g (xs @ p # ys @ [q])" using path_append by fast
  moreover have "?g q = hd (xs @ [p])" using assms(3) by auto
  ultimately have "path ?g ((xs @ p # ys) @ q # [hd (xs @ [p])])"
    by (subst path_append) simp
  moreover have "hd (xs @ [p] @ ys @ [q]) = hd (xs @ [p])" by (cases xs) auto
  ultimately show ?thesis by (simp add: cyc_def)
qed

subsection \<open>Rings\<close>

lemma ring_swap: "ring h (xs @ ys) = ring h (ys @ xs)"
  using cyc_swap [of "nx h" xs ys] cyc_swap [of "pv h" "rev ys" "rev xs"]
  by (auto simp: ring_def)

lemma ring_rotate1: "ring h (a # ys) = ring h (ys @ [a])"
  using ring_swap [of h "[a]" ys] by simp

lemma ring_next: "ring h (a # ys) \<Longrightarrow> nx h a = hd (ys @ [a])"
  using cyc_succ [of "nx h" a ys] by (simp add: ring_def)

lemma ring_prev: "ring h (ys @ [a]) \<Longrightarrow> pv h a = last (a # ys)"
  using cyc_succ [of "pv h" a "rev ys"] by (cases ys rule: rev_cases) (auto simp: ring_def)

lemma ring_dom: "ring h ys \<Longrightarrow> p \<in> set ys \<Longrightarrow> p \<in> dom h"
  by (auto simp: ring_def)

lemma ring_same_outside:
  assumes "ring h ys" and "same_outside A h h'" and "A \<inter> set ys = {}"
  shows "ring h' ys"
proof -
  have "nx h x = nx h' x" "pv h x = pv h' x" if "x \<in> set ys" for x
    using assms(2,3) that by (auto simp: same_outside_def nx_def pv_def)
  then have "cyc (nx h) ys = cyc (nx h') ys" "cyc (pv h) (rev ys) = cyc (pv h') (rev ys)"
    by (auto intro!: cyc_cong)
  then show ?thesis using assms(1,2) by (simp add: ring_def same_outside_def)
qed

lemma same_outside_trans:
  "same_outside A h h' \<Longrightarrow> same_outside A h' h'' \<Longrightarrow> same_outside A h h''"
  by (auto simp: same_outside_def)

lemma same_outside_mono: "same_outside A h h' \<Longrightarrow> A \<subseteq> B \<Longrightarrow> same_outside B h h'"
  by (auto simp: same_outside_def)

subsection \<open>The effect of the pointer operations\<close>

lemma get_next_eq: "p \<in> dom h \<Longrightarrow> get_next h p = Inr (nx h p)"
  by (auto simp: get_next_def load_def nx_def)

lemma get_prev_eq: "p \<in> dom h \<Longrightarrow> get_prev h p = Inr (pv h p)"
  by (auto simp: get_prev_def load_def pv_def)

lemma set_next_eff:
  assumes "p \<in> dom h"
  obtains h' where "set_next h p v = Inr h'" "nx h' = (nx h)(p := v)" "pv h' = pv h"
    "same_outside {p} h h'"
  using assms by (fastforce simp: set_next_def load_def nx_def pv_def same_outside_def)

lemma set_prev_eff:
  assumes "p \<in> dom h"
  obtains h' where "set_prev h p v = Inr h'" "pv h' = (pv h)(p := v)" "nx h' = nx h"
    "same_outside {p} h h'"
  using assms by (fastforce simp: set_prev_def load_def nx_def pv_def same_outside_def)

lemma u_list_add_eff:
  assumes "c \<in> dom h" "p \<in> dom h" "n \<in> dom h"
  obtains h' where "u_list_add h c p n = Inr h'"
    "nx h' = (nx h)(c := n, p := c)" "pv h' = (pv h)(n := c, c := p)" "same_outside {c, p, n} h h'"
proof -
  obtain h1 where 1: "set_prev h n c = Inr h1" "pv h1 = (pv h)(n := c)" "nx h1 = nx h"
    "same_outside {n} h h1" using assms by (rule_tac set_prev_eff)
  have "c \<in> dom h1" using 1(4) assms by (simp add: same_outside_def)
  then obtain h2 where 2: "set_next h1 c n = Inr h2" "nx h2 = (nx h1)(c := n)" "pv h2 = pv h1"
    "same_outside {c} h1 h2" by (rule set_next_eff)
  have "c \<in> dom h2" using 1(4) 2(4) assms by (simp add: same_outside_def)
  then obtain h3 where 3: "set_prev h2 c p = Inr h3" "pv h3 = (pv h2)(c := p)" "nx h3 = nx h2"
    "same_outside {c} h2 h3" by (rule set_prev_eff)
  have "p \<in> dom h3" using 1(4) 2(4) 3(4) assms by (simp add: same_outside_def)
  then obtain h4 where 4: "set_next h3 p c = Inr h4" "nx h4 = (nx h3)(p := c)" "pv h4 = pv h3"
    "same_outside {p} h3 h4" by (rule set_next_eff)
  have "same_outside {c, p, n} h h4"
    using 1(4) 2(4) 3(4) 4(4) by (simp add: same_outside_def)
  with 1 2 3 4 show ?thesis by (intro that [of h4]) (simp_all add: u_list_add_def)
qed

lemma u_list_del_eff:
  assumes "p \<in> dom h" "n \<in> dom h"
  obtains h' where "u_list_del h p n = Inr h'"
    "nx h' = (nx h)(p := n)" "pv h' = (pv h)(n := p)" "same_outside {p, n} h h'"
proof -
  obtain h1 where 1: "set_prev h n p = Inr h1" "pv h1 = (pv h)(n := p)" "nx h1 = nx h"
    "same_outside {n} h h1" using assms by (rule_tac set_prev_eff)
  have "p \<in> dom h1" using 1(4) assms by (simp add: same_outside_def)
  then obtain h2 where 2: "set_next h1 p n = Inr h2" "nx h2 = (nx h1)(p := n)" "pv h2 = pv h1"
    "same_outside {p} h1 h2" by (rule set_next_eff)
  have "same_outside {p, n} h h2" using 1(4) 2(4) by (simp add: same_outside_def)
  with 1 2 show ?thesis by (intro that [of h2]) (simp_all add: u_list_del_def)
qed

lemma INIT_LIST_HEAD_ring:
  assumes "p \<in> dom h"
  obtains h' where "INIT_LIST_HEAD h p = Inr h'" "ring h' [p]" "same_outside {p} h h'"
proof -
  obtain h1 where 1: "set_next h p p = Inr h1" "nx h1 = (nx h)(p := p)" "pv h1 = pv h"
    "same_outside {p} h h1" using assms by (rule set_next_eff)
  have "p \<in> dom h1" using 1(4) assms by (simp add: same_outside_def)
  then obtain h2 where 2: "set_prev h1 p p = Inr h2" "pv h2 = (pv h1)(p := p)" "nx h2 = nx h1"
    "same_outside {p} h1 h2" by (rule set_prev_eff)
  have "ring h2 [p]" using 1 2 \<open>p \<in> dom h1\<close> by (simp add: ring_def cyc_def same_outside_def)
  moreover have "same_outside {p} h h2" using 1(4) 2(4) by (rule same_outside_trans)
  moreover have "INIT_LIST_HEAD h p = Inr h2" using 1(1) 2(1) by (simp add: INIT_LIST_HEAD_def)
  ultimately show ?thesis using that by blast
qed

lemma u_list_add_ring:
  assumes "ring h (ys @ [p])" and "c \<in> dom h" and "c \<notin> set (ys @ [p])"
  obtains h' where "u_list_add h c p (hd (ys @ [p])) = Inr h'" "ring h' (ys @ [p, c])"
    "same_outside {c, p, hd (ys @ [p])} h h'"
proof -
  let ?n = "hd (ys @ [p])"
  have n: "?n \<in> set (ys @ [p])" by (cases ys) auto
  then have "p \<in> dom h" "?n \<in> dom h" using assms(1) ring_dom by fastforce+
  with assms(2) obtain h' where h': "u_list_add h c p ?n = Inr h'"
    "nx h' = (nx h)(c := ?n, p := c)" "pv h' = (pv h)(?n := c, c := p)"
    "same_outside {c, p, ?n} h h'" by (rule u_list_add_eff)
  have dist: "distinct (ys @ [p])" using assms(1) by (simp add: ring_def)
  have fwd: "cyc (nx h') (ys @ [p, c])"
    unfolding h'(2) using assms(1,3) dist by (intro cyc_insert) (simp_all add: ring_def)
  obtain zs where zs: "ys @ [p] = ?n # zs" by (cases ys) auto
  have cz: "distinct (?n # zs)" "c \<notin> set (?n # zs)" using dist assms(3) zs by metis+
  have rz: "rev (ys @ [p]) = rev zs @ [?n]" using arg_cong [OF zs, of rev] by simp
  have "cyc (pv h) (rev zs @ [?n])" using assms(1) unfolding rz [symmetric] ring_def by blast
  then have "cyc ((pv h)(c := hd (rev zs @ [?n]), ?n := c)) (rev zs @ [?n, c])"
    using cz by (intro cyc_insert) auto
  moreover have "hd (rev zs @ [?n]) = p"
    using zs by (metis append_is_Nil_conv hd_rev last_snoc rev.simps(2))
  moreover have "?n \<noteq> c" using n assms(3) by auto
  ultimately have "cyc (pv h') (rev zs @ [?n, c])" using h'(3) by (simp add: fun_upd_twist)
  moreover have "rev (ys @ [p, c]) = [c] @ rev zs @ [?n]" using rz by simp
  ultimately have bwd: "cyc (pv h') (rev (ys @ [p, c]))"
    using cyc_swap [of "pv h'" "[c]" "rev zs @ [?n]"] by simp
  have "set (ys @ [p, c]) \<subseteq> dom h'" using h'(4) assms(1,2) by (auto simp: same_outside_def ring_def)
  then have "ring h' (ys @ [p, c])" using fwd bwd dist assms(3) by (auto simp: ring_def)
  then show ?thesis using h' that by blast
qed

lemma u_list_del_ring:
  assumes "ring h (e # ys)" and "ys \<noteq> []"
  obtains h' where "u_list_del h (last ys) (hd ys) = Inr h'" "ring h' ys"
    "same_outside (set ys) h h'" "h' e = h e"
proof -
  let ?p = "last ys" and ?n = "hd ys"
  have "?p \<in> dom h" "?n \<in> dom h" 
    using assms ring_dom [of h "e # ys"] by (metis hd_in_set last_in_set list.set_intros(2))+
  then obtain h' where h': "u_list_del h ?p ?n = Inr h'" "nx h' = (nx h)(?p := ?n)"
    "pv h' = (pv h)(?n := ?p)" "same_outside {?p, ?n} h h'" by (rule u_list_del_eff)
  have dist: "distinct (e # ys)" using assms(1) by (simp add: ring_def)
  have bl: "butlast ys @ [?p] = ys" using assms(2) by simp
  have tl: "rev (tl ys) @ [?n] = rev ys"
    using assms(2) by (metis list.collapse rev.simps(2))
  have fwd: "cyc (nx h') ys"
    using cyc_remove [of "nx h" e "butlast ys" ?p] assms(1) dist bl h'(2)
    by (simp add: ring_def)
  have "cyc (pv h) (e # rev ys)"
    using assms(1) cyc_unrotate1 [of "pv h" "rev ys" e] by (simp add: ring_def)
  then have bwd: "cyc (pv h') (rev ys)"
    using cyc_remove [of "pv h" e "rev (tl ys)" ?n] dist tl h'(3) assms(2)
    by (simp add: hd_rev)
  have "set ys \<subseteq> dom h'" using h'(4) assms(1) by (auto simp: same_outside_def ring_def)
  then have "ring h' ys" using fwd bwd dist assms(2) by (simp add: ring_def)
  moreover have so: "same_outside (set ys) h h'"
    using h'(4) assms(2) by (rule_tac same_outside_mono) auto
  moreover have "h' e = h e" using so dist by (auto simp: same_outside_def)
  ultimately show ?thesis using h'(1) that by blast
qed

text \<open>Unlinking any node \<open>e\<close> of a list anchored at \<open>head\<close>: what \<open>list_del\<close>, \<open>list_del_init\<close>,
  \<open>list_move\<close> and \<open>list_move_tail\<close> have in common.\<close>

lemma unlink_dlist:
  assumes "dlist h head (as @ e # bs)"
  obtains p n h' where "get_prev h e = Inr p" "get_next h e = Inr n" "u_list_del h p n = Inr h'"
    "dlist h' head (as @ bs)" "same_outside (set (head # as @ bs)) h h'" "h' e = h e"
    "e \<notin> set (head # as @ bs)" "e \<in> dom h"
proof -
  let ?ys = "bs @ head # as"
  have r: "ring h (e # ?ys)"
    using assms ring_swap [of h "head # as" "e # bs"] by (simp add: dlist_def)
  have e: "e \<in> dom h" using r ring_dom by fastforce
  have "pv h e = last (e # ?ys)" using r ring_prev [of h ?ys e] ring_rotate1 by blast
  then have p: "get_prev h e = Inr (last ?ys)" using e by (simp add: get_prev_eq)
  have "nx h e = hd (?ys @ [e])" using r by (rule ring_next)
  then have n: "get_next h e = Inr (hd ?ys)" using e by (cases bs) (simp_all add: get_next_eq)
  obtain h' where h': "u_list_del h (last ?ys) (hd ?ys) = Inr h'" "ring h' ?ys"
    "same_outside (set ?ys) h h'" "h' e = h e"
    using u_list_del_ring [OF r] by blast
  have "dlist h' head (as @ bs)"
    using h'(2) ring_swap [of h' bs "head # as"] by (simp add: dlist_def)
  moreover have "set ?ys = set (head # as @ bs)" by auto
  moreover have "e \<notin> set (head # as @ bs)" using r by (auto simp: ring_def)
  ultimately show ?thesis using that [OF p n h'(1)] h'(3,4) e by metis
qed

lemma dlist_same_outside:
  "dlist h head xs \<Longrightarrow> same_outside A h h' \<Longrightarrow> A \<inter> set (head # xs) = {} \<Longrightarrow> dlist h' head xs"
  unfolding dlist_def by (rule ring_same_outside)

text \<open>A list depends on its own nodes only.\<close>

lemma dlist_cong:
  assumes "dlist h head xs" "\<And>p. p \<in> set (head # xs) \<Longrightarrow> h' p = h p"
  shows "dlist h' head xs"
proof -
  let ?ys = "head # xs"
  have "nx h x = nx h' x" "pv h x = pv h' x" "h' x = h x" if "x \<in> set ?ys" for x
    using assms(2) that by (auto simp: nx_def pv_def)
  moreover from this have "cyc (nx h) ?ys = cyc (nx h') ?ys" "cyc (pv h) (rev ?ys) = cyc (pv h') (rev ?ys)"
    by (intro cyc_cong; simp)+
  moreover have "set ?ys \<subseteq> dom h'" using assms ring_dom [of h ?ys] unfolding dlist_def
    by (metis domIff subsetI)
  ultimately show ?thesis using assms(1) unfolding dlist_def ring_def by simp
qed

lemma dlist_head_dom: "dlist h head xs \<Longrightarrow> head \<in> dom h"
  unfolding dlist_def by (rule ring_dom) auto

lemma dlist_distinct: "dlist h head xs \<Longrightarrow> distinct (head # xs)"
  by (simp add: dlist_def ring_def)

lemma dlist_next_head: "dlist h head xs \<Longrightarrow> get_next h head = Inr (hd (xs @ [head]))"
  using ring_next [of h head xs] dlist_head_dom [of h head xs]
  by (simp add: dlist_def get_next_eq)

lemma dlist_prev_head: "dlist h head xs \<Longrightarrow> get_prev h head = Inr (last (head # xs))"
  using ring_prev [of h xs head] ring_rotate1 [of h head xs] dlist_head_dom [of h head xs]
  by (simp add: dlist_def get_prev_eq)

lemma dlist_next_node: "dlist h head (as @ e # bs) \<Longrightarrow> get_next h e = Inr (hd (bs @ [head]))"
proof -
  assume "dlist h head (as @ e # bs)"
  then have "ring h (e # bs @ head # as)"
    using ring_swap [of h "head # as" "e # bs"] by (simp add: dlist_def)
  then have "nx h e = hd (bs @ [head])" and "e \<in> dom h"
    using ring_next ring_dom by (fastforce simp: hd_append)+
  then show ?thesis by (simp add: get_next_eq)
qed

lemma dlist_prev_node: "dlist h head (as @ e # bs) \<Longrightarrow> get_prev h e = Inr (last (head # as))"
proof -
  assume "dlist h head (as @ e # bs)"
  then have r: "ring h ((bs @ head # as) @ [e])"
    using ring_swap [of h "head # as @ [e]" bs] by (simp add: dlist_def)
  then have "pv h e = last (head # as)" and "e \<in> dom h"
    using ring_prev [OF r] ring_dom [OF r] by auto
  then show ?thesis by (simp add: get_prev_eq)
qed

section \<open>Every operation implements its operation on lists\<close>

lemma list_empty_spec: "dlist h head xs \<Longrightarrow> list_empty h head = Inr (xs = [])"
  using dlist_next_head [of h head xs] dlist_distinct [of h head xs]
  by (cases xs) (auto simp: list_empty_def)

lemma list_add_spec:
  assumes "dlist h head xs" and "cur \<in> dom h" and "cur \<notin> set (head # xs)"
  obtains h' where "list_add h cur head = Inr h'" "dlist h' head (cur # xs)"
    "same_outside (insert cur (set (head # xs))) h h'"
proof -
  have "ring h (xs @ [head])" using assms(1) ring_rotate1 by (simp add: dlist_def)
  moreover have "cur \<notin> set (xs @ [head])" using assms(3) by auto
  ultimately obtain h' where h': "u_list_add h cur head (hd (xs @ [head])) = Inr h'"
    "ring h' (xs @ [head, cur])" "same_outside {cur, head, hd (xs @ [head])} h h'"
    using assms(2) u_list_add_ring by blast
  have "dlist h' head (cur # xs)"
    using h'(2) ring_swap [of h' xs "[head, cur]"] by (simp add: dlist_def)
  moreover have "same_outside (insert cur (set (head # xs))) h h'"
    using h'(3) by (rule same_outside_mono) (cases xs; auto)
  moreover have "list_add h cur head = Inr h'"
    using h'(1) dlist_next_head [OF assms(1)] by (simp add: list_add_def)
  ultimately show ?thesis using that by blast
qed

lemma list_add_tail_spec:
  assumes "dlist h head xs" and "cur \<in> dom h" and "cur \<notin> set (head # xs)"
  obtains h' where "list_add_tail h cur head = Inr h'" "dlist h' head (xs @ [cur])"
    "same_outside (insert cur (set (head # xs))) h h'"
proof -
  obtain zs p where zs: "head # xs = zs @ [p]" by (metis list.distinct(1) rev_exhaust)
  have hd: "hd (zs @ [p]) = head" and p: "p = last (head # xs)"
    using arg_cong [OF zs, of hd] arg_cong [OF zs, of last] by simp_all
  have "ring h (zs @ [p])" "cur \<notin> set (zs @ [p])" using assms(1,3) zs by (simp_all add: dlist_def)
  then obtain h' where h': "u_list_add h cur p head = Inr h'" "ring h' (zs @ [p, cur])"
    "same_outside {cur, p, head} h h'"
    using assms(2) hd u_list_add_ring by metis
  have "zs @ [p, cur] = head # xs @ [cur]" using zs by (metis append_Cons append.assoc append_Nil)
  then have "dlist h' head (xs @ [cur])" using h'(2) unfolding dlist_def by argo
  moreover have "same_outside (insert cur (set (head # xs))) h h'"
    using h'(3) unfolding p by (rule same_outside_mono) auto
  moreover have "list_add_tail h cur head = Inr h'"
    using h'(1) dlist_prev_head [OF assms(1)] unfolding p by (simp add: list_add_tail_def)
  ultimately show ?thesis using that by blast
qed

lemma list_head_both: "n\<lparr>lnext := a, lprev := b\<rparr> = \<lparr>lnext = a, lprev = b\<rparr>"
  for n :: list_head
  by (cases n) simp

lemma list_del_spec:
  assumes "dlist h head (as @ e # bs)"
  obtains h' where "list_del h e = Inr h'" "dlist h' head (as @ bs)"
    "h' e = Some \<lparr>lnext = NULL, lprev = NULL\<rparr>" "same_outside (set (head # as @ e # bs)) h h'"
proof -
  obtain p n h1 where 1: "get_prev h e = Inr p" "get_next h e = Inr n" "u_list_del h p n = Inr h1"
    "dlist h1 head (as @ bs)" "same_outside (set (head # as @ bs)) h h1" "h1 e = h e"
    "e \<notin> set (head # as @ bs)" "e \<in> dom h"
    using assms by (rule unlink_dlist)
  let ?h = "h1(e \<mapsto> \<lparr>lnext = NULL, lprev = NULL\<rparr>)"
  have e: "e \<in> dom h1" using 1(6,8) by auto
  then have "bindE (set_next h1 e NULL) (\<lambda>h. set_prev h e NULL) = Inr ?h"
    by (auto simp: set_next_def set_prev_def load_def list_head_both)
  then have "list_del h e = Inr ?h" using 1(1,2,3) by (simp add: list_del_def)
  moreover have so: "same_outside {e} h1 ?h" using e by (auto simp: same_outside_def)
  have "dlist ?h head (as @ bs)" using 1(4) so 1(7) by (rule_tac dlist_same_outside) auto
  moreover have "same_outside (set (head # as @ e # bs)) h ?h"
    using 1(5) so by (auto simp: same_outside_def)
  ultimately show ?thesis using that by simp
qed

lemma list_del_init_spec:
  assumes "dlist h head (as @ e # bs)"
  obtains h' where "list_del_init h e = Inr h'" "dlist h' head (as @ bs)" "dlist h' e []"
    "same_outside (set (head # as @ e # bs)) h h'"
proof -
  obtain p n h1 where 1: "get_prev h e = Inr p" "get_next h e = Inr n" "u_list_del h p n = Inr h1"
    "dlist h1 head (as @ bs)" "same_outside (set (head # as @ bs)) h h1" "h1 e = h e"
    "e \<notin> set (head # as @ bs)" "e \<in> dom h"
    using assms by (rule unlink_dlist)
  have "e \<in> dom h1" using 1(6,8) by auto
  then obtain h2 where 2: "INIT_LIST_HEAD h1 e = Inr h2" "ring h2 [e]" "same_outside {e} h1 h2"
    by (rule INIT_LIST_HEAD_ring)
  have "dlist h2 head (as @ bs)" using 1(4) 2(3) 1(7) by (rule_tac dlist_same_outside) auto
  moreover have "same_outside (set (head # as @ e # bs)) h h2"
    using 1(5) 2(3) by (auto simp: same_outside_def)
  ultimately show ?thesis using 1(1-3) 2(1,2) that by (simp add: list_del_init_def dlist_def)
qed

text \<open>\<open>list_move\<close> and \<open>list_move_tail\<close> take a node from one list to the front or the end of another;
  the two lists are disjoint circles.\<close>

lemma list_move_spec:
  assumes "dlist h src (as @ e # bs)" and "dlist h head xs"
    and "set (src # as @ e # bs) \<inter> set (head # xs) = {}"
  obtains h' where "list_move h e head = Inr h'" "dlist h' src (as @ bs)" "dlist h' head (e # xs)"
    "same_outside (set (src # as @ e # bs) \<union> set (head # xs)) h h'"
proof -
  obtain p n h1 where 1: "get_prev h e = Inr p" "get_next h e = Inr n" "u_list_del h p n = Inr h1"
    "dlist h1 src (as @ bs)" "same_outside (set (src # as @ bs)) h h1" "h1 e = h e"
    "e \<notin> set (src # as @ bs)" "e \<in> dom h"
    using assms(1) by (rule unlink_dlist)
  have "dlist h1 head xs" using assms(2) 1(5) assms(3) by (rule_tac dlist_same_outside) auto
  moreover have "e \<in> dom h1" "e \<notin> set (head # xs)" using 1(6,8) assms(3) by auto
  ultimately obtain h2 where 2: "list_add h1 e head = Inr h2" "dlist h2 head (e # xs)"
    "same_outside (insert e (set (head # xs))) h1 h2" by (rule list_add_spec)
  have "dlist h2 src (as @ bs)"
    using 1(4) 2(3) 1(7) assms(3) by (rule_tac dlist_same_outside) auto
  moreover have "same_outside (set (src # as @ e # bs) \<union> set (head # xs)) h h2"
    using 1(5) 2(3) by (auto simp: same_outside_def)
  ultimately show ?thesis using 1(1-3) 2(1,2) that by (simp add: list_move_def)
qed

lemma list_move_tail_spec:
  assumes "dlist h src (as @ e # bs)" and "dlist h head xs"
    and "set (src # as @ e # bs) \<inter> set (head # xs) = {}"
  obtains h' where "list_move_tail h e head = Inr h'" "dlist h' src (as @ bs)"
    "dlist h' head (xs @ [e])" "same_outside (set (src # as @ e # bs) \<union> set (head # xs)) h h'"
proof -
  obtain p n h1 where 1: "get_prev h e = Inr p" "get_next h e = Inr n" "u_list_del h p n = Inr h1"
    "dlist h1 src (as @ bs)" "same_outside (set (src # as @ bs)) h h1" "h1 e = h e"
    "e \<notin> set (src # as @ bs)" "e \<in> dom h"
    using assms(1) by (rule unlink_dlist)
  have "dlist h1 head xs" using assms(2) 1(5) assms(3) by (rule_tac dlist_same_outside) auto
  moreover have "e \<in> dom h1" "e \<notin> set (head # xs)" using 1(6,8) assms(3) by auto
  ultimately obtain h2 where 2: "list_add_tail h1 e head = Inr h2" "dlist h2 head (xs @ [e])"
    "same_outside (insert e (set (head # xs))) h1 h2" by (rule list_add_tail_spec)
  have "dlist h2 src (as @ bs)"
    using 1(4) 2(3) 1(7) assms(3) by (rule_tac dlist_same_outside) auto
  moreover have "same_outside (set (src # as @ e # bs) \<union> set (head # xs)) h h2"
    using 1(5) 2(3) by (auto simp: same_outside_def)
  ultimately show ?thesis using 1(1-3) 2(1,2) that by (simp add: list_move_tail_def)
qed

text \<open>Splicing a whole circle into another one, right after its head.\<close>

lemma u_list_splice_eff:
  assumes "fi \<in> dom h" "la \<in> dom h" "at \<in> dom h" "head \<in> dom h"
    and "get_next h l = Inr fi" "get_prev h l = Inr la" "get_next h head = Inr at"
  obtains h' where "u_list_splice h l head = Inr h'"
    "nx h' = (nx h)(head := fi, la := at)" "pv h' = (pv h)(fi := head, at := la)"
    "same_outside {fi, head, la, at} h h'"
proof -
  obtain h1 where 1: "set_prev h fi head = Inr h1" "pv h1 = (pv h)(fi := head)" "nx h1 = nx h"
    "same_outside {fi} h h1" using assms(1) by (rule set_prev_eff)
  have "head \<in> dom h1" using 1(4) assms by (simp add: same_outside_def)
  then obtain h2 where 2: "set_next h1 head fi = Inr h2" "nx h2 = (nx h1)(head := fi)"
    "pv h2 = pv h1" "same_outside {head} h1 h2" by (rule set_next_eff)
  have "la \<in> dom h2" using 1(4) 2(4) assms by (simp add: same_outside_def)
  then obtain h3 where 3: "set_next h2 la at = Inr h3" "nx h3 = (nx h2)(la := at)"
    "pv h3 = pv h2" "same_outside {la} h2 h3" by (rule set_next_eff)
  have "at \<in> dom h3" using 1(4) 2(4) 3(4) assms by (simp add: same_outside_def)
  then obtain h4 where 4: "set_prev h3 at la = Inr h4" "pv h4 = (pv h3)(at := la)"
    "nx h4 = nx h3" "same_outside {at} h3 h4" by (rule set_prev_eff)
  have "same_outside {fi, head, la, at} h h4"
    using 1(4) 2(4) 3(4) 4(4) by (simp add: same_outside_def)
  with 1 2 3 4 assms show ?thesis by (intro that [of h4]) (simp_all add: u_list_splice_def)
qed

lemma splice_cycles:
  assumes "ring h (l # xs)" "ring h (head # ys)" "set (l # xs) \<inter> set (head # ys) = {}" "xs \<noteq> []"
  shows "cyc ((nx h)(head := hd xs, last xs := hd (ys @ [head]))) (head # xs @ ys)"
    and "cyc ((pv h)(hd xs := head, hd (ys @ [head]) := last xs)) (rev (head # xs @ ys))"
proof -
  have d: "distinct (l # xs @ ys @ [head])" using assms by (auto simp: ring_def)
  have bl: "butlast xs @ [last xs] = xs" using assms(4) by simp
  have "cyc (nx h) (l # butlast xs @ [last xs])" "cyc (nx h) (ys @ [head])"
    using assms(1,2) cyc_rotate1 unfolding bl by (auto simp: ring_def)
  from cyc_join [OF this]
  have "cyc ((nx h)(head := hd xs, last xs := hd (ys @ [head]))) (xs @ ys @ [head])"
    using d bl by (metis append.assoc)
  then show "cyc ((nx h)(head := hd xs, last xs := hd (ys @ [head]))) (head # xs @ ys)"
    using cyc_unrotate1 by (metis append.assoc)
next
  have d: "distinct (l # xs @ ys @ [head])" using assms by (auto simp: ring_def)
  obtain at zs where at: "ys @ [head] = at # zs" by (cases ys) auto
  obtain x xt where x: "xs = x # xt" using assms(4) by (cases xs) auto
  have "cyc (pv h) (l # rev xt @ [x])"
    using assms(1) cyc_unrotate1 [of "pv h" "rev xs" l] x by (simp add: ring_def)
  moreover have "cyc (pv h) (rev zs @ [at])"
    using assms(2) ring_rotate1 [of h head ys] at by (simp add: ring_def)
  moreover have "distinct (l # rev xt @ [x] @ rev zs @ [at])"
    using d at x by auto
  ultimately have "cyc ((pv h)(at := hd (rev xt @ [x]), x := hd (rev zs @ [at])))
      (rev xt @ [x] @ rev zs @ [at])" by (rule cyc_join)
  moreover have "hd (rev xt @ [x]) = last xs" "hd (rev zs @ [at]) = head"
    using x at by (metis hd_rev rev.simps(2), metis at hd_rev last_snoc rev.simps(2))
  moreover have "rev xt @ [x] @ rev zs @ [at] = rev xs @ rev (ys @ [head])" using x at by simp
  ultimately have "cyc ((pv h)(at := last xs, x := head)) (rev xs @ rev (ys @ [head]))" by simp
  moreover have "at \<noteq> x" using d at x by (cases ys) auto
  moreover have "rev xs @ rev (ys @ [head]) = (rev xs @ [head]) @ rev ys" by simp
  ultimately have "cyc ((pv h)(x := head, at := last xs)) (rev ys @ (rev xs @ [head]))"
    using cyc_swap by (metis fun_upd_twist)
  then show "cyc ((pv h)(hd xs := head, hd (ys @ [head]) := last xs)) (rev (head # xs @ ys))"
    using x at by simp
qed

lemma u_list_splice_spec:
  assumes "dlist h l xs" "dlist h head ys" "set (l # xs) \<inter> set (head # ys) = {}" "xs \<noteq> []"
  obtains h' where "u_list_splice h l head = Inr h'" "dlist h' head (xs @ ys)" "h' l = h l"
    "same_outside (set xs \<union> set (head # ys)) h h'"
proof -
  let ?f = "hd xs" and ?l = "last xs" and ?at = "hd (ys @ [head])"
  have at: "?at \<in> set (head # ys)" by (cases ys) auto
  have mem: "?f \<in> set xs" "?l \<in> set xs" using assms(4) by auto
  have dom: "set (l # xs) \<subseteq> dom h" "set (head # ys) \<subseteq> dom h"
    using assms(1,2) by (simp_all add: dlist_def ring_def)
  have "get_next h l = Inr ?f" "get_prev h l = Inr ?l" "get_next h head = Inr ?at"
    using dlist_next_head [OF assms(1)] dlist_prev_head [OF assms(1)] dlist_next_head [OF assms(2)]
      assms(4) by (cases xs; simp)+
  then obtain h' where h': "u_list_splice h l head = Inr h'"
    "nx h' = (nx h)(head := ?f, ?l := ?at)" "pv h' = (pv h)(?f := head, ?at := ?l)"
    "same_outside {?f, head, ?l, ?at} h h'"
    by (rule u_list_splice_eff [rotated 4]) (use at mem dom in auto)
  have "distinct (head # xs @ ys)" using assms by (auto simp: dlist_def ring_def)
  moreover have "set (head # xs @ ys) \<subseteq> dom h'" using h'(4) dom by (auto simp: same_outside_def)
  ultimately have "dlist h' head (xs @ ys)"
    using splice_cycles [of h l xs head ys] assms h'(2,3) by (simp add: dlist_def ring_def)
  moreover have so: "same_outside (set xs \<union> set (head # ys)) h h'"
    using h'(4) at mem by (rule_tac same_outside_mono) auto
  moreover have "l \<notin> set xs \<union> set (head # ys)"
    using assms(3) dlist_distinct [OF assms(1)] by auto
  ultimately show ?thesis using h'(1) that by (simp add: same_outside_def)
qed

lemma list_splice_spec:
  assumes "dlist h l xs" "dlist h head ys" "set (l # xs) \<inter> set (head # ys) = {}"
  obtains h' where "list_splice h l head = Inr h'" "dlist h' head (xs @ ys)"
    "same_outside (set xs \<union> set (head # ys)) h h'"
proof (cases "xs = []")
  case True
  then show ?thesis using that [of h] assms list_empty_spec [OF assms(1)]
    by (simp add: list_splice_def same_outside_def)
next
  case False
  with assms obtain h' where "u_list_splice h l head = Inr h'" "dlist h' head (xs @ ys)"
    "same_outside (set xs \<union> set (head # ys)) h h'" using u_list_splice_spec by blast
  then show ?thesis using that [of h'] False list_empty_spec [OF assms(1)]
    by (simp add: list_splice_def)
qed

lemma list_splice_init_spec:
  assumes "dlist h l xs" "dlist h head ys" "set (l # xs) \<inter> set (head # ys) = {}"
  obtains h' where "list_splice_init h l head = Inr h'" "dlist h' head (xs @ ys)" "dlist h' l []"
    "same_outside (set (l # xs) \<union> set (head # ys)) h h'"
proof (cases "xs = []")
  case True
  then show ?thesis using that [of h] assms list_empty_spec [OF assms(1)]
    by (simp add: list_splice_init_def same_outside_def)
next
  case False
  with assms obtain h1 where 1: "u_list_splice h l head = Inr h1" "dlist h1 head (xs @ ys)"
    "h1 l = h l" "same_outside (set xs \<union> set (head # ys)) h h1" using u_list_splice_spec by blast
  have "l \<in> dom h1" using 1(3) dlist_head_dom [OF assms(1)] by auto
  then obtain h2 where 2: "INIT_LIST_HEAD h1 l = Inr h2" "ring h2 [l]" "same_outside {l} h1 h2"
    by (rule INIT_LIST_HEAD_ring)
  have "l \<notin> set (head # xs @ ys)" using assms(3) dlist_distinct [OF assms(1)] by auto
  then have "dlist h2 head (xs @ ys)" using 1(2) 2(3) by (rule_tac dlist_same_outside) auto
  moreover have "same_outside (set (l # xs) \<union> set (head # ys)) h h2"
    using 1(4) 2(3) by (auto simp: same_outside_def)
  ultimately show ?thesis using that [of h2] False list_empty_spec [OF assms(1)] 1(1) 2(1,2)
    by (simp add: list_splice_init_def dlist_def)
qed

section \<open>Iteration visits the list\<close>

lemma list_entry_member [simp]:
  "member_addr (list_entry p m) m = p" "list_entry (member_addr p m) m = p"
  by (simp_all add: list_entry_def)

lemma for_each_loop_next:
  assumes "\<And>p s. body p s = Inr (f p s)" and "\<And>p s. hp (f p s) = hp s"
  shows "dlist (hp s) head (as @ ys) \<Longrightarrow>
    for_each_loop hp get_next body head (hd (ys @ [head])) s = Some (Inr (fold f ys s))"
proof (induction ys arbitrary: as s)
  case Nil
  then show ?case by (simp add: for_each_loop.simps)
next
  case (Cons y ys)
  have "y \<noteq> head" using dlist_distinct [OF Cons.prems] by auto
  moreover have "get_next (hp (f y s)) y = Inr (hd (ys @ [head]))"
    using dlist_next_node [of "hp s" head as y ys] Cons.prems assms(2) by simp
  moreover have "dlist (hp (f y s)) head ((as @ [y]) @ ys)" using Cons.prems assms(2) by simp
  ultimately show ?case using Cons.IH [of "f y s" "as @ [y]"] assms(1) [of y s]
    by (subst for_each_loop.simps) simp
qed

lemma for_each_loop_prev:
  assumes "\<And>p s. body p s = Inr (f p s)" and "\<And>p s. hp (f p s) = hp s"
  shows "dlist (hp s) head (ys @ as) \<Longrightarrow>
    for_each_loop hp get_prev body head (last (head # ys)) s = Some (Inr (fold f (rev ys) s))"
proof (induction ys arbitrary: as s rule: rev_induct)
  case Nil
  then show ?case by (simp add: for_each_loop.simps)
next
  case (snoc y ys)
  have "y \<noteq> head" using dlist_distinct [OF snoc.prems] by auto
  moreover have "get_prev (hp (f y s)) y = Inr (last (head # ys))"
    using dlist_prev_node [of "hp s" head ys y as] snoc.prems assms(2) by simp
  moreover have "dlist (hp (f y s)) head (ys @ y # as)" using snoc.prems assms(2) by simp
  ultimately show ?case using snoc.IH [of "f y s" "y # as"] assms(1) [of y s]
    by (subst for_each_loop.simps) simp
qed

lemma for_each_entry_loop_next:
  assumes "\<And>p s. body p s = Inr (f p s)" and "\<And>p s. hp (f p s) = hp s"
  shows "dlist (hp s) head (as @ ys) \<Longrightarrow>
    for_each_entry_loop hp m body head (list_entry (hd (ys @ [head])) m) s =
      Some (Inr (fold f (map (\<lambda>p. list_entry p m) ys) s))"
proof (induction ys arbitrary: as s)
  case Nil
  then show ?case by (simp add: for_each_entry_loop.simps)
next
  case (Cons y ys)
  let ?s = "f (list_entry y m) s"
  have "y \<noteq> head" using dlist_distinct [OF Cons.prems] by auto
  moreover have "get_next (hp ?s) y = Inr (hd (ys @ [head]))"
    using dlist_next_node [of "hp s" head as y ys] Cons.prems assms(2) by simp
  moreover have "dlist (hp ?s) head ((as @ [y]) @ ys)" using Cons.prems assms(2) by simp
  ultimately show ?case using Cons.IH [of ?s "as @ [y]"] assms(1) [of "list_entry y m" s]
    by (subst for_each_entry_loop.simps) simp
qed

text \<open>The safe loops: \<open>P s ys\<close> is kept while the body takes the first of the remaining nodes \<open>ys\<close> out
  of the list, so the loop runs over all of them although each body destroys the node it is on.\<close>

lemma for_each_safe_loop_drain:
  assumes "\<And>s ys. P s ys \<Longrightarrow> dlist (hp s) head ys"
    and "\<And>s p ys. P s (p # ys) \<Longrightarrow> \<exists>s'. body p s = Inr s' \<and> P s' ys"
  shows "P s ys \<Longrightarrow> get_next (hp s) (hd (ys @ [head])) = Inr n \<Longrightarrow>
    \<exists>s'. for_each_safe_loop hp body head (hd (ys @ [head])) n s = Some (Inr s') \<and> P s' []"
proof (induction ys arbitrary: n s)
  case Nil
  then show ?case by (simp add: for_each_safe_loop.simps)
next
  case (Cons p ys)
  obtain s' where b: "body p s = Inr s'" "P s' ys" using assms(2) [OF Cons.prems(1)] by auto
  have d: "dlist (hp s) head (p # ys)" using assms(1) Cons.prems(1) .
  have n: "n = hd (ys @ [head])" using Cons.prems(2) dlist_next_node [of _ head "[]" p ys] d by simp
  obtain n' where n': "get_next (hp s') n = Inr n'"
    using assms(1) [OF b(2)] dlist_next_head dlist_next_node [of "hp s'" head "[]"] n
    by (cases ys) fastforce+
  obtain s'' where "for_each_safe_loop hp body head n n' s' = Some (Inr s'')" "P s'' []"
    using Cons.IH [OF b(2)] n n' by blast
  moreover have "p \<noteq> head" using dlist_distinct [OF d] by auto
  ultimately show ?case using b n' by (simp add: for_each_safe_loop.simps [of hp body head p])
qed

lemma for_each_entry_safe_loop_drain:
  assumes "\<And>s ys. P s ys \<Longrightarrow> dlist (hp s) head ys"
    and "\<And>s p ys. P s (p # ys) \<Longrightarrow> \<exists>s'. body (list_entry p m) s = Inr s' \<and> P s' ys"
  shows "P s ys \<Longrightarrow> get_next (hp s) (hd (ys @ [head])) = Inr n \<Longrightarrow>
    \<exists>s'. for_each_entry_safe_loop hp m body head (list_entry (hd (ys @ [head])) m) (list_entry n m) s =
      Some (Inr s') \<and> P s' []"
proof (induction ys arbitrary: n s)
  case Nil
  then show ?case by (simp add: for_each_entry_safe_loop.simps)
next
  case (Cons p ys)
  obtain s' where b: "body (list_entry p m) s = Inr s'" "P s' ys"
    using assms(2) [OF Cons.prems(1)] by auto
  have d: "dlist (hp s) head (p # ys)" using assms(1) Cons.prems(1) .
  have n: "n = hd (ys @ [head])" using Cons.prems(2) dlist_next_node [of _ head "[]" p ys] d by simp
  obtain n' where n': "get_next (hp s') n = Inr n'"
    using assms(1) [OF b(2)] dlist_next_head dlist_next_node [of "hp s'" head "[]"] n
    by (cases ys) fastforce+
  obtain s'' where "for_each_entry_safe_loop hp m body head (list_entry n m) (list_entry n' m) s' =
      Some (Inr s'')" "P s'' []"
    using Cons.IH [OF b(2)] n n' by blast
  moreover have "p \<noteq> head" using dlist_distinct [OF d] by auto
  ultimately show ?case using b n'
    by (simp add: for_each_entry_safe_loop.simps [of hp m body head "list_entry p m"])
qed

lemma dlist_next_first:
  "dlist h head xs \<Longrightarrow> \<exists>n. get_next h (hd (xs @ [head])) = Inr n"
  using dlist_next_head [of h head "[]"] dlist_next_node [of h head "[]"] by (cases xs) auto

lemma list_for_each_entry_safe_drain:
  assumes "\<And>s ys. P s ys \<Longrightarrow> dlist (hp s) head ys"
    and "\<And>s p ys. P s (p # ys) \<Longrightarrow> \<exists>s'. body (list_entry p m) s = Inr s' \<and> P s' ys"
    and "P s xs"
  shows "\<exists>s'. list_for_each_entry_safe hp m body head s = Some (Inr s') \<and> P s' []"
proof -
  have d: "dlist (hp s) head xs" using assms(1,3) .
  from dlist_next_first [OF d] obtain n where n: "get_next (hp s) (hd (xs @ [head])) = Inr n" ..
  show ?thesis
    using for_each_entry_safe_loop_drain [of P hp head body m, OF assms(1) assms(2) assms(3) n]
      dlist_next_head [OF d] n by (simp add: list_for_each_entry_safe_def)
qed

section \<open>The contract of a list, and what its clients get\<close>

text \<open>What the users of the list (the garbage list of a reactor) rely on: \<open>repr h head xs\<close> is the
  representation, \<open>node h p\<close> says that \<open>p\<close> is a list head of the heap.\<close>

locale intrusive_list =
  fixes repr :: "'h \<Rightarrow> 'p \<Rightarrow> 'p list \<Rightarrow> bool"
    and node :: "'h \<Rightarrow> 'p \<Rightarrow> bool"
    and add_tail :: "'h \<Rightarrow> 'p \<Rightarrow> 'p \<Rightarrow> 'h res"
    and del :: "'h \<Rightarrow> 'p \<Rightarrow> 'h res"
    and is_empty :: "'h \<Rightarrow> 'p \<Rightarrow> bool res"
  assumes add_tail_law: "repr h head xs \<Longrightarrow> node h p \<Longrightarrow> p \<notin> set (head # xs) \<Longrightarrow>
      \<exists>h'. add_tail h p head = Inr h' \<and> repr h' head (xs @ [p]) \<and> node h' = node h"
    and del_law: "repr h head (as @ p # bs) \<Longrightarrow>
      \<exists>h'. del h p = Inr h' \<and> repr h' head (as @ bs) \<and> node h' = node h"
    and empty_law: "repr h head xs \<Longrightarrow> is_empty h head = Inr (xs = [])"
    and repr_distinct: "repr h head xs \<Longrightarrow> distinct (head # xs)"
begin

lemma add_all:
  "repr h head xs \<Longrightarrow> (\<And>p. p \<in> set ps \<Longrightarrow> node h p) \<Longrightarrow> distinct (head # xs @ ps) \<Longrightarrow>
   \<exists>h'. foldE (\<lambda>p h. add_tail h p head) ps h = Inr h' \<and> repr h' head (xs @ ps) \<and> node h' = node h"
proof (induction ps arbitrary: h xs)
  case (Cons p ps)
  obtain h1 where 1: "add_tail h p head = Inr h1" "repr h1 head (xs @ [p])" "node h1 = node h"
    using add_tail_law [OF Cons.prems(1), of p] Cons.prems(2,3) by auto
  have "\<And>q. q \<in> set ps \<Longrightarrow> node h1 q" "distinct (head # (xs @ [p]) @ ps)"
    using Cons.prems(2,3) 1(3) by auto
  with Cons.IH [OF 1(2)] 1 show ?case by simp
qed simp

lemma del_all:
  "repr h head (xs @ ys) \<Longrightarrow>
   \<exists>h'. foldE (\<lambda>p h. del h p) xs h = Inr h' \<and> repr h' head ys \<and> node h' = node h"
proof (induction xs arbitrary: h)
  case (Cons p xs)
  obtain h1 where "del h p = Inr h1" "repr h1 head (xs @ ys)" "node h1 = node h"
    using del_law [of h head "[]" p "xs @ ys"] Cons.prems by auto
  with Cons.IH show ?case by fastforce
qed simp

text \<open>Nodes queued at the tail and taken out from the front: the list is a queue, empty again at the
  end, and no step fails.\<close>

lemma fifo:
  assumes "repr h head []" "\<And>p. p \<in> set ps \<Longrightarrow> node h p" "distinct (head # ps)"
  shows "\<exists>h1 h2. foldE (\<lambda>p h. add_tail h p head) ps h = Inr h1 \<and> repr h1 head ps \<and>
    foldE (\<lambda>p h. del h p) ps h1 = Inr h2 \<and> is_empty h2 head = Inr True"
proof -
  obtain h1 where 1: "foldE (\<lambda>p h. add_tail h p head) ps h = Inr h1" "repr h1 head ps"
    using add_all [OF assms(1,2)] assms(3) by auto
  then obtain h2 where "foldE (\<lambda>p h. del h p) ps h1 = Inr h2" "repr h2 head []"
    using del_all [of h1 head ps "[]"] by auto
  then show ?thesis using 1 empty_law [of h2 head "[]"] by auto
qed

end

interpretation kl: intrusive_list dlist "\<lambda>h p. p \<in> dom h" list_add_tail list_del list_empty
proof
  fix h head xs p
  assume "dlist h head xs" "p \<in> dom h" "p \<notin> set (head # xs)"
  then obtain h' where "list_add_tail h p head = Inr h'" "dlist h' head (xs @ [p])"
    "same_outside (insert p (set (head # xs))) h h'" by (rule list_add_tail_spec)
  then show "\<exists>h'. list_add_tail h p head = Inr h' \<and> dlist h' head (xs @ [p]) \<and>
      (\<lambda>p. p \<in> dom h') = (\<lambda>p. p \<in> dom h)" by (auto simp: same_outside_def)
next
  fix h head as p bs
  assume "dlist h head (as @ p # bs)"
  then obtain h' where "list_del h p = Inr h'" "dlist h' head (as @ bs)"
    "same_outside (set (head # as @ p # bs)) h h'" by (rule list_del_spec)
  then show "\<exists>h'. list_del h p = Inr h' \<and> dlist h' head (as @ bs) \<and>
      (\<lambda>p. p \<in> dom h') = (\<lambda>p. p \<in> dom h)" by (auto simp: same_outside_def)
qed (simp_all only: list_empty_spec dlist_distinct)

section \<open>Properties\<close>

text \<open>Two lists for the witnesses: the list of the nodes 2 and 3 anchored at 1, the list of the node
  5 anchored at 4, and a node 6 that is in no list.\<close>

definition two_lists :: lheap where
  "two_lists = [1 \<mapsto> \<lparr>lnext = 2, lprev = 3\<rparr>, 2 \<mapsto> \<lparr>lnext = 3, lprev = 1\<rparr>,
     3 \<mapsto> \<lparr>lnext = 1, lprev = 2\<rparr>, 4 \<mapsto> \<lparr>lnext = 5, lprev = 5\<rparr>,
     5 \<mapsto> \<lparr>lnext = 4, lprev = 4\<rparr>, 6 \<mapsto> \<lparr>lnext = 0, lprev = 0\<rparr>]"

lemma two_lists_dlist: "dlist two_lists 1 [2, 3]" "dlist two_lists 4 [5]" "6 \<in> dom two_lists"
  by (simp_all add: dlist_def ring_def cyc_def nx_def pv_def two_lists_def)

text \<open>C13: \<open>list_add\<close> puts a node at the front and \<open>list_add_tail\<close> at the end of the list anchored at
  \<open>head\<close>, also when the list is empty; neither dereferences a bad pointer, and no list head outside
  the list and the node changes.\<close>

theorem list_add_refines:
  assumes "dlist h head xs" and "cur \<in> dom h" and "cur \<notin> set (head # xs)"
  shows "(\<exists>h'. list_add h cur head = Inr h' \<and> dlist h' head (cur # xs) \<and>
           same_outside (insert cur (set (head # xs))) h h') \<and>
         (\<exists>h'. list_add_tail h cur head = Inr h' \<and> dlist h' head (xs @ [cur]) \<and>
           same_outside (insert cur (set (head # xs))) h h')"
  using list_add_spec [OF assms] list_add_tail_spec [OF assms] by metis

theorem list_add_refines_witness:
  "(\<exists>h'. list_add two_lists 6 1 = Inr h' \<and> dlist h' 1 [6, 2, 3] \<and> dlist h' 4 [5])"
proof -
  obtain h' where h': "list_add two_lists 6 1 = Inr h'" "dlist h' 1 [6, 2, 3]"
    "same_outside (insert 6 (set [1, 2, 3])) two_lists h'"
    using list_add_refines [OF two_lists_dlist(1,3)] by auto
  have "dlist h' 4 [5]" using two_lists_dlist(2) h'(3) by (rule dlist_same_outside) simp
  with h' show ?thesis by blast
qed

text \<open>C5: \<open>list_del\<close> takes exactly its node out of the list, wherever it is, and clears the node's
  pointers; \<open>list_del_init\<close> leaves the node as an empty list of its own. Nothing outside the list
  changes.\<close>

theorem list_del_refines:
  assumes "dlist h head (as @ e # bs)"
  shows "(\<exists>h'. list_del h e = Inr h' \<and> dlist h' head (as @ bs) \<and>
           h' e = Some \<lparr>lnext = NULL, lprev = NULL\<rparr> \<and> same_outside (set (head # as @ e # bs)) h h') \<and>
         (\<exists>h'. list_del_init h e = Inr h' \<and> dlist h' head (as @ bs) \<and> dlist h' e [] \<and>
           same_outside (set (head # as @ e # bs)) h h')"
  using list_del_spec [OF assms] list_del_init_spec [OF assms] by metis

theorem list_del_refines_witness: "\<exists>h'. list_del two_lists 3 = Inr h' \<and> dlist h' 1 [2]"
  using list_del_refines [of two_lists 1 "[2]" 3 "[]"] two_lists_dlist(1) by auto

text \<open>\<open>list_move\<close> and \<open>list_move_tail\<close> take a node out of its list and make it the first or the
  last node of another list.\<close>

lemma list_move_refines:
  assumes "dlist h src (as @ e # bs)" and "dlist h head xs"
    and "set (src # as @ e # bs) \<inter> set (head # xs) = {}"
  shows "(\<exists>h'. list_move h e head = Inr h' \<and> dlist h' src (as @ bs) \<and> dlist h' head (e # xs)) \<and>
         (\<exists>h'. list_move_tail h e head = Inr h' \<and> dlist h' src (as @ bs) \<and> dlist h' head (xs @ [e]))"
  using list_move_spec [OF assms] list_move_tail_spec [OF assms] by metis

lemma list_move_refines_example:
  "\<exists>h'. list_move_tail two_lists 2 4 = Inr h' \<and> dlist h' 1 [3] \<and> dlist h' 4 [5, 2]"
  using list_move_refines [of two_lists 1 "[]" 2 "[3]" 4 "[5]"] two_lists_dlist by auto

text \<open>C12: \<open>list_splice\<close> puts all nodes of a list in front of another list, in order; \<open>list_splice_init\<close>
  also makes the first list empty.\<close>

theorem list_splice_refines:
  assumes "dlist h l xs" and "dlist h head ys" and "set (l # xs) \<inter> set (head # ys) = {}"
  shows "(\<exists>h'. list_splice h l head = Inr h' \<and> dlist h' head (xs @ ys)) \<and>
         (\<exists>h'. list_splice_init h l head = Inr h' \<and> dlist h' head (xs @ ys) \<and> dlist h' l [])"
  using list_splice_spec [OF assms] list_splice_init_spec [OF assms] by metis

theorem list_splice_refines_witness:
  "\<exists>h'. list_splice_init two_lists 1 4 = Inr h' \<and> dlist h' 4 [2, 3, 5] \<and> dlist h' 1 []"
  using list_splice_refines [OF two_lists_dlist(1,2)] by auto

text \<open>C15: the iteration macros end and run their body once per node: \<open>list_for_each\<close> in the order of
  the list, \<open>list_for_each_prev\<close> in the opposite order, \<open>list_for_each_entry\<close> on the enclosing
  structures, whatever the offset of the node in them.\<close>

theorem list_for_each_visits:
  assumes "dlist (hp s) head xs" and "\<And>p s. hp (f p s) = hp s"
  shows "list_for_each hp (\<lambda>p s. Inr (f p s)) head s = Some (Inr (fold f xs s)) \<and>
    list_for_each_prev hp (\<lambda>p s. Inr (f p s)) head s = Some (Inr (fold f (rev xs) s)) \<and>
    list_for_each_entry hp m (\<lambda>p s. Inr (f p s)) head s =
      Some (Inr (fold f (map (\<lambda>p. list_entry p m) xs) s))"
  using for_each_loop_next [of "\<lambda>p s. Inr (f p s)" f hp s head "[]" xs]
    for_each_loop_prev [of "\<lambda>p s. Inr (f p s)" f hp s head xs "[]"]
    for_each_entry_loop_next [of "\<lambda>p s. Inr (f p s)" f hp s head "[]" xs m]
    dlist_next_head [OF assms(1)] dlist_prev_head [OF assms(1)] assms
  by (simp add: list_for_each_def list_for_each_prev_def list_for_each_entry_def)

theorem list_for_each_visits_witness:
  "list_for_each_prev fst (\<lambda>p (h, ps). Inr (h, ps @ [p])) 1 (two_lists, []) =
     Some (Inr (two_lists, [3, 2]))"
  using list_for_each_visits [of fst "(two_lists, [])" 1 "[2, 3]" "\<lambda>p (h, ps). (h, ps @ [p])"]
    two_lists_dlist(1)
  by (simp add: case_prod_unfold)

text \<open>C14: the cleanup idiom documented in \<open>list.h\<close>: \<open>list_for_each_safe\<close> with \<open>list_del\<close> on every node
  ends without touching a bad pointer, hands every node to the body exactly once in list order, and
  leaves the list empty.\<close>

theorem list_for_each_safe_cleanup:
  assumes "dlist h head xs"
  shows "\<exists>h'. list_for_each_safe fst
        (\<lambda>p (h, ps). bindE (list_del h p) (\<lambda>h. Inr (h, ps @ [p]))) head (h, []) =
      Some (Inr (h', xs)) \<and> dlist h' head []"
proof -
  let ?body = "\<lambda>p (h, ps). bindE (list_del h p) (\<lambda>h. Inr (h, ps @ [p]))"
  let ?P = "\<lambda>(h, ps) ys. dlist h head ys \<and> ps @ ys = xs"
  have step: "\<exists>s'. ?body p s = Inr s' \<and> ?P s' ys" if P: "?P s (p # ys)" for s p ys
  proof -
    obtain h1 ps where s: "s = (h1, ps)" by fastforce
    then obtain h2 where "list_del h1 p = Inr h2" "dlist h2 head ys"
      using kl.del_law [of h1 head "[]" p ys] P by auto
    then show ?thesis using P s by auto
  qed
  from dlist_next_first [OF assms] obtain n where n: "get_next h (hd (xs @ [head])) = Inr n" ..
  have "?P (h, []) xs" using assms by simp
  then have "\<exists>s'. for_each_safe_loop fst ?body head (hd (xs @ [head])) n (h, []) = Some (Inr s') \<and>
      ?P s' []"
    using n step by (intro for_each_safe_loop_drain [of ?P]) auto
  then show ?thesis using dlist_next_head [OF assms] n
    by (auto simp: list_for_each_safe_def)
qed

theorem list_for_each_safe_cleanup_witness:
  "\<exists>h'. list_for_each_safe fst
        (\<lambda>p (h, ps). bindE (list_del h p) (\<lambda>h. Inr (h, ps @ [p]))) 1 (two_lists, []) =
      Some (Inr (h', [2, 3])) \<and> dlist h' 1 []"
  using list_for_each_safe_cleanup [OF two_lists_dlist(1)] .

end
