(* ===== verification/Occurrence.thy ===== *)
theory Occurrence
  imports Prelude
begin

text \<open>
  What a substring search promises: the position of the first occurrence of a pattern in a text.
  \<open>norm\<close> maps the text's bytes before they are compared (\<open>id\<close>, or \<open>tolower\<close> for a search
  that ignores case). The search routines of \<open>src/common/\<close> are compared with
  \<open>first_occurrence\<close>.
\<close>

definition occurs_at :: "(char \<Rightarrow> char) \<Rightarrow> char list \<Rightarrow> nat \<Rightarrow> char list \<Rightarrow> nat \<Rightarrow> nat \<Rightarrow> bool" where
  "occurs_at norm text n pat m i \<longleftrightarrow> i + m \<le> n \<and> (\<forall>k<m. norm (text ! (i + k)) = pat ! k)"

definition first_occurrence ::
    "(char \<Rightarrow> char) \<Rightarrow> char list \<Rightarrow> nat \<Rightarrow> char list \<Rightarrow> nat \<Rightarrow> nat option" where
  "first_occurrence norm text n pat m = find (occurs_at norm text n pat m) [0..<Suc n - m]"

lemma occurs_at_bound: "occurs_at norm text n pat m i \<Longrightarrow> i < Suc n - m"
  by (auto simp: occurs_at_def)

lemma first_occurrence_Some:
  "first_occurrence norm text n pat m = Some i \<longleftrightarrow>
     occurs_at norm text n pat m i \<and> (\<forall>j<i. \<not> occurs_at norm text n pat m j)"
proof
  assume "first_occurrence norm text n pat m = Some i"
  then show "occurs_at norm text n pat m i \<and> (\<forall>j<i. \<not> occurs_at norm text n pat m j)"
    unfolding first_occurrence_def find_Some_iff by (auto dest: less_trans)
next
  assume occ: "occurs_at norm text n pat m i \<and> (\<forall>j<i. \<not> occurs_at norm text n pat m j)"
  then have "i < Suc n - m" using occurs_at_bound by blast
  then show "first_occurrence norm text n pat m = Some i"
    unfolding first_occurrence_def find_Some_iff using occ
    by (intro exI [of _ i]) (simp del: upt_Suc)
qed

lemma first_occurrence_None:
  "first_occurrence norm text n pat m = None \<longleftrightarrow> (\<forall>i. \<not> occurs_at norm text n pat m i)"
  unfolding first_occurrence_def find_None_iff using occurs_at_bound by fastforce

lemma occurs_iff_sublist:
  "(\<exists>i. occurs_at id text (length text) pat (length pat) i) \<longleftrightarrow> (\<exists>u v. text = u @ pat @ v)"
proof
  assume "\<exists>i. occurs_at id text (length text) pat (length pat) i"
  then obtain i where i: "i + length pat \<le> length text" "\<forall>k<length pat. text ! (i + k) = pat ! k"
    by (auto simp: occurs_at_def)
  then have "take (length pat) (drop i text) = pat" by (intro nth_equalityI) auto
  then have "text = take i text @ pat @ drop (length pat) (drop i text)"
    by (metis append_take_drop_id)
  then show "\<exists>u v. text = u @ pat @ v" by blast
next
  assume "\<exists>u v. text = u @ pat @ v"
  then obtain u v where "text = u @ pat @ v" by blast
  then have "occurs_at id text (length text) pat (length pat) (length u)"
    by (simp add: occurs_at_def nth_append)
  then show "\<exists>i. occurs_at id text (length text) pat (length pat) i" by blast
qed

section \<open>The contract of a search routine\<close>

text \<open>\<open>contains text n q m\<close> searches the first \<open>m\<close> bytes of \<open>q\<close> in the first \<open>n\<close> bytes of \<open>text\<close>;
  \<open>ok\<close> says for which arguments it keeps the contract.\<close>

locale substring_search =
  fixes contains :: "char list \<Rightarrow> nat \<Rightarrow> char list \<Rightarrow> nat \<Rightarrow> nat option run"
    and norm :: "char \<Rightarrow> char"
    and ok :: "char list \<Rightarrow> nat \<Rightarrow> char list \<Rightarrow> nat \<Rightarrow> bool"
  assumes first: "ok text n q m \<Longrightarrow>
    contains text n q m = Some (Inr (first_occurrence norm text n q m))"
begin

lemma found:
  "ok text n q m \<Longrightarrow> contains text n q m = Some (Inr (Some i)) \<Longrightarrow>
   occurs_at norm text n q m i \<and> (\<forall>j<i. \<not> occurs_at norm text n q m j)"
  by (simp add: first first_occurrence_Some)

lemma decides:
  "ok text n q m \<Longrightarrow> \<exists>r. contains text n q m = Some (Inr r) \<and>
     ((r \<noteq> None) \<longleftrightarrow> (\<exists>i. occurs_at norm text n q m i))"
  using first_occurrence_None [of norm "text" n q m] by (auto simp: first)

lemma longer_text:
  "ok text n q m \<Longrightarrow> ok text n' q m \<Longrightarrow> n \<le> n' \<Longrightarrow> contains text n q m = Some (Inr (Some i)) \<Longrightarrow>
   contains text n' q m = Some (Inr (Some i))"
  by (auto simp: first first_occurrence_Some occurs_at_def)

end

end
