(* ===== verification/Boyermoore.thy ===== *)
theory Boyermoore
  imports Occurrence
begin

text \<open>
  The Boyer-Moore search of \<open>src/common/boyermoore.c\<close>. The tables are built and used as in the
  source: \<open>alpha_skip_lookup\<close> has one entry per byte, \<open>find_skip_lookup\<close> comes from
  \<open>malloc\<close>, so its entries are \<open>None\<close> (indeterminate) until they are written, and reading one
  before is \<open>Uninitialised\<close>. Every array access is checked. \<open>size_t\<close> subtraction and the position
  in the text wrap around: after a match at the start of the text the position is
  \<open>SIZE_MAX\<close>, and the code returns \<open>text + pos + 1\<close>. The loop counters that only run upwards to a
  \<open>size_t\<close> bound cannot wrap and are plain naturals.

  The main result is that the search ends, stays inside its arrays and returns the first
  occurrence, case-sensitive for every query and ignoring case for a query without capitals, as long
  as \<open>malloc\<close> has memory and, in the second case, the bytes are arguments of \<open>tolower\<close>.
\<close>

section \<open>The routines\<close>

definition same_char :: "bool \<Rightarrow> char \<Rightarrow> char \<Rightarrow> bool res" where
  "same_char case_sensitive a b =
     (if case_sensitive then Inr (a = b)
      else bindE (c_tolower a) (\<lambda>a. bindE (c_tolower b) (\<lambda>b. Inr (a = b))))"

function is_prefix_loop :: "char list \<Rightarrow> nat \<Rightarrow> nat \<Rightarrow> bool \<Rightarrow> nat \<Rightarrow> bool res" where
  "is_prefix_loop s s_len pos cs i =
     (if pos + i < s_len then
        bindE (rd s i) (\<lambda>a. bindE (rd s (i + pos)) (\<lambda>b.
        bindE (same_char cs a b) (\<lambda>same.
          if \<not> same then Inr False else is_prefix_loop s s_len pos cs (i + 1))))
      else Inr True)"
  by pat_completeness auto
termination
  by (relation "measure (\<lambda>(s, s_len, pos, cs, i). s_len - (pos + i))") auto

definition is_prefix :: "char list \<Rightarrow> nat \<Rightarrow> nat \<Rightarrow> bool \<Rightarrow> bool res" where
  "is_prefix s s_len pos cs = is_prefix_loop s s_len pos cs 0"

function suffix_len_loop :: "char list \<Rightarrow> nat \<Rightarrow> nat \<Rightarrow> bool \<Rightarrow> nat \<Rightarrow> nat res" where
  "suffix_len_loop s s_len pos cs i =
     (if i < pos then
        bindE (rd s (pos - i)) (\<lambda>a. bindE (rd s (szt_sub (szt_sub s_len i) 1)) (\<lambda>b.
        bindE (same_char cs a b) (\<lambda>same.
          if \<not> same then Inr i else suffix_len_loop s s_len pos cs (i + 1))))
      else Inr i)"
  by pat_completeness auto
termination
  by (relation "measure (\<lambda>(s, s_len, pos, cs, i). pos - i)") auto

definition suffix_len :: "char list \<Rightarrow> nat \<Rightarrow> nat \<Rightarrow> bool \<Rightarrow> nat res" where
  "suffix_len s s_len pos cs = suffix_len_loop s s_len pos cs 0"

declare is_prefix_loop.simps [simp del] suffix_len_loop.simps [simp del]

text \<open>\<open>for (i = last_prefix; i > 0; i--)\<close>\<close>

fun find_skip_prefixes ::
    "char list \<Rightarrow> nat \<Rightarrow> bool \<Rightarrow> nat \<Rightarrow> nat \<Rightarrow> nat option list \<Rightarrow> nat option list res" where
  "find_skip_prefixes find_s f_len cs 0 last_prefix sl = Inr sl"
| "find_skip_prefixes find_s f_len cs (Suc k) last_prefix sl =
     bindE (is_prefix find_s f_len (Suc k) cs) (\<lambda>b.
     let last_prefix = (if b then Suc k else last_prefix) in
     bindE (wr sl k (Some (szt_add last_prefix (szt_sub f_len (Suc k))))) (\<lambda>sl.
     find_skip_prefixes find_s f_len cs k last_prefix sl))"

text \<open>\<open>for (i = 0; i < f_len; i++)\<close>, one iteration\<close>

definition find_skip_suffix ::
    "char list \<Rightarrow> nat \<Rightarrow> bool \<Rightarrow> nat \<Rightarrow> nat option list \<Rightarrow> nat option list res" where
  "find_skip_suffix find_s f_len cs i sl =
     bindE (suffix_len find_s f_len i cs) (\<lambda>s_len.
     bindE (rd find_s (szt_sub i s_len)) (\<lambda>a.
     bindE (rd find_s (szt_sub (szt_sub f_len 1) s_len)) (\<lambda>b.
     if a \<noteq> b
     then wr sl (szt_sub (szt_sub f_len 1) s_len)
            (Some (szt_add (szt_sub (szt_sub f_len 1) i) s_len))
     else Inr sl)))"

text \<open>\<open>malloc_ok\<close> says whether \<open>malloc\<close> returned memory; the source does not test it, and
  the first store of the first loop goes through the null pointer when it did not.\<close>

definition generate_find_skip ::
    "bool \<Rightarrow> char list \<Rightarrow> nat \<Rightarrow> bool \<Rightarrow> nat option list res" where
  "generate_find_skip malloc_ok find_s f_len cs =
     (let sl = replicate ((f_len * 8) mod size_mod div 8) None in
      bindE (assertE (malloc_ok \<or> f_len = 0) Bad_Pointer) (\<lambda>_.
      bindE (find_skip_prefixes find_s f_len cs f_len f_len sl) (\<lambda>sl.
      foldE (find_skip_suffix find_s f_len cs) [0..<f_len] sl)))"

function alpha_skip_loop :: "char list \<Rightarrow> nat \<Rightarrow> bool \<Rightarrow> nat \<Rightarrow> nat list \<Rightarrow> nat list res" where
  "alpha_skip_loop find_s f_len cs i skip_lookup =
     (if i < f_len then
        bindE (rd find_s i) (\<lambda>c.
        bindE (if cs then wr skip_lookup (byte_of c) (f_len - i)
               else bindE (c_tolower c) (\<lambda>l. bindE (wr skip_lookup (byte_of l) (f_len - i)) (\<lambda>t.
                    bindE (c_toupper c) (\<lambda>u. wr t (byte_of u) (f_len - i))))) (\<lambda>t.
        alpha_skip_loop find_s f_len cs (i + 1) t))
      else Inr skip_lookup)"
  by pat_completeness auto
termination
  by (relation "measure (\<lambda>(find_s, f_len, cs, i, t). f_len - i)") auto

declare alpha_skip_loop.simps [simp del]

definition generate_alpha_skip :: "char list \<Rightarrow> nat \<Rightarrow> bool \<Rightarrow> nat list res" where
  "generate_alpha_skip find_s f_len cs =
     alpha_skip_loop find_s (szt_sub f_len 1) cs 0 (replicate 256 f_len)"

record posixc_boyermoore =
  alpha_skip_lookup :: "nat list"
  find_skip_lookup :: "nat option list"
  case_sensitive :: bool
  query :: "char list"
  query_len :: nat

definition posixc_boyermoore_init ::
    "bool \<Rightarrow> char list \<Rightarrow> nat \<Rightarrow> bool \<Rightarrow> posixc_boyermoore res" where
  "posixc_boyermoore_init malloc_ok q q_len cs =
     bindE (generate_alpha_skip q q_len cs) (\<lambda>a.
     bindE (generate_find_skip malloc_ok q q_len cs) (\<lambda>f.
     Inr \<lparr>alpha_skip_lookup = a, find_skip_lookup = f, case_sensitive = cs,
          query = q, query_len = q_len\<rparr>))"

text \<open>\<open>ssize_t\<close> from \<open>size_t\<close>.\<close>

definition to_ssize :: "nat \<Rightarrow> int" where
  "to_ssize x = (if x < 2 ^ 63 then int x else int x - 2 ^ 64)"

text \<open>\<open>for (; i >= 0 && text[pos] == query[i]; pos--, i--);\<close>\<close>

function match_loop ::
    "posixc_boyermoore \<Rightarrow> char list \<Rightarrow> nat \<Rightarrow> int \<Rightarrow> (nat \<times> int) res" where
  "match_loop bm text pos i =
     (if i \<ge> 0 then
        bindE (rd text pos) (\<lambda>c. bindE (if case_sensitive bm then Inr c else c_tolower c) (\<lambda>c.
        bindE (rd (query bm) (nat i)) (\<lambda>d.
          if c = d then match_loop bm text (szt_sub pos 1) (i - 1)
          else Inr (pos, i))))
      else Inr (pos, i))"
  by pat_completeness auto
termination
  by (relation "measure (\<lambda>(bm, text, pos, i). nat (i + 1))") auto

declare match_loop.simps [simp del]

text \<open>One round of \<open>while (pos < text_len)\<close>: the position of a match, or where to look next.\<close>

definition search_round :: "posixc_boyermoore \<Rightarrow> char list \<Rightarrow> nat \<Rightarrow> (nat + nat) res" where
  "search_round bm text pos =
     bindE (match_loop bm text pos (to_ssize (szt_sub (query_len bm) 1))) (\<lambda>(pos, i).
     if i < 0 then Inr (Inl (szt_add pos 1))
     else bindE (rd text pos) (\<lambda>c.
          bindE (rd (alpha_skip_lookup bm) (byte_of c)) (\<lambda>a.
          bindE (rd_init (find_skip_lookup bm) (nat i)) (\<lambda>f.
          Inr (Inr (szt_add pos (posixc_max a f)))))))"

partial_function (option) search_loop ::
    "posixc_boyermoore \<Rightarrow> char list \<Rightarrow> nat \<Rightarrow> nat \<Rightarrow> nat option run" where
  "search_loop bm text text_len pos =
     (if pos < text_len then
        (case search_round bm text pos of
           Inl e \<Rightarrow> Some (Inl e)
         | Inr r \<Rightarrow> (case r of Inl p \<Rightarrow> Some (Inr (Some p))
                     | Inr pos' \<Rightarrow> search_loop bm text text_len pos'))
      else Some (Inr None))"

declare search_loop.simps [code]

text \<open>The result is the offset of the returned pointer in the text, or \<open>None\<close> for \<open>NULL\<close>.\<close>

definition posixc_boyermoore_search_in ::
    "posixc_boyermoore \<Rightarrow> char list \<Rightarrow> nat \<Rightarrow> nat option run" where
  "posixc_boyermoore_search_in bm text text_len =
     search_loop bm text text_len (szt_sub (query_len bm) 1)"

definition posixc_boyermoore_contains ::
    "bool \<Rightarrow> char list \<Rightarrow> nat \<Rightarrow> char list \<Rightarrow> nat \<Rightarrow> nat option run" where
  "posixc_boyermoore_contains malloc_ok text text_len q q_len =
     bindR (Some (posixc_boyermoore_init malloc_ok q q_len True)) (\<lambda>tmp.
     posixc_boyermoore_search_in tmp text text_len)"

definition posixc_boyermoore_contains_case_ignored ::
    "bool \<Rightarrow> char list \<Rightarrow> nat \<Rightarrow> char list \<Rightarrow> nat \<Rightarrow> nat option run" where
  "posixc_boyermoore_contains_case_ignored malloc_ok text text_len q q_len =
     bindR (Some (posixc_boyermoore_init malloc_ok q q_len False)) (\<lambda>tmp.
     posixc_boyermoore_search_in tmp text text_len)"

section \<open>The tables\<close>

text \<open>The queries the search is meant for: not empty, all of it readable, small enough for the table
  to be allocated, and, when case is ignored, without capitals and of bytes that \<open>tolower\<close> takes.\<close>

definition query_ok :: "char list \<Rightarrow> nat \<Rightarrow> bool \<Rightarrow> bool" where
  "query_ok q m cs \<longleftrightarrow> 0 < m \<and> m \<le> length q \<and> m * 8 < size_mod \<and>
     (cs \<or> (\<forall>k<m. ctype_ok (q ! k) \<and> tolower (q ! k) = q ! k))"

lemma query_okD:
  assumes "query_ok q m cs"
  shows "0 < m" "m \<le> length q" "m * 8 < size_mod" "m < size_mod" "m < 2 ^ 63"
    "cs \<or> (\<forall>k<m. ctype_ok (q ! k) \<and> tolower (q ! k) = q ! k)"
  using assms by (simp_all add: query_ok_def size_mod_def)

lemma same_char_eq:
  "query_ok q m cs \<Longrightarrow> a < m \<Longrightarrow> b < m \<Longrightarrow> same_char cs (q ! a) (q ! b) = Inr (q ! a = q ! b)"
  by (auto simp: query_ok_def same_char_def)

lemma is_prefix_loop_spec:
  assumes "query_ok q m cs"
  shows "is_prefix_loop q m pos cs i = Inr (\<forall>k. pos + i \<le> k \<and> k < m \<longrightarrow> q ! (k - pos) = q ! k)"
proof (induction "m - (pos + i)" arbitrary: i)
  case 0
  then show ?case by (subst is_prefix_loop.simps) auto
next
  case (Suc x)
  then have lt: "pos + i < m" by simp
  have IH: "is_prefix_loop q m pos cs (i + 1) =
      Inr (\<forall>k. pos + (i + 1) \<le> k \<and> k < m \<longrightarrow> q ! (k - pos) = q ! k)"
    using Suc.hyps by simp
  have split: "(\<forall>k. pos + i \<le> k \<and> k < m \<longrightarrow> q ! (k - pos) = q ! k) \<longleftrightarrow>
      q ! i = q ! (i + pos) \<and> (\<forall>k. pos + (i + 1) \<le> k \<and> k < m \<longrightarrow> q ! (k - pos) = q ! k)"
    using all_from_split [OF lt, of "\<lambda>k. q ! (k - pos) = q ! k"] by (simp add: add.commute)
  show ?case unfolding split
    using lt query_okD(2) [OF assms] same_char_eq [OF assms, of i "i + pos"] IH
    by (subst is_prefix_loop.simps) (simp add: add.commute)
qed

text \<open>\<open>self_overlap q m d\<close>: the query shifted by \<open>d\<close> agrees with itself where both have characters.\<close>

definition self_overlap :: "char list \<Rightarrow> nat \<Rightarrow> nat \<Rightarrow> bool" where
  "self_overlap q m d \<longleftrightarrow> (\<forall>k. d \<le> k \<and> k < m \<longrightarrow> q ! (k - d) = q ! k)"

lemma is_prefix_spec: "query_ok q m cs \<Longrightarrow> is_prefix q m pos cs = Inr (self_overlap q m pos)"
  using is_prefix_loop_spec [of q m cs pos 0] by (simp add: is_prefix_def self_overlap_def)

text \<open>The bytes of a text in which case can be ignored.\<close>

definition text_ok :: "bool \<Rightarrow> char list \<Rightarrow> nat \<Rightarrow> bool" where
  "text_ok cs text n \<longleftrightarrow> cs \<or> (\<forall>k<n. ctype_ok (text ! k))"

lemma suffix_len_loop_spec:
  assumes "query_ok q m cs" and "pos < m"
  shows "i \<le> pos \<Longrightarrow> \<forall>t<i. q ! (pos - t) = q ! (m - 1 - t) \<Longrightarrow>
    \<exists>s. suffix_len_loop q m pos cs i = Inr s \<and> s \<le> pos \<and>
        (\<forall>t < s. q ! (pos - t) = q ! (m - 1 - t)) \<and> (s < pos \<longrightarrow> q ! (pos - s) \<noteq> q ! (m - 1 - s))"
proof (induction "pos - i" arbitrary: i)
  case 0
  then show ?case by (subst suffix_len_loop.simps) auto
next
  case (Suc x)
  then have lt: "i < pos" by simp
  have idx: "szt_sub (szt_sub m i) 1 = m - 1 - i"
    using lt assms(2) query_okD(4) [OF assms(1)] by simp
  have unf: "suffix_len_loop q m pos cs i =
     (if q ! (pos - i) \<noteq> q ! (m - 1 - i) then Inr i else suffix_len_loop q m pos cs (i + 1))"
    using lt assms(2) query_okD(2) [OF assms(1)] same_char_eq [OF assms(1), of "pos - i" "m - 1 - i"] idx
    by (subst suffix_len_loop.simps) simp
  show ?case
  proof (cases "q ! (pos - i) = q ! (m - 1 - i)")
    case True
    then have "\<forall>t<i + 1. q ! (pos - t) = q ! (m - 1 - t)" using Suc.prems(2) by (auto simp: less_Suc_eq)
    moreover have "x = pos - (i + 1)" "i + 1 \<le> pos" using Suc.hyps(2) lt by simp_all
    ultimately show ?thesis using Suc.hyps(1) [of "i + 1"] unf True by simp
  next
    case False
    then show ?thesis using unf Suc.prems by auto
  qed
qed

lemma suffix_len_spec:
  assumes "query_ok q m cs" and "pos < m"
  obtains s where "suffix_len q m pos cs = Inr s" "s \<le> pos"
    "\<forall>t < s. q ! (pos - t) = q ! (m - 1 - t)" "s < pos \<longrightarrow> q ! (pos - s) \<noteq> q ! (m - 1 - s)"
  using suffix_len_loop_spec [OF assms, of 0] by (auto simp: suffix_len_def)

subsection \<open>The table of good suffixes\<close>

text \<open>\<open>good_shift q m i d\<close>: after a mismatch at index \<open>i\<close>, moving the query by \<open>d\<close> keeps the characters
  behind \<open>i\<close> matched and puts another character, or none, under the mismatch. Only such moves can lead
  to an occurrence. \<open>skip_ok\<close> is what an entry of the table guarantees: it moves the query
  forward, and no further than any such move.\<close>

definition good_shift :: "char list \<Rightarrow> nat \<Rightarrow> nat \<Rightarrow> nat \<Rightarrow> bool" where
  "good_shift q m i d \<longleftrightarrow> 0 < d \<and> (\<forall>k. i < k \<and> k < m \<and> d \<le> k \<longrightarrow> q ! (k - d) = q ! k) \<and>
     (d \<le> i \<longrightarrow> q ! (i - d) \<noteq> q ! i)"

text \<open>The second loop has seen the shifts \<open>d\<close> with \<open>m - 1 - d < j\<close>.\<close>

definition skip_ok :: "char list \<Rightarrow> nat \<Rightarrow> nat \<Rightarrow> nat \<Rightarrow> nat \<Rightarrow> bool" where
  "skip_ok q m j i v \<longleftrightarrow> m - i \<le> v \<and> v \<le> 2 * m \<and>
     (\<forall>d. i < d \<and> self_overlap q m d \<longrightarrow> v \<le> d + (m - 1 - i)) \<and>
     (\<forall>d. d \<le> i \<and> m - 1 - d < j \<and> good_shift q m i d \<longrightarrow> v \<le> d + (m - 1 - i))"

definition skips_ok :: "char list \<Rightarrow> nat \<Rightarrow> nat \<Rightarrow> nat option list \<Rightarrow> bool" where
  "skips_ok q m j sl \<longleftrightarrow> length sl = m \<and> (\<forall>i<m. \<exists>v. sl ! i = Some v \<and> skip_ok q m j i v)"

lemma self_overlap_ge: "m \<le> d \<Longrightarrow> self_overlap q m d"
  by (auto simp: self_overlap_def)

lemma find_skip_prefixes_spec:
  assumes "query_ok q m cs"
  shows "k \<le> m \<Longrightarrow> k \<le> lp \<Longrightarrow> lp \<le> m \<Longrightarrow> self_overlap q m lp \<Longrightarrow>
     (\<forall>d. k < d \<and> self_overlap q m d \<longrightarrow> lp \<le> d) \<Longrightarrow> length sl = m \<Longrightarrow>
     (\<forall>i. k \<le> i \<and> i < m \<longrightarrow> (\<exists>v. sl ! i = Some v \<and> skip_ok q m 0 i v)) \<Longrightarrow>
     \<exists>sl'. find_skip_prefixes q m cs k lp sl = Inr sl' \<and> skips_ok q m 0 sl'"
proof (induction k arbitrary: lp sl)
  case 0
  then show ?case by (simp add: skips_ok_def)
next
  case (Suc k)
  let ?lp = "if self_overlap q m (Suc k) then Suc k else lp"
  let ?v = "?lp + (m - Suc k)"
  have v: "szt_add ?lp (szt_sub m (Suc k)) = ?v"
    using Suc.prems(1,3) query_okD(3) [OF assms] by simp
  have least: "\<forall>d. k < d \<and> self_overlap q m d \<longrightarrow> ?lp \<le> d"
    using Suc.prems(5) by (metis Suc_leI le_neq_implies_less)
  have lp: "Suc k \<le> ?lp" "?lp \<le> m" "self_overlap q m ?lp" using Suc.prems(1-4) by auto
  then have ok: "skip_ok q m 0 k ?v"
    using least Suc.prems(1) by (auto simp: skip_ok_def)
  have "\<exists>sl'. find_skip_prefixes q m cs k ?lp (sl[k := Some ?v]) = Inr sl' \<and> skips_ok q m 0 sl'"
  proof (rule Suc.IH)
    show "\<forall>i. k \<le> i \<and> i < m \<longrightarrow>
        (\<exists>v. sl[k := Some ?v] ! i = Some v \<and> skip_ok q m 0 i v)"
      using ok Suc.prems(1,6,7)
        all_from_split [of k m "\<lambda>i. \<exists>v. sl[k := Some ?v] ! i = Some v \<and> skip_ok q m 0 i v"]
      by (simp add: nth_list_update)
  qed (use least lp Suc.prems in simp_all)
  then show ?case
    using is_prefix_spec [OF assms, of "Suc k"] v Suc.prems(1,6) by (simp add: Let_def)
qed

lemma skip_ok_step:
  assumes "skip_ok q m j i v" and "i < m" and "\<not> (m - 1 - j \<le> i \<and> good_shift q m i (m - 1 - j))"
  shows "skip_ok q m (Suc j) i v"
proof -
  have "v \<le> d + (m - 1 - i)" if d: "d \<le> i" "m - 1 - d < Suc j" "good_shift q m i d" for d
  proof (cases "m - 1 - d = j")
    case True
    then have "m - 1 - j = d" using d(1) assms(2) by linarith
    then show ?thesis using assms(3) d by blast
  next
    case False
    then show ?thesis using assms(1) d by (simp add: skip_ok_def)
  qed
  then show ?thesis using assms(1) by (simp add: skip_ok_def)
qed

text \<open>Iteration \<open>j\<close> of the second loop writes the entry of the one index for which \<open>m - 1 - j\<close> is a
  good shift.\<close>

text \<open>The longest suffix that comes back ending at \<open>j\<close> decides the one place for which the shift to \<open>j\<close> is good.\<close>

lemma suffix_shift_unique:
  assumes s: "\<forall>t < s. q ! (j - t) = q ! (m - 1 - t)" "s < j \<longrightarrow> q ! (j - s) \<noteq> q ! (m - 1 - s)" "s \<le> j" and j: "j < m"
    and i: "i < m" "m - 1 - j \<le> i" "good_shift q m i (m - 1 - j)"
  shows "i = m - 1 - s \<and> q ! (j - s) \<noteq> q ! (m - 1 - s)"
proof -
  let ?d = "m - 1 - j"
  have eq: "q ! (j - t) = q ! (m - 1 - t)" if "t < m - 1 - i" for t
  proof -
    have "i < m - 1 - t \<and> m - 1 - t < m \<and> ?d \<le> m - 1 - t" using that i(2) j by linarith
    then have "q ! ((m - 1 - t) - ?d) = q ! (m - 1 - t)" using i(3) unfolding good_shift_def by blast
    moreover have "(m - 1 - t) - ?d = j - t" using that i j by linarith
    ultimately show ?thesis by simp
  qed
  have "q ! (i - ?d) \<noteq> q ! i" using i(2,3) unfolding good_shift_def by blast
  moreover have "i - ?d = j - (m - 1 - i)" "i = m - 1 - (m - 1 - i)" "m - 1 - i \<le> j"
    using i j by linarith+
  ultimately have neq: "q ! (j - (m - 1 - i)) \<noteq> q ! (m - 1 - (m - 1 - i))" by metis
  have "s = m - 1 - i"
  proof (rule ccontr)
    assume "s \<noteq> m - 1 - i"
    then consider "s < m - 1 - i" | "m - 1 - i < s" by linarith
    then show False using eq [of s] s neq \<open>m - 1 - i \<le> j\<close> by cases auto
  qed
  then show ?thesis using neq i(1) by auto
qed

lemma find_skip_suffix_spec:
  assumes ok: "query_ok q m cs" and j: "j < m" and sl: "skips_ok q m j sl"
  shows "\<exists>sl'. find_skip_suffix q m cs j sl = Inr sl' \<and> skips_ok q m (Suc j) sl'"
proof -
  obtain s where s: "suffix_len q m j cs = Inr s" "s \<le> j"
    "\<forall>t < s. q ! (j - t) = q ! (m - 1 - t)" "s < j \<longrightarrow> q ! (j - s) \<noteq> q ! (m - 1 - s)"
    using ok j by (rule suffix_len_spec)
  let ?i = "m - 1 - s" and ?d = "m - 1 - j"
  note q = query_okD [OF ok]
  have len: "length sl = m" using sl by (simp add: skips_ok_def)
  have unf: "find_skip_suffix q m cs j sl =
      (if q ! (j - s) \<noteq> q ! ?i then Inr (sl[?i := Some (?d + s)]) else Inr sl)"
    using s(1,2) j q len by (simp add: find_skip_suffix_def)
  note uniq = suffix_shift_unique [OF s(3,4,2) j]
  have step: "skip_ok q m (Suc j) i v" if "skip_ok q m j i v" "i < m"
      "i \<noteq> ?i \<or> q ! (j - s) = q ! ?i" for i v
    using skip_ok_step [OF that(1,2)] uniq that(2,3) by blast
  show ?thesis
  proof (cases "q ! (j - s) = q ! ?i")
    case True
    then show ?thesis using unf sl step by (fastforce simp: skips_ok_def)
  next
    case False
    have "?d \<noteq> 0"
    proof
      assume "?d = 0"
      then have "j = m - 1" using j by simp
      then show False using False s(2,4) by (cases "s = j") auto
    qed
    then have "skip_ok q m (Suc j) ?i (?d + s)"
      using s(2) j by (auto simp: skip_ok_def)
    then have "skips_ok q m (Suc j) (sl[?i := Some (?d + s)])"
      using sl step len by (fastforce simp: skips_ok_def nth_list_update)
    then show ?thesis using unf False by simp
  qed
qed

lemma find_skip_suffixes_spec:
  assumes "query_ok q m cs" and "skips_ok q m 0 sl"
  shows "j \<le> m \<Longrightarrow> \<exists>sl'. foldE (find_skip_suffix q m cs) [0..<j] sl = Inr sl' \<and> skips_ok q m j sl'"
proof (induction j)
  case 0
  then show ?case using assms(2) by simp
next
  case (Suc j)
  then obtain sl1 where 1: "foldE (find_skip_suffix q m cs) [0..<j] sl = Inr sl1" "skips_ok q m j sl1"
    by auto
  have "j < m" using Suc.prems by simp
  from find_skip_suffix_spec [OF assms(1) this 1(2)] show ?case
    using 1(1) by (auto simp: foldE_append)
qed

lemma generate_find_skip_spec:
  assumes "query_ok q m cs"
  shows "\<exists>sl. generate_find_skip True q m cs = Inr sl \<and> skips_ok q m m sl"
proof -
  have len: "(m * 8) mod size_mod div 8 = m" using query_okD(3) [OF assms] by simp
  have "\<exists>sl. find_skip_prefixes q m cs m m (replicate m None) = Inr sl \<and> skips_ok q m 0 sl"
    using assms self_overlap_ge by (intro find_skip_prefixes_spec) auto
  then obtain sl where sl: "find_skip_prefixes q m cs m m (replicate m None) = Inr sl"
    "skips_ok q m 0 sl" by blast
  show ?thesis using find_skip_suffixes_spec [OF assms sl(2), of m] sl(1)
    by (simp add: generate_find_skip_def len)
qed

lemma skips_ok_final:
  assumes "skips_ok q m m sl" and "i < m"
  obtains v where "sl ! i = Some v" "m - i \<le> v" "v \<le> 2 * m"
    "\<And>d. good_shift q m i d \<Longrightarrow> v \<le> d + (m - 1 - i)"
proof -
  obtain v where v: "sl ! i = Some v" "skip_ok q m m i v" using assms by (auto simp: skips_ok_def)
  have "v \<le> d + (m - 1 - i)" if d: "good_shift q m i d" for d
  proof (cases "d \<le> i")
    case True
    moreover have "m - 1 - d < m" using assms(2) by linarith
    ultimately show ?thesis using v(2) d unfolding skip_ok_def by blast
  next
    case False
    then have "self_overlap q m d" using d by (auto simp: self_overlap_def good_shift_def)
    then show ?thesis using v(2) False by (simp add: skip_ok_def)
  qed
  then show ?thesis using v that by (simp add: skip_ok_def)
qed

subsection \<open>The table of bad characters\<close>

definition norm_of :: "bool \<Rightarrow> char \<Rightarrow> char" where
  "norm_of cs = (if cs then id else tolower)"

text \<open>An entry is at most the distance from the end of the query to any earlier place of the
  character, and at most the length of the query.\<close>

definition alpha_ok :: "char list \<Rightarrow> nat \<Rightarrow> bool \<Rightarrow> nat \<Rightarrow> nat list \<Rightarrow> bool" where
  "alpha_ok q m cs i t \<longleftrightarrow> length t = 256 \<and> (\<forall>c. t ! byte_of c \<le> m) \<and>
     (\<forall>c j. j < i \<and> norm_of cs c = q ! j \<longrightarrow> t ! byte_of c \<le> m - 1 - j)"

lemma byte_of_eq [simp]: "byte_of c = byte_of d \<longleftrightarrow> c = d"
  using byte_of_inj by blast

lemma alpha_ok_step:
  assumes "alpha_ok q m cs i t" and "i < m"
    and "length t' = 256" and "\<And>c. t' ! byte_of c = (if c \<in> C then m - 1 - i else t ! byte_of c)"
    and "\<And>c. norm_of cs c = q ! i \<Longrightarrow> c \<in> C"
  shows "alpha_ok q m cs (Suc i) t'"
  using assms unfolding alpha_ok_def less_Suc_eq
  by (auto intro: order_trans [OF diff_le_self])

lemma alpha_skip_loop_spec:
  assumes "query_ok q m cs"
  shows "i \<le> m - 1 \<Longrightarrow> alpha_ok q m cs i t \<Longrightarrow>
    \<exists>t'. alpha_skip_loop q (m - 1) cs i t = Inr t' \<and> alpha_ok q m cs (m - 1) t'"
proof (induction "m - 1 - i" arbitrary: i t)
  case 0
  then show ?case by (subst alpha_skip_loop.simps) auto
next
  case (Suc x)
  have i: "i < m - 1" "i < m" "i < length q" using Suc.hyps(2) query_okD(2) [OF assms] by simp_all
  have len: "length t = 256" using Suc.prems(2) by (simp add: alpha_ok_def)
  let ?v = "m - 1 - i" and ?c = "q ! i"
  let ?t = "if cs then t[byte_of ?c := ?v] else t[byte_of (tolower ?c) := ?v, byte_of (toupper ?c) := ?v]"
  let ?C = "if cs then {?c} else {tolower ?c, toupper ?c}"
  have unf: "alpha_skip_loop q (m - 1) cs i t = alpha_skip_loop q (m - 1) cs (i + 1) ?t"
    using i len query_okD(6) [OF assms] by (subst alpha_skip_loop.simps) auto
  have "alpha_ok q m cs (i + 1) ?t"
    unfolding Suc_eq_plus1 [symmetric]
  proof (rule alpha_ok_step [OF Suc.prems(2) i(2), where C = ?C])
    show "?t ! byte_of c = (if c \<in> ?C then ?v else t ! byte_of c)" for c
      using len by (auto simp: nth_list_update)
    show "c \<in> ?C" if "norm_of cs c = ?c" for c
      using that tolower_cases [of c ?c] query_okD(6) [OF assms] i(2) by (auto simp: norm_of_def)
  qed (simp add: len)
  moreover have "x = m - 1 - (i + 1)" "i + 1 \<le> m - 1" using Suc.hyps(2) by simp_all
  ultimately show ?case using Suc.hyps(1) unf by simp
qed

lemma generate_alpha_skip_spec:
  assumes "query_ok q m cs"
  shows "\<exists>t. generate_alpha_skip q m cs = Inr t \<and> alpha_ok q m cs (m - 1) t"
  using alpha_skip_loop_spec [OF assms, of 0 "replicate 256 m"] query_okD [OF assms]
  by (simp add: generate_alpha_skip_def alpha_ok_def)

section \<open>The search\<close>

definition bm_ok :: "posixc_boyermoore \<Rightarrow> char list \<Rightarrow> nat \<Rightarrow> bool \<Rightarrow> bool" where
  "bm_ok bm q m cs \<longleftrightarrow> query_ok q m cs \<and> query bm = q \<and> query_len bm = m \<and>
     case_sensitive bm = cs \<and> alpha_ok q m cs (m - 1) (alpha_skip_lookup bm) \<and>
     skips_ok q m m (find_skip_lookup bm)"

lemma bm_okD:
  assumes "bm_ok bm q m cs"
  shows "query_ok q m cs" "query bm = q" "query_len bm = m" "case_sensitive bm = cs"
    "alpha_ok q m cs (m - 1) (alpha_skip_lookup bm)" "skips_ok q m m (find_skip_lookup bm)"
  using assms by (simp_all add: bm_ok_def)

lemma posixc_boyermoore_init_ok:
  assumes "query_ok q m cs"
  shows "\<exists>bm. posixc_boyermoore_init True q m cs = Inr bm \<and> bm_ok bm q m cs"
proof -
  obtain t where "generate_alpha_skip q m cs = Inr t" "alpha_ok q m cs (m - 1) t"
    using generate_alpha_skip_spec [OF assms] by blast
  moreover obtain sl where "generate_find_skip True q m cs = Inr sl" "skips_ok q m m sl"
    using generate_find_skip_spec [OF assms] by blast
  ultimately show ?thesis using assms by (simp add: posixc_boyermoore_init_def bm_ok_def)
qed

text \<open>\<open>hit\<close>: the text's character under index \<open>t\<close> of the query placed at \<open>p\<close> is the query's.\<close>

abbreviation hit :: "bool \<Rightarrow> char list \<Rightarrow> char list \<Rightarrow> nat \<Rightarrow> nat \<Rightarrow> bool" where
  "hit cs text q p t \<equiv> norm_of cs (text ! (p + t)) = q ! t"

lemma match_loop_spec:
  assumes bm: "bm_ok bm q m cs" and p: "p + m \<le> length text" "length text < size_mod"
    and tx: "text_ok cs text (p + m)"
  shows "k \<le> m \<Longrightarrow> \<forall>t. k \<le> t \<and> t < m \<longrightarrow> hit cs text q p t \<Longrightarrow>
    (\<forall>t<m. hit cs text q p t) \<and>
      match_loop bm text (szt_sub (p + k) 1) (int k - 1) = Inr (szt_sub p 1, -1) \<or>
    (\<exists>i<m. \<not> hit cs text q p i \<and> (\<forall>t. i < t \<and> t < m \<longrightarrow> hit cs text q p t) \<and>
      match_loop bm text (szt_sub (p + k) 1) (int k - 1) = Inr (p + i, int i))"
proof (induction k)
  case 0
  then show ?case by (subst match_loop.simps) simp
next
  case (Suc k)
  note q = query_okD [OF bm_okD(1) [OF bm]]
  have pos: "szt_sub (p + Suc k) 1 = p + k" using Suc.prems(1) p by simp
  have cmp: "(if cs then Inr (text ! (p + k)) else c_tolower (text ! (p + k))) = Inr (norm_of cs (text ! (p + k)))"
    using tx Suc.prems(1) by (auto simp: norm_of_def text_ok_def)
  have unf: "match_loop bm text (szt_sub (p + Suc k) 1) (int (Suc k) - 1) =
     (if hit cs text q p k then match_loop bm text (szt_sub (p + k) 1) (int k - 1)
      else Inr (p + k, int k))"
    using Suc.prems(1) p q(2) bm_okD(2,4) [OF bm] cmp unfolding pos
    by (subst match_loop.simps) simp
  show ?case
  proof (cases "hit cs text q p k")
    case True
    then have "\<forall>t. k \<le> t \<and> t < m \<longrightarrow> hit cs text q p t"
      using all_from_split [of k m "hit cs text q p"] Suc.prems by simp
    with Suc.IH Suc.prems(1) True show ?thesis unfolding unf by simp
  next
    case False
    moreover have "k < m" using Suc.prems(1) by simp
    moreover have "\<forall>t. k < t \<and> t < m \<longrightarrow> hit cs text q p t" using Suc.prems(2) by (simp add: Suc_le_eq)
    ultimately show ?thesis unfolding unf by auto
  qed
qed

text \<open>Neither rule ever moves the query past an occurrence.\<close>

lemma skip_safe:
  assumes bm: "bm_ok bm q m cs" and i: "i < m" "\<not> hit cs text q p i"
    "\<forall>t. i < t \<and> t < m \<longrightarrow> hit cs text q p t"
    and f: "\<And>d. good_shift q m i d \<Longrightarrow> f \<le> d + (m - 1 - i)"
    and d: "0 < d" "occurs_at (norm_of cs) text n q m (p + d)"
  shows "posixc_max (alpha_skip_lookup bm ! byte_of (text ! (p + i))) f \<le> d + (m - 1 - i)"
proof -
  let ?c = "text ! (p + i)"
  have occ: "norm_of cs (text ! (p + k)) = q ! (k - d)" if "d \<le> k" "k < m" for k
  proof -
    have "k - d < m" using that by simp
    then have "norm_of cs (text ! (p + d + (k - d))) = q ! (k - d)"
      using d(2) unfolding occurs_at_def by blast
    then show ?thesis using that by (simp add: add.assoc)
  qed
  have "good_shift q m i d"
    using occ i d(1) unfolding good_shift_def by (metis le_less_trans order_less_imp_le)
  then have "f \<le> d + (m - 1 - i)" by (rule f)
  moreover have "alpha_skip_lookup bm ! byte_of ?c \<le> d + (m - 1 - i)"
  proof (cases "d \<le> i")
    case True
    then have "norm_of cs ?c = q ! (i - d)" "i - d < m - 1" using occ i d(1) by auto
    then have "alpha_skip_lookup bm ! byte_of ?c \<le> m - 1 - (i - d)"
      using bm_okD(5) [OF bm] unfolding alpha_ok_def by blast
    then show ?thesis using True i(1) by linarith
  next
    case False
    have "alpha_skip_lookup bm ! byte_of ?c \<le> m" using bm_okD(5) [OF bm] by (simp add: alpha_ok_def)
    then show ?thesis using False i(1) by linarith
  qed
  ultimately show ?thesis by (simp add: posixc_max_def)
qed

lemma search_round_spec:
  assumes bm: "bm_ok bm q m cs" and p: "p + m \<le> n" "n \<le> length text"
    and size: "length text + 2 * m < size_mod" and tx: "text_ok cs text n"
  shows "occurs_at (norm_of cs) text n q m p \<and> search_round bm text (p + m - 1) = Inr (Inl p) \<or>
    (\<exists>p'>p. search_round bm text (p + m - 1) = Inr (Inr (p' + m - 1)) \<and>
       (\<forall>x. p \<le> x \<and> x < p' \<longrightarrow> \<not> occurs_at (norm_of cs) text n q m x))"
proof -
  note q = query_okD [OF bm_okD(1) [OF bm]]
  let ?loop = "match_loop bm text (szt_sub (p + m) 1) (int m - 1)"
  have start: "szt_sub (p + m) 1 = p + m - 1" "to_ssize (szt_sub (query_len bm) 1) = int m - 1"
    using q p size bm_okD(3) [OF bm] by (auto simp: to_ssize_def)
  have round: "search_round bm text (p + m - 1) = bindE ?loop (\<lambda>(pos, i).
     if i < 0 then Inr (Inl (szt_add pos 1))
     else bindE (rd text pos) (\<lambda>c. bindE (rd (alpha_skip_lookup bm) (byte_of c)) (\<lambda>a.
          bindE (rd_init (find_skip_lookup bm) (nat i)) (\<lambda>f.
          Inr (Inr (szt_add pos (posixc_max a f)))))))"
    unfolding search_round_def start ..
  have len: "p + m \<le> length text" "length text < size_mod" using p size by simp_all
  have "\<forall>t. m \<le> t \<and> t < m \<longrightarrow> hit cs text q p t" by auto
  moreover have "text_ok cs text (p + m)" using tx p(1) by (auto simp: text_ok_def)
  ultimately consider
    (all) "\<forall>t<m. hit cs text q p t" "?loop = Inr (szt_sub p 1, -1)"
  | (some) i where "i < m" "\<not> hit cs text q p i" "\<forall>t. i < t \<and> t < m \<longrightarrow> hit cs text q p t"
      "?loop = Inr (p + i, int i)"
    using match_loop_spec [OF bm len _ order_refl] by blast
  then show ?thesis
  proof cases
    case all
    moreover have "szt_add (szt_sub p 1) 1 = p" using p size by (simp add: szt_sub_add_cancel size_mod_def)
    ultimately show ?thesis using p unfolding round by (simp add: occurs_at_def)
  next
    case some
    obtain f where f: "find_skip_lookup bm ! i = Some f" "m - i \<le> f" "f \<le> 2 * m"
      "\<And>d. good_shift q m i d \<Longrightarrow> f \<le> d + (m - 1 - i)"
      using skips_ok_final [OF bm_okD(6) [OF bm] some(1)] by blast
    let ?a = "alpha_skip_lookup bm ! byte_of (text ! (p + i))"
    let ?s = "posixc_max ?a f"
    have a: "?a \<le> m" "length (alpha_skip_lookup bm) = 256" "length (find_skip_lookup bm) = m"
      using bm_okD(5,6) [OF bm] by (simp_all add: alpha_ok_def skips_ok_def)
    have s: "m - i \<le> ?s" "?s \<le> 2 * m" using a(1) f(2,3) by (auto simp: posixc_max_def)
    define p' where "p' = p + i + ?s + 1 - m"
    have p': "p < p'" "p + i + ?s = p' + m - 1" using s(1) some(1) by (auto simp: p'_def)
    have "search_round bm text (p + m - 1) = Inr (Inr (p' + m - 1))"
      using some(1,4) a f(1) s(2) p size unfolding round p'(2) [symmetric]
      by (simp add: rd_init_def)
    moreover have "\<not> occurs_at (norm_of cs) text n q m x" if x: "p \<le> x" "x < p'" for x
    proof
      assume occ: "occurs_at (norm_of cs) text n q m x"
      have "x \<noteq> p" using occ some(1,2) by (auto simp: occurs_at_def)
      then have "occurs_at (norm_of cs) text n q m (p + (x - p))" "0 < x - p" using occ x(1) by simp_all
      then have "?s \<le> (x - p) + (m - 1 - i)" using skip_safe [OF bm some(1,2,3) f(4)] by blast
      then show False using x some(1) unfolding p'_def by linarith
    qed
    ultimately show ?thesis using p'(1) by blast
  qed
qed

lemma search_loop_spec:
  assumes bm: "bm_ok bm q m cs" and n: "n \<le> length text" and size: "length text + 2 * m < size_mod"
    and tx: "text_ok cs text n"
  shows "\<forall>x<p. \<not> occurs_at (norm_of cs) text n q m x \<Longrightarrow>
    search_loop bm text n (p + m - 1) = Some (Inr (first_occurrence (norm_of cs) text n q m))"
proof (induction "n - p" arbitrary: p rule: less_induct)
  case less
  have m: "0 < m" using query_okD(1) [OF bm_okD(1) [OF bm]] .
  show ?case
  proof (cases "p + m \<le> n")
    case False
    then have "\<forall>x. \<not> occurs_at (norm_of cs) text n q m x"
      using less.prems by (auto simp: occurs_at_def not_less)
    then have "first_occurrence (norm_of cs) text n q m = None"
      by (simp add: first_occurrence_None)
    moreover have "\<not> p + m - 1 < n" using False m by linarith
    ultimately show ?thesis by (subst search_loop.simps) simp
  next
    case True
    from search_round_spec [OF bm True n size tx] consider
      (found) "occurs_at (norm_of cs) text n q m p" "search_round bm text (p + m - 1) = Inr (Inl p)"
    | (skip) p' where "p < p'" "search_round bm text (p + m - 1) = Inr (Inr (p' + m - 1))"
        "\<forall>x. p \<le> x \<and> x < p' \<longrightarrow> \<not> occurs_at (norm_of cs) text n q m x" by blast
    then show ?thesis
    proof cases
      case found
      then have "first_occurrence (norm_of cs) text n q m = Some p"
        using less.prems by (simp add: first_occurrence_Some)
      then show ?thesis using found(2) True m by (simp add: search_loop.simps)
    next
      case skip
      have "\<forall>x<p'. \<not> occurs_at (norm_of cs) text n q m x"
        using less.prems skip(3) by (meson not_le)
      moreover have "n - p' < n - p" using skip(1) True m by linarith
      ultimately have "search_loop bm text n (p' + m - 1) =
          Some (Inr (first_occurrence (norm_of cs) text n q m))" by (rule_tac less.hyps)
      moreover have "p + m - 1 < n" using True m by linarith
      ultimately show ?thesis using skip(2) by (subst search_loop.simps) simp
    qed
  qed
qed

lemma search_in_spec:
  assumes "bm_ok bm q m cs" and "n \<le> length text" and "length text + 2 * m < size_mod"
    and "text_ok cs text n"
  shows "posixc_boyermoore_search_in bm text n =
    Some (Inr (first_occurrence (norm_of cs) text n q m))"
  using search_loop_spec [OF assms, of 0] query_okD [OF bm_okD(1) [OF assms(1)]] bm_okD(3) [OF assms(1)]
  by (simp add: posixc_boyermoore_search_in_def)

interpretation bm: substring_search "posixc_boyermoore_contains True" id
  "\<lambda>text n q m. query_ok q m True \<and> n \<le> length text \<and> length text + 2 * m < size_mod"
proof
  fix "text" q :: "char list" and n m :: nat
  assume "query_ok q m True \<and> n \<le> length text \<and> length text + 2 * m < size_mod"
  moreover then obtain bm where "posixc_boyermoore_init True q m True = Inr bm" "bm_ok bm q m True"
    using posixc_boyermoore_init_ok by blast
  ultimately show "posixc_boyermoore_contains True text n q m =
      Some (Inr (first_occurrence id text n q m))"
    using search_in_spec by (simp add: posixc_boyermoore_contains_def norm_of_def text_ok_def)
qed

interpretation bmi: substring_search "posixc_boyermoore_contains_case_ignored True" tolower
  "\<lambda>text n q m. query_ok q m False \<and> n \<le> length text \<and> length text + 2 * m < size_mod \<and> text_ok False text n"
proof
  fix "text" q :: "char list" and n m :: nat
  assume "query_ok q m False \<and> n \<le> length text \<and> length text + 2 * m < size_mod \<and> text_ok False text n"
  moreover then obtain bm where "posixc_boyermoore_init True q m False = Inr bm" "bm_ok bm q m False"
    using posixc_boyermoore_init_ok by blast
  ultimately show "posixc_boyermoore_contains_case_ignored True text n q m =
      Some (Inr (first_occurrence tolower text n q m))"
    using search_in_spec by (simp add: posixc_boyermoore_contains_case_ignored_def norm_of_def)
qed

text \<open>Without memory for the table of good suffixes, the first store goes through a null pointer.\<close>

lemma init_no_memory:
  assumes "query_ok q m cs"
  shows "posixc_boyermoore_init False q m cs = Inl Bad_Pointer"
  using generate_alpha_skip_spec [OF assms] query_okD(1) [OF assms]
  by (auto simp: posixc_boyermoore_init_def generate_find_skip_def)

section \<open>Properties\<close>

text \<open>C9: for every non-empty query whose table \<open>malloc\<close> has memory for, \<open>posixc_boyermoore_contains\<close> ends,
  reads and writes only inside its arrays, and returns the first occurrence of the query in the
  text, or \<open>NULL\<close> when there is none. When \<open>malloc\<close> fails, which the code does not test, it stores through the
  null pointer. (The query and the text are objects in memory: text and twice the query together have
  less than \<open>2 ^ 64\<close> bytes, and eight times the length of the query does not wrap.)\<close>

theorem boyermoore_contains_correct:
  assumes "0 < m" "m \<le> length q" "m * 8 < size_mod" "n \<le> length text"
    "length text + 2 * m < size_mod"
  shows "posixc_boyermoore_contains malloc_ok text n q m =
    Some (if malloc_ok then Inr (first_occurrence id text n q m) else Inl Bad_Pointer)"
proof -
  have "query_ok q m True" using assms(1-3) by (simp add: query_ok_def)
  then show ?thesis using bm.first [of q m n "text"] init_no_memory [of q m True] assms(4,5)
    by (cases malloc_ok) (simp_all add: posixc_boyermoore_contains_def)
qed

theorem boyermoore_contains_correct_witness:
  "posixc_boyermoore_contains True ''abracadabra'' 11 ''ada'' 3 = Some (Inr (Some 5)) \<and>
   posixc_boyermoore_contains False ''abracadabra'' 11 ''ada'' 3 = Some (Inl Bad_Pointer)"
proof -
  have "first_occurrence id ''abracadabra'' 11 ''ada'' 3 = Some 5"
    by (simp add: first_occurrence_Some occurs_at_def) code_simp
  then show ?thesis using boyermoore_contains_correct [of 3 "''ada''" 11 "''abracadabra''"]
    by (simp add: size_mod_def)
qed

text \<open>C28: for a non-empty query without capitals, \<open>posixc_boyermoore_contains_case_ignored\<close> ends without a
  memory error and returns the first place where the text, in lower case, is the query, when
  \<open>malloc\<close> has memory for the table and the bytes of query and text are arguments that C defines
  \<open>tolower\<close> for: those below \<open>0x80\<close>, and \<open>0xFF\<close>. When \<open>malloc\<close> fails it stores through the null pointer.
  (Query and text fit in memory together, as for the search with case.)\<close>

theorem boyermoore_case_ignored_correct:
  assumes "0 < m" "m \<le> length q" "m * 8 < size_mod" "n \<le> length text"
    "length text + 2 * m < size_mod" "\<forall>k<m. ctype_ok (q ! k) \<and> tolower (q ! k) = q ! k"
    "\<forall>k<n. ctype_ok (text ! k)"
  shows "posixc_boyermoore_contains_case_ignored malloc_ok text n q m =
    Some (if malloc_ok then Inr (first_occurrence tolower text n q m) else Inl Bad_Pointer)"
proof -
  have "query_ok q m False" "text_ok False text n" using assms(1-3,6,7) by (simp_all add: query_ok_def text_ok_def)
  then show ?thesis using bmi.first [of q m n "text"] init_no_memory [of q m False] assms(4,5)
    by (cases malloc_ok) (simp_all add: posixc_boyermoore_contains_case_ignored_def)
qed

theorem boyermoore_case_ignored_correct_witness:
  "posixc_boyermoore_contains_case_ignored True ''My PosixC'' 9 ''posix'' 5 = Some (Inr (Some 3))"
proof -
  have "first_occurrence tolower ''My PosixC'' 9 ''posix'' 5 = Some 3"
    by (simp add: first_occurrence_Some occurs_at_def) code_simp
  moreover have "\<forall>k<5. ctype_ok (''posix'' ! k) \<and> tolower (''posix'' ! k) = ''posix'' ! k" by code_simp
  moreover have "\<forall>k<9. ctype_ok (''My PosixC'' ! k)" by code_simp
  ultimately show ?thesis
    using boyermoore_case_ignored_correct [of 5 "''posix''" 9 "''My PosixC''"]
    by (simp add: size_mod_def)
qed

text \<open>A byte from \<open>0x80\<close> on in the text, such as those of a character outside ASCII in UTF-8, is a negative
  \<open>char\<close>, and the call of \<open>tolower\<close> on it is undefined. The case-sensitive search has no such call.\<close>

lemma boyermoore_case_ignored_negative_char:
  assumes "query_ok q m False" "m \<le> n" "n \<le> length text" "length text < size_mod" "\<not> ctype_ok (text ! (m - 1))"
  shows "posixc_boyermoore_contains_case_ignored True text n q m = Some (Inl Bad_Argument)"
proof -
  obtain bm where bm: "posixc_boyermoore_init True q m False = Inr bm" "bm_ok bm q m False"
    using posixc_boyermoore_init_ok [OF assms(1)] by blast
  note q = query_okD [OF assms(1)] and b = bm_okD [OF bm(2)]
  have "match_loop bm text (m - 1) (int m - 1) = Inl Bad_Argument"
    using q(1) assms(2,3,5) b(4) by (subst match_loop.simps) simp
  moreover have "to_ssize (m - 1) = int m - 1" using q(1,5) by (simp add: to_ssize_def of_nat_diff)
  ultimately have "search_loop bm text n (m - 1) = Some (Inl Bad_Argument)"
    using q(1,4) assms(2) b(3) by (subst search_loop.simps) (simp add: search_round_def)
  then show ?thesis using bm(1) b(3) q(1,4)
    by (simp add: posixc_boyermoore_contains_case_ignored_def posixc_boyermoore_search_in_def)
qed

lemma boyermoore_case_ignored_negative_char_example:
  "posixc_boyermoore_contains_case_ignored True [CHR 0xC3, CHR 0xA9] 2 ''e'' 1 = Some (Inl Bad_Argument)"
proof (rule boyermoore_case_ignored_negative_char)
  have "ctype_ok CHR ''e'' \<and> tolower CHR ''e'' = CHR ''e''" by code_simp
  then show "query_ok ''e'' 1 False" by (simp add: query_ok_def size_mod_def)
qed (simp_all add: size_mod_def ctype_ok_def byte_of_def)

text \<open>A capital in the query of a search that ignores case hides every match, since only the text
  is put into lower case: the query is not found in itself.\<close>

lemma boyermoore_case_ignored_capital:
  "posixc_boyermoore_contains_case_ignored True ''A'' 1 ''A'' 1 = Some (Inr None)"
proof -
  let ?bm = "\<lparr>alpha_skip_lookup = replicate 256 1, find_skip_lookup = [Some 1],
      case_sensitive = False, query = ''A'', query_len = 1\<rparr>"
  have "posixc_boyermoore_init True ''A'' 1 False = Inr ?bm"
    by (simp add: posixc_boyermoore_init_def generate_alpha_skip_def alpha_skip_loop.simps
        generate_find_skip_def is_prefix_def is_prefix_loop.simps find_skip_suffix_def
        suffix_len_def suffix_len_loop.simps size_mod_def)
  moreover have "c_tolower CHR ''A'' = Inr CHR ''a''" by code_simp
  then have "match_loop ?bm ''A'' 0 0 = Inr (0, 0)" by (subst match_loop.simps) simp
  then have "search_round ?bm ''A'' 0 = Inr (Inr 1)"
    by (simp add: search_round_def to_ssize_def rd_init_def posixc_max_def size_mod_def)
  then have "search_loop ?bm ''A'' 1 0 = Some (Inr None)"
    by (simp add: search_loop.simps [of _ _ _ 0] search_loop.simps [of _ _ _ "Suc 0"])
  ultimately show ?thesis
    by (simp add: posixc_boyermoore_contains_case_ignored_def posixc_boyermoore_search_in_def
        size_mod_def)
qed

lemma alpha_skip_loop_overrun:
  "length q < k \<Longrightarrow> i \<le> length q \<Longrightarrow> length t = 256 \<Longrightarrow> alpha_skip_loop q k True i t = Inl Out_Of_Bounds"
proof (induction "length q - i" arbitrary: i t)
  case 0
  then show ?case by (subst alpha_skip_loop.simps) simp
next
  case (Suc x)
  then have i: "i < length q" "i + 1 \<le> length q" "x = length q - (i + 1)" by simp_all
  have "alpha_skip_loop q k True (i + 1) t' = Inl Out_Of_Bounds" if "length t' = 256" for t'
    using Suc.hyps(1) [OF i(3) Suc.prems(1) i(2) that] .
  then show ?case using i(1) Suc.prems by (subst alpha_skip_loop.simps) simp
qed

text \<open>An empty query is an error: \<open>query_len - 1\<close> wraps to \<open>SIZE_MAX\<close> and the first table is
  built from bytes behind the query's end.\<close>

lemma boyermoore_empty_query:
  assumes "length q < size_mod - 1"
  shows "posixc_boyermoore_contains malloc_ok text n q 0 = Some (Inl Out_Of_Bounds)"
  using assms alpha_skip_loop_overrun [of q "size_mod - 1" 0 "replicate 256 0"]
  by (simp add: posixc_boyermoore_contains_def posixc_boyermoore_init_def generate_alpha_skip_def
      szt_sub_0_1 [unfolded One_nat_def])

lemma boyermoore_empty_query_witness:
  "posixc_boyermoore_contains True ''text'' 4 [] 0 = Some (Inl Out_Of_Bounds)"
  by (rule boyermoore_empty_query) (simp add: size_mod_def)

end
