(* ===== verification/Kmp.thy ===== *)
theory Kmp
  imports Occurrence
begin

text \<open>
  The Knuth-Morris-Pratt search of \<open>src/common/kmp.c\<close>. The failure table is a variable-length array
  of the caller, so its entries are indeterminate until they are written. The two fallback loops are
  partial functions: \<open>None\<close> is a loop that never ends.

  The table builder is shown to end and to compute the longest proper border of every prefix. The
  search reads the table at \<open>P[j+1]\<close> where the table holds the fallback for \<open>j\<close> matched characters at
  \<open>P[j-1]\<close>; the theorems at the end say for which inputs the search is right all the same, and show
  the inputs where it is not: it can miss an occurrence, report a wrong one, read outside the table,
  or run forever.
\<close>

section \<open>The routines\<close>

record kmp_prefix =
  kmp_P :: "nat option list"
  kmp_len :: nat
  kmp_str :: "char list"

text \<open>\<open>while (j > 0 && str[i] != str[j]) j = P[j-1];\<close>, with \<open>c\<close> for \<open>str[i]\<close>\<close>

partial_function (option) failure_while ::
    "char \<Rightarrow> char list \<Rightarrow> nat option list \<Rightarrow> nat \<Rightarrow> nat run" where
  "failure_while c s Pt j =
     (if j > 0 then
        (case rd s j of Inl e \<Rightarrow> Some (Inl e)
         | Inr d \<Rightarrow> if c \<noteq> d
                    then (case rd_init Pt (j - 1) of Inl e \<Rightarrow> Some (Inl e)
                          | Inr j' \<Rightarrow> failure_while c s Pt j')
                    else Some (Inr j))
      else Some (Inr j))"

text \<open>\<open>for (; i < len; i++)\<close>\<close>

function failure_for ::
    "char list \<Rightarrow> nat \<Rightarrow> nat \<Rightarrow> nat \<Rightarrow> nat option list \<Rightarrow> nat option list run" where
  "failure_for s n i j Pt =
     (if i < n then
        bindR (Some (rd s i)) (\<lambda>c.
        bindR (failure_while c s Pt j) (\<lambda>j.
        bindR (Some (rd s j)) (\<lambda>d.
        let j' = (if c = d then j + 1 else j) in
        bindR (Some (wr Pt i (Some j'))) (\<lambda>Pt.
        failure_for s n (i + 1) j' Pt))))
      else Some (Inr Pt))"
  by pat_completeness auto
termination
  by (relation "measure (\<lambda>(s, n, i, j, Pt). n - i)") auto

declare failure_for.simps [simp del] failure_while.simps [code]

definition kmp_failure :: "char list \<Rightarrow> nat \<Rightarrow> kmp_prefix \<Rightarrow> kmp_prefix run" where
  "kmp_failure s n prefix =
     bindR (Some (wr (kmp_P prefix) 0 (Some 0))) (\<lambda>Pt.
     bindR (Some (wr Pt 1 (Some 0))) (\<lambda>Pt.
     bindR (failure_for s n 1 0 Pt) (\<lambda>Pt.
     Some (Inr (prefix\<lparr>kmp_P := Pt\<rparr>)))))"

text \<open>\<open>while (j > 0 && text[i] != needle[j]) j = P[j+1];\<close>\<close>

partial_function (option) search_while ::
    "char \<Rightarrow> char list \<Rightarrow> nat option list \<Rightarrow> nat \<Rightarrow> nat run" where
  "search_while c needle Pt j =
     (if j > 0 then
        (case rd needle j of Inl e \<Rightarrow> Some (Inl e)
         | Inr d \<Rightarrow> if c \<noteq> d
                    then (case rd_init Pt (j + 1) of Inl e \<Rightarrow> Some (Inl e)
                          | Inr j' \<Rightarrow> search_while c needle Pt j')
                    else Some (Inr j))
      else Some (Inr j))"

function search_for ::
    "char list \<Rightarrow> nat \<Rightarrow> kmp_prefix \<Rightarrow> nat \<Rightarrow> nat \<Rightarrow> int run" where
  "search_for text text_len prefix i j =
     (if i < text_len then
        bindR (Some (rd text i)) (\<lambda>c.
        bindR (search_while c (kmp_str prefix) (kmp_P prefix) j) (\<lambda>j.
        bindR (Some (rd (kmp_str prefix) j)) (\<lambda>d.
        let j' = (if d = c then j + 1 else j) in
        if j' = kmp_len prefix
        then Some (Inr (to_int32 (int (szt_add (szt_sub i (kmp_len prefix)) 1))))
        else search_for text text_len prefix (i + 1) j')))
      else Some (Inr (-1)))"
  by pat_completeness auto
termination
  by (relation "measure (\<lambda>(text, text_len, prefix, i, j). text_len - i)") auto

declare search_for.simps [simp del] search_while.simps [code]

definition kmp_prefix_search :: "char list \<Rightarrow> nat \<Rightarrow> kmp_prefix \<Rightarrow> int run" where
  "kmp_prefix_search text text_len prefix = search_for text text_len prefix 0 0"

text \<open>The result is the offset of the returned pointer in the text, or \<open>None\<close> for \<open>NULL\<close>.\<close>

definition posixc_kmp_contains ::
    "char list \<Rightarrow> nat \<Rightarrow> char list \<Rightarrow> nat \<Rightarrow> int option run" where
  "posixc_kmp_contains text text_len needle needle_len =
     bindR (kmp_failure needle needle_len
              \<lparr>kmp_P = replicate needle_len None, kmp_len = needle_len, kmp_str = needle\<rparr>) (\<lambda>prefix.
     bindR (kmp_prefix_search text text_len prefix) (\<lambda>rv.
     if rv = -1 then Some (Inr None) else Some (Inr (Some rv))))"

section \<open>Borders\<close>

text \<open>\<open>border s n b\<close>: the first \<open>b\<close> of the first \<open>n\<close> characters are also the last \<open>b\<close> of them.\<close>

definition border :: "char list \<Rightarrow> nat \<Rightarrow> nat \<Rightarrow> bool" where
  "border s n b \<longleftrightarrow> b \<le> n \<and> (\<forall>k<b. s ! k = s ! (n - b + k))"

definition longest_border :: "char list \<Rightarrow> nat \<Rightarrow> nat \<Rightarrow> bool" where
  "longest_border s n b \<longleftrightarrow> b < n \<and> border s n b \<and> (\<forall>c<n. border s n c \<longrightarrow> c \<le> b)"

lemma border_0 [simp]: "border s n 0"
  by (simp add: border_def)

lemma border_trans: "border s n b \<Longrightarrow> border s b c \<Longrightarrow> border s n c"
  unfolding border_def
proof (intro conjI allI impI, linarith)
  fix k
  assume nb: "b \<le> n \<and> (\<forall>k<b. s ! k = s ! (n - b + k))" and bc: "c \<le> b \<and> (\<forall>k<c. s ! k = s ! (b - c + k))"
    and k: "k < c"
  have "s ! k = s ! (b - c + k)" using bc k by blast
  also have "b - c + k < b" using bc k by linarith
  then have "s ! (b - c + k) = s ! (n - b + (b - c + k))" using nb by blast
  also have "n - b + (b - c + k) = n - c + k" using nb bc by simp
  finally show "s ! k = s ! (n - c + k)" .
qed

lemma border_restrict: "border s n b \<Longrightarrow> border s n c \<Longrightarrow> c \<le> b \<Longrightarrow> border s b c"
  unfolding border_def
proof (intro conjI allI impI)
  fix k
  assume nb: "b \<le> n \<and> (\<forall>k<b. s ! k = s ! (n - b + k))" and nc: "c \<le> n \<and> (\<forall>k<c. s ! k = s ! (n - c + k))"
    and k: "k < c" and cb: "c \<le> b"
  have "b - c + k < b" using cb k by linarith
  then have "s ! (b - c + k) = s ! (n - b + (b - c + k))" using nb by blast
  also have "n - b + (b - c + k) = n - c + k" using nb cb by simp
  also have "s ! (n - c + k) = s ! k" using nc k by simp
  finally show "s ! k = s ! (b - c + k)" by simp
qed

lemma border_Suc: "border s (Suc n) (Suc b) \<longleftrightarrow> border s n b \<and> s ! b = s ! n"
  by (auto simp: border_def less_Suc_eq)

text \<open>The fallback keeps every candidate: a border of \<open>i + 1\<close> characters that is shorter than \<open>j + 1\<close>
  extends a border of the first \<open>j\<close> characters.\<close>

definition candidates_below :: "char list \<Rightarrow> nat \<Rightarrow> nat \<Rightarrow> bool" where
  "candidates_below s i j \<longleftrightarrow> (\<forall>c<i. border s (Suc i) (Suc c) \<longrightarrow> c \<le> j)"

lemma candidates_fallback:
  assumes "candidates_below s i j" "border s i j" "s ! i \<noteq> s ! j" "longest_border s j j'"
  shows "candidates_below s i j'"
  unfolding candidates_below_def
proof (intro allI impI)
  fix c
  assume c: "c < i" "border s (Suc i) (Suc c)"
  then have "c \<le> j" "border s i c" "s ! c = s ! i"
    using assms(1) by (auto simp: candidates_below_def border_Suc)
  moreover from this have "c \<noteq> j" using assms(3) by auto
  ultimately have "c < j" "border s j c" using border_restrict [OF assms(2)] by auto
  then show "c \<le> j'" using assms(4) by (simp add: longest_border_def)
qed

lemma candidates_next: "longest_border s i j \<Longrightarrow> candidates_below s i j"
  by (auto simp: longest_border_def candidates_below_def border_Suc)

lemma longest_border_extend:
  assumes "candidates_below s i j" "border s i j" "j < i" "s ! i = s ! j"
  shows "longest_border s (Suc i) (Suc j)"
  unfolding longest_border_def
proof (intro conjI allI impI)
  show "border s (Suc i) (Suc j)" using assms by (simp add: border_Suc)
  fix c
  assume "c < Suc i" "border s (Suc i) c"
  then show "c \<le> Suc j" using assms(1) by (cases c) (auto simp: candidates_below_def)
qed (use assms(3) in simp)

lemma longest_border_none:
  assumes "candidates_below s i 0" "0 < i" "s ! i \<noteq> s ! 0"
  shows "longest_border s (Suc i) 0"
  unfolding longest_border_def
proof (intro conjI allI impI)
  fix c
  assume "c < Suc i" "border s (Suc i) c"
  then show "c \<le> 0" using assms by (cases c) (auto simp: candidates_below_def border_Suc)
qed simp_all

section \<open>The table\<close>

definition table_ok :: "char list \<Rightarrow> nat \<Rightarrow> nat option list \<Rightarrow> bool" where
  "table_ok s n Pt \<longleftrightarrow> n \<le> length Pt \<and> (\<forall>k<n. \<exists>b. Pt ! k = Some b \<and> longest_border s (Suc k) b)"

lemma table_okD: "table_ok s n Pt \<Longrightarrow> 0 < j \<Longrightarrow> j \<le> n \<Longrightarrow>
    \<exists>b. rd_init Pt (j - 1) = Inr b \<and> longest_border s j b"
proof -
  assume t: "table_ok s n Pt" and j: "0 < j" "j \<le> n"
  have "j - 1 < n" "Suc (j - 1) = j" using j by simp_all
  then obtain b where "Pt ! (j - 1) = Some b" "longest_border s j b"
    using t unfolding table_ok_def by metis
  then show ?thesis using t j by (auto simp: table_ok_def)
qed

lemma failure_while_spec:
  assumes "table_ok s i Pt" "i < length s"
  shows "j < i \<Longrightarrow> border s i j \<Longrightarrow> candidates_below s i j \<Longrightarrow>
    \<exists>j'. failure_while (s ! i) s Pt j = Some (Inr j') \<and> j' < i \<and> border s i j' \<and>
         candidates_below s i j' \<and> (j' = 0 \<or> s ! i = s ! j')"
proof (induction j rule: less_induct)
  case (less j)
  show ?case
  proof (cases "0 < j \<and> s ! i \<noteq> s ! j")
    case False
    then show ?thesis using less.prems assms(2) by (subst failure_while.simps) auto
  next
    case True
    obtain b where b: "rd_init Pt (j - 1) = Inr b" "longest_border s j b"
      using table_okD [OF assms(1)] True less.prems(1) by (meson order_less_imp_le)
    have "b < j" "border s i b" using b(2) less.prems(2) border_trans
      by (auto simp: longest_border_def)
    moreover have "candidates_below s i b"
      using candidates_fallback less.prems(2,3) True b(2) by blast
    ultimately have "\<exists>j'. failure_while (s ! i) s Pt b = Some (Inr j') \<and> j' < i \<and> border s i j' \<and>
         candidates_below s i j' \<and> (j' = 0 \<or> s ! i = s ! j')"
      using less.IH less.prems(1) by simp
    moreover have "failure_while (s ! i) s Pt j = failure_while (s ! i) s Pt b"
      using True b(1) less.prems(1) assms(2) by (subst failure_while.simps) auto
    ultimately show ?thesis by simp
  qed
qed

lemma failure_for_spec:
  assumes "n \<le> length s"
  shows "0 < i \<Longrightarrow> i \<le> n \<Longrightarrow> length Pt = n \<Longrightarrow> table_ok s i Pt \<Longrightarrow> longest_border s i j \<Longrightarrow>
    \<exists>Pt'. failure_for s n i j Pt = Some (Inr Pt') \<and> length Pt' = n \<and> table_ok s n Pt'"
proof (induction "n - i" arbitrary: i j Pt)
  case 0
  then show ?case by (subst failure_for.simps) simp
next
  case (Suc x)
  have i: "i < n" "i < length s" using Suc.hyps(2) assms by simp_all
  have lb: "j < i" "border s i j" "candidates_below s i j"
    using Suc.prems(5) candidates_next by (auto simp: longest_border_def)
  obtain j1 where j1: "failure_while (s ! i) s Pt j = Some (Inr j1)" "j1 < i" "border s i j1"
    "candidates_below s i j1" "j1 = 0 \<or> s ! i = s ! j1"
    using failure_while_spec [OF Suc.prems(4) i(2) lb] by blast
  let ?j = "if s ! i = s ! j1 then j1 + 1 else j1"
  have new: "longest_border s (Suc i) ?j"
    using longest_border_extend [of s i j1] longest_border_none [of s i] j1 Suc.prems(1) by auto
  have "table_ok s (i + 1) (Pt[i := Some ?j])"
    using Suc.prems(3,4) new i(1) by (auto simp: table_ok_def less_Suc_eq nth_list_update)
  then have "\<exists>Pt'. failure_for s n (i + 1) ?j (Pt[i := Some ?j]) = Some (Inr Pt') \<and>
      length Pt' = n \<and> table_ok s n Pt'"
    using Suc.hyps(1) [of "i + 1" "Pt[i := Some ?j]" ?j] Suc.hyps(2) Suc.prems(3) i(1) new by simp
  moreover have "failure_for s n i j Pt = failure_for s n (i + 1) ?j (Pt[i := Some ?j])"
    using i j1(1,2) Suc.prems(3) by (subst failure_for.simps) (simp add: Let_def)
  ultimately show ?case by simp
qed

lemma kmp_failure_spec:
  assumes "2 \<le> n" "n \<le> length s" "length (kmp_P prefix) = n"
  shows "\<exists>Pt. kmp_failure s n prefix = Some (Inr (prefix\<lparr>kmp_P := Pt\<rparr>)) \<and> length Pt = n \<and> table_ok s n Pt"
proof -
  let ?Pt = "(kmp_P prefix)[0 := Some 0, 1 := Some 0]"
  have lb: "longest_border s 1 0" by (auto simp: longest_border_def)
  have "table_ok s 1 ?Pt" using assms lb by (auto simp: table_ok_def nth_list_update)
  moreover have "\<exists>Pt. failure_for s n 1 0 ?Pt = Some (Inr Pt) \<and> length Pt = n \<and> table_ok s n Pt"
    if "table_ok s 1 ?Pt"
    using failure_for_spec [OF assms(2), of 1 ?Pt 0] assms lb that by simp
  ultimately show ?thesis using assms by (auto simp: kmp_failure_def)
qed

text \<open>A needle whose first character does not come back has no borders, so its table is zero.\<close>

lemma unique_first_table:
  assumes "table_ok s n Pt" "\<forall>k. 0 < k \<and> k < n \<longrightarrow> s ! k \<noteq> s ! 0" "k < n"
  shows "Pt ! k = Some 0"
proof -
  obtain b where b: "Pt ! k = Some b" "longest_border s (Suc k) b"
    using assms(1,3) by (auto simp: table_ok_def)
  have "b = 0"
  proof (rule ccontr)
    assume "b \<noteq> 0"
    then have "s ! 0 = s ! (Suc k - b + 0)" "0 < Suc k - b" "Suc k - b < n"
      using b(2) assms(3) by (auto simp: longest_border_def border_def)
    then show False using assms(2) by (metis add_0_right)
  qed
  then show ?thesis using b(1) by simp
qed

section \<open>The search\<close>

lemma search_while_0 [simp]: "search_while c s Pt 0 = Some (Inr 0)"
  by (simp add: search_while.simps)

lemma search_while_match:
  "j < length s \<Longrightarrow> c = s ! j \<Longrightarrow> search_while c s Pt j = Some (Inr j)"
  by (subst search_while.simps) simp

lemma search_while_zero:
  "0 < j \<Longrightarrow> j < length s \<Longrightarrow> c \<noteq> s ! j \<Longrightarrow> j + 1 < length Pt \<Longrightarrow> Pt ! (j + 1) = Some 0 \<Longrightarrow>
   search_while c s Pt j = Some (Inr 0)"
  by (subst search_while.simps) simp

text \<open>\<open>search_state\<close>: the invariant of the search, with \<open>j\<close> characters matched before \<open>i\<close> and no
  occurrence starting before them.\<close>

definition search_state :: "char list \<Rightarrow> nat \<Rightarrow> char list \<Rightarrow> nat \<Rightarrow> nat \<Rightarrow> nat \<Rightarrow> bool" where
  "search_state text n s m i j \<longleftrightarrow> j \<le> i \<and> j < m \<and> (\<forall>k<j. text ! (i - j + k) = s ! k) \<and>
     (\<forall>x<i - j. \<not> occurs_at id text n s m x)"

lemma search_state_match:
  assumes "search_state text n s m i j" "text ! i = s ! j" "i < n"
  shows "Suc j = m \<Longrightarrow> first_occurrence id text n s m = Some (Suc i - m)"
    and "Suc j < m \<Longrightarrow> search_state text n s m (Suc i) (Suc j)"
proof -
  have hit: "\<forall>k<Suc j. text ! (i - j + k) = s ! k"
    using assms by (auto simp: search_state_def less_Suc_eq)
  have ij: "j \<le> i" "\<forall>x<i - j. \<not> occurs_at id text n s m x" using assms(1) by (auto simp: search_state_def)
  show "first_occurrence id text n s m = Some (Suc i - m)" if "Suc j = m"
  proof -
    have "Suc i - m = i - j" using that by auto
    moreover have "occurs_at id text n s m (i - j)" using hit ij(1) assms(3) that by (auto simp: occurs_at_def)
    ultimately show ?thesis using ij(2) by (simp add: first_occurrence_Some)
  qed
  show "search_state text n s m (Suc i) (Suc j)" if "Suc j < m"
    using hit ij that by (auto simp: search_state_def)
qed

lemma search_state_mismatch:
  assumes "search_state text n s m i j" "text ! i \<noteq> s ! j"
    and "\<forall>k. 0 < k \<and> k < m \<longrightarrow> s ! k \<noteq> s ! 0" "0 < m"
  shows "\<forall>x<(if j = 0 then Suc i else i). \<not> occurs_at id text n s m x"
proof (intro allI impI notI)
  fix x
  assume x: "x < (if j = 0 then Suc i else i)" and occ: "occurs_at id text n s m x"
  have st: "j \<le> i" "j < m" "\<forall>k<j. text ! (i - j + k) = s ! k" "\<forall>x<i - j. \<not> occurs_at id text n s m x"
    using assms(1) by (auto simp: search_state_def)
  have hit: "\<forall>k<m. text ! (x + k) = s ! k" using occ by (simp add: occurs_at_def)
  have "i - j \<le> x" using st(4) occ by (meson not_le)
  moreover have "x \<noteq> i - j"
  proof
    assume "x = i - j"
    then have "text ! i = s ! j" using hit st(1,2) by (metis le_add_diff_inverse2)
    then show False using assms(2) by simp
  qed
  ultimately have k: "0 < x - (i - j)" "x - (i - j) < j" "i - j + (x - (i - j)) = x"
    using x st(1) by (auto split: if_splits)
  then have "text ! x = s ! (x - (i - j))" using st(3) by metis
  moreover have "text ! x = s ! 0" using hit assms(4) by (metis add_0_right)
  ultimately show False using assms(3) k st(2) by (metis less_trans)
qed

lemma start_of_match: "m \<le> Suc i \<Longrightarrow> Suc i < size_mod \<Longrightarrow> szt_add (szt_sub i m) 1 = Suc i - m"
proof (cases "m \<le> i")
  case True
  moreover assume "Suc i < size_mod"
  ultimately show ?thesis by (simp add: Suc_diff_le)
next
  case False
  moreover assume "m \<le> Suc i" "Suc i < size_mod"
  ultimately show ?thesis by (simp add: le_Suc_eq szt_sub_def szt_add_def size_mod_def)
qed

text \<open>No place of the text agrees with the needle up to its last character only.\<close>

definition no_near_miss :: "char list \<Rightarrow> nat \<Rightarrow> char list \<Rightarrow> nat \<Rightarrow> bool" where
  "no_near_miss text n s m \<longleftrightarrow>
     (\<forall>x. x + m \<le> n \<and> (\<forall>k<m - 1. text ! (x + k) = s ! k) \<longrightarrow> text ! (x + (m - 1)) = s ! (m - 1))"

lemma search_state_end:
  assumes "search_state text n s m n j"
  shows "first_occurrence id text n s m = None"
proof -
  have "\<not> occurs_at id text n s m x" for x
  proof
    assume occ: "occurs_at id text n s m x"
    then have "x + m \<le> n" by (simp add: occurs_at_def)
    moreover have "n - j \<le> x" using assms occ by (meson not_le search_state_def)
    ultimately show False using assms by (auto simp: search_state_def)
  qed
  then show ?thesis by (simp add: first_occurrence_None)
qed

lemma mismatch_before_last:
  assumes "search_state text n s m i j" "no_near_miss text n s m" "text ! i \<noteq> s ! j" "i < n"
  shows "j + 1 < m"
proof (rule ccontr)
  have j: "j < m" "j \<le> i" using assms(1) by (auto simp: search_state_def)
  assume "\<not> j + 1 < m"
  then have "j = m - 1" "i - j + m \<le> n" using j assms(4) by auto
  moreover have "\<forall>k<j. text ! (i - j + k) = s ! k" using assms(1) unfolding search_state_def by blast
  ultimately have "text ! (i - j + (m - 1)) = s ! (m - 1)" using assms(2) unfolding no_near_miss_def by blast
  then show False using assms(3) j(2) \<open>j = m - 1\<close> by simp
qed

text \<open>A character that does not match: the search goes on behind it.\<close>

lemma search_for_mismatch:
  assumes pre: "kmp_len prefix = m" "kmp_str prefix = s" "length (kmp_P prefix) = m"
      "\<forall>k<m. kmp_P prefix ! k = Some 0"
    and m: "2 \<le> m" "m \<le> length s" and n: "n \<le> length text"
    and U: "\<forall>k. 0 < k \<and> k < m \<longrightarrow> s ! k \<noteq> s ! 0" and L: "no_near_miss text n s m"
    and i: "i < n" and st: "search_state text n s m i j" and ne: "text ! i \<noteq> s ! j"
  shows "search_for text n prefix i j = search_for text n prefix (Suc i) (if s ! 0 = text ! i then Suc 0 else 0) \<and>
    search_state text n s m (Suc i) (if s ! 0 = text ! i then Suc 0 else 0)"
proof -
  let ?c = "text ! i" and ?j = "if s ! 0 = text ! i then Suc 0 else 0"
  have no: "\<forall>x<(if j = 0 then Suc i else i). \<not> occurs_at id text n s m x"
    using search_state_mismatch [OF st ne U] m(1) by simp
  have j: "j < m" "j < length s" using st m by (auto simp: search_state_def)
  have "j + 1 < m" using mismatch_before_last [OF st L ne i] .
  then have w: "search_while ?c s (kmp_P prefix) j = Some (Inr 0)"
    using ne j pre by (cases "j = 0") (auto intro!: search_while_zero)
  have "0 < length s" "i < length text" using m n i by linarith+
  then have "search_for text n prefix i j = search_for text n prefix (Suc i) ?j"
    using i pre w m by (subst search_for.simps) (simp add: Let_def)
  moreover have "\<not> occurs_at id text n s m i" if "s ! 0 \<noteq> ?c"
    using that m(1) by (auto simp: occurs_at_def intro!: exI [of _ 0])
  then have "search_state text n s m (Suc i) ?j"
    using no m(1) ne by (auto simp: search_state_def less_Suc_eq split: if_splits)
  ultimately show ?thesis by blast
qed

lemma search_for_unique_first:
  assumes pre: "kmp_len prefix = m" "kmp_str prefix = s" "length (kmp_P prefix) = m"
      "\<forall>k<m. kmp_P prefix ! k = Some 0"
    and m: "2 \<le> m" "m \<le> length s" and n: "n \<le> length text" "n < 2 ^ 31"
    and U: "\<forall>k. 0 < k \<and> k < m \<longrightarrow> s ! k \<noteq> s ! 0" and L: "no_near_miss text n s m"
  shows "i \<le> n \<Longrightarrow> search_state text n s m i j \<Longrightarrow> search_for text n prefix i j =
    Some (Inr (case first_occurrence id text n s m of None \<Rightarrow> -1 | Some p \<Rightarrow> int p))"
proof (induction "n - i" arbitrary: i j)
  case 0
  then have "i = n" by simp
  then have "first_occurrence id text n s m = None" using 0(3) search_state_end by simp
  then show ?case using \<open>i = n\<close> by (subst search_for.simps) simp
next
  case (Suc y)
  let ?c = "text ! i"
  have i: "i < n" "i < length text" "y = n - Suc i" "Suc i \<le> n" using Suc.hyps(2) n by simp_all
  have j: "j < m" "j < length s" "j \<le> i" using Suc.prems(2) m by (auto simp: search_state_def)
  have IH: "search_for text n prefix (Suc i) j' =
      Some (Inr (case first_occurrence id text n s m of None \<Rightarrow> -1 | Some p \<Rightarrow> int p))"
    if "search_state text n s m (Suc i) j'" for j' using Suc.hyps(1) [OF i(3,4) that] .
  show ?case
  proof (cases "?c = s ! j")
    case True
    note st = search_state_match [OF Suc.prems(2) True i(1)]
    have unf: "search_for text n prefix i j =
        (if Suc j = m then Some (Inr (to_int32 (int (szt_add (szt_sub i m) 1))))
         else search_for text n prefix (Suc i) (Suc j))"
      using i pre j True by (subst search_for.simps) (simp add: search_while_match)
    show ?thesis
    proof (cases "Suc j = m")
      case True
      moreover have "is_int (int (Suc i - m))"
        using i(1) n(2) by (simp add: is_int_def INT_MIN_def INT_MAX_def)
      moreover have "szt_add (szt_sub i m) 1 = Suc i - m"
        using True j(3) i(1) n(2) by (intro start_of_match) (simp_all add: size_mod_def)
      ultimately show ?thesis using st(1) unf by simp
    next
      case False
      then show ?thesis using unf IH [OF st(2)] j(1) by simp
    qed
  next
    case False
    let ?j = "if s ! 0 = ?c then Suc 0 else 0"
    have "search_for text n prefix i j = search_for text n prefix (Suc i) ?j" "search_state text n s m (Suc i) ?j"
      using search_for_mismatch [OF pre m n(1) U L i(1) Suc.prems(2) False] by simp_all
    then show ?thesis using IH by simp
  qed
qed

lemma search_for_prefix:
  assumes "kmp_len prefix = m" "kmp_str prefix = s" "m \<le> length s" "n \<le> length text"
  shows "k \<le> n \<Longrightarrow> k < m \<Longrightarrow> \<forall>t<k. text ! t = s ! t \<Longrightarrow>
    search_for text n prefix 0 0 = search_for text n prefix k k"
proof (induction k)
  case (Suc k)
  then have k: "k < length text" "k < length s" "k < n" "text ! k = s ! k" using assms by auto
  then have "search_for text n prefix k k = search_for text n prefix (Suc k) (Suc k)"
    using Suc.prems(2) assms(1,2) by (subst search_for.simps) (simp add: search_while_match)
  then show ?case using Suc by simp
qed simp

text \<open>A table entry that sends \<open>j\<close> back to \<open>j\<close> makes the fallback loop run forever.\<close>

lemma search_while_forever:
  assumes "0 < j" "j < length s" "c \<noteq> s ! j" "rd_init Pt (j + 1) = Inr j"
  shows "search_while c s Pt j = None"
proof (rule ccontr)
  assume "search_while c s Pt j \<noteq> None"
  then obtain r where r: "search_while c s Pt j = Some r" by auto
  have "\<not> (c = c \<and> s = s \<and> Pt = Pt \<and> j = j)"
  proof (rule search_while.raw_induct
      [where P = "\<lambda>c' s' Pt' j' r. \<not> (c' = c \<and> s' = s \<and> Pt' = Pt \<and> j' = j)", OF _ r])
    fix f c' s' Pt' j' r
    assume IH: "\<And>c' s' Pt' j' r. f c' s' Pt' j' = Some r \<Longrightarrow>
        \<not> (c' = c \<and> s' = s \<and> Pt' = Pt \<and> j' = j)"
      and eq: "(if 0 < j' then case rd s' j' of Inl e \<Rightarrow> Some (Inl e)
          | Inr d \<Rightarrow> if c' \<noteq> d then case rd_init Pt' (j' + 1) of Inl e \<Rightarrow> Some (Inl e)
                                        | Inr j' \<Rightarrow> f c' s' Pt' j' else Some (Inr j')
        else Some (Inr j')) = Some r"
    show "\<not> (c' = c \<and> s' = s \<and> Pt' = Pt \<and> j' = j)"
    proof
      assume "c' = c \<and> s' = s \<and> Pt' = Pt \<and> j' = j"
      then have "f c s Pt j = Some r" using eq assms by simp
      then show False using IH by blast
    qed
  qed
  then show False by simp
qed

section \<open>Properties\<close>

text \<open>C34: \<open>kmp_failure\<close> ends, stays inside the needle and the table, and for every needle of two or more
  characters entry \<open>k\<close> of the table is the length of the longest proper border of the needle's first
  \<open>k + 1\<close> characters.\<close>

theorem kmp_failure_correct:
  assumes "2 \<le> n" "n \<le> length s"
  shows "\<exists>Pt. kmp_failure s n \<lparr>kmp_P = replicate n None, kmp_len = n, kmp_str = s\<rparr> =
      Some (Inr \<lparr>kmp_P = Pt, kmp_len = n, kmp_str = s\<rparr>) \<and> length Pt = n \<and>
      (\<forall>k<n. \<exists>b. Pt ! k = Some b \<and> longest_border s (Suc k) b)"
  using kmp_failure_spec [of n s "\<lparr>kmp_P = replicate n None, kmp_len = n, kmp_str = s\<rparr>"] assms
  by (auto simp: table_ok_def)

theorem kmp_failure_correct_witness:
  "\<exists>Pt. kmp_failure ''abab'' 4 \<lparr>kmp_P = replicate 4 None, kmp_len = 4, kmp_str = ''abab''\<rparr> =
      Some (Inr \<lparr>kmp_P = Pt, kmp_len = 4, kmp_str = ''abab''\<rparr>) \<and> length Pt = 4 \<and>
      (\<forall>k<4. \<exists>b. Pt ! k = Some b \<and> longest_border ''abab'' (Suc k) b)"
  by (rule kmp_failure_correct) simp_all

lemma kmp_unique_first_run:
  assumes "2 \<le> m" "m \<le> length s" "n \<le> length text" "n < 2 ^ 31"
    and "\<forall>k. 0 < k \<and> k < m \<longrightarrow> s ! k \<noteq> s ! 0" and "no_near_miss text n s m"
  shows "posixc_kmp_contains text n s m =
    Some (Inr (case first_occurrence id text n s m of None \<Rightarrow> None | Some p \<Rightarrow> Some (int p)))"
proof -
  let ?pre = "\<lparr>kmp_P = replicate m None, kmp_len = m, kmp_str = s\<rparr>"
  obtain Pt where Pt: "kmp_failure s m ?pre = Some (Inr (?pre\<lparr>kmp_P := Pt\<rparr>))" "length Pt = m" "table_ok s m Pt"
    using kmp_failure_spec [of m s ?pre] assms(1,2) by auto
  have "\<forall>k<m. Pt ! k = Some 0" using unique_first_table [OF Pt(3) assms(5)] by blast
  moreover have "search_state text n s m 0 0" using assms(1) by (simp add: search_state_def)
  ultimately have "search_for text n (?pre\<lparr>kmp_P := Pt\<rparr>) 0 0 =
      Some (Inr (case first_occurrence id text n s m of None \<Rightarrow> -1 | Some p \<Rightarrow> int p))"
    using assms Pt(2) by (intro search_for_unique_first) simp_all
  then show ?thesis using Pt(1)
    by (auto simp: posixc_kmp_contains_def kmp_prefix_search_def split: option.splits)
qed

text \<open>A needle whose first character does not come back, in two texts.\<close>

lemma unique_first_six:
  "first_occurrence id ''Hello PosixC Slice!'' 19 ''six'' 3 = Some 8" "no_near_miss ''Hello PosixC Slice!'' 19 ''six'' 3"
  "\<forall>k. 0 < k \<and> k < 3 \<longrightarrow> ''six'' ! k \<noteq> ''six'' ! 0"
proof -
  show "first_occurrence id ''Hello PosixC Slice!'' 19 ''six'' 3 = Some 8"
    by (simp add: first_occurrence_Some occurs_at_def) code_simp
  have "\<forall>x\<in>{..16}. (\<forall>k<2. ''Hello PosixC Slice!'' ! (x + k) = ''six'' ! k) \<longrightarrow>
      ''Hello PosixC Slice!'' ! (x + 2) = ''six'' ! 2" by code_simp
  then show "no_near_miss ''Hello PosixC Slice!'' 19 ''six'' 3" by (auto simp: no_near_miss_def)
  show "\<forall>k. 0 < k \<and> k < 3 \<longrightarrow> ''six'' ! k \<noteq> ''six'' ! 0" by (auto simp: less_Suc_eq numeral_3_eq_3)
qed

lemma unique_first_23:
  "first_occurrence id ''123456'' 6 ''23'' 2 = Some 1" "no_near_miss ''123456'' 6 ''23'' 2"
  "\<forall>k. 0 < k \<and> k < 2 \<longrightarrow> ''23'' ! k \<noteq> ''23'' ! 0"
proof -
  show "first_occurrence id ''123456'' 6 ''23'' 2 = Some 1"
    by (simp add: first_occurrence_Some occurs_at_def) code_simp
  have "\<forall>x\<in>{..4}. (\<forall>k<1. ''123456'' ! (x + k) = ''23'' ! k) \<longrightarrow> ''123456'' ! (x + 1) = ''23'' ! 1" by code_simp
  then show "no_near_miss ''123456'' 6 ''23'' 2" by (auto simp: no_near_miss_def)
  show "\<forall>k. 0 < k \<and> k < 2 \<longrightarrow> ''23'' ! k \<noteq> ''23'' ! 0" by (auto simp: less_Suc_eq)
qed

text \<open>C35: for a needle of at least two characters whose first character does not come back in it, and
  a text shorter than two to the power 31 with no place that agrees with the needle up to its last
  character only, the search ends inside its arrays and returns the place of the first occurrence,
  or says that there is none. On these inputs the index \<open>P[j+1]\<close> does no harm.\<close>

theorem kmp_contains_unique_first:
  assumes "2 \<le> m" "m \<le> length s" "n \<le> length text" "n < 2 ^ 31"
    and "\<forall>k. 0 < k \<and> k < m \<longrightarrow> s ! k \<noteq> s ! 0" and "no_near_miss text n s m"
  shows "posixc_kmp_contains text n s m =
    Some (Inr (map_option int (first_occurrence id text n s m)))"
  using kmp_unique_first_run [OF assms] by (simp split: option.splits)

theorem kmp_contains_unique_first_witness:
  "posixc_kmp_contains ''Hello PosixC Slice!'' 19 ''six'' 3 = Some (Inr (Some 8))"
  using kmp_contains_unique_first [of 3 "''six''" 19 "''Hello PosixC Slice!''"] unique_first_six by simp

text \<open>A needle of one character is always an error: \<open>kmp_failure\<close> stores to \<open>P[1]\<close>, outside the
  caller's array \<open>P[needle_len]\<close>. An empty needle already fails at \<open>P[0]\<close>.\<close>

lemma kmp_short_needle_overrun:
  assumes "m \<le> 1"
  shows "posixc_kmp_contains text n s m = Some (Inl Out_Of_Bounds)"
  using assms by (cases m) (simp_all add: posixc_kmp_contains_def kmp_failure_def)

lemma kmp_short_needle_overrun_witness:
  "posixc_kmp_contains ''abc'' 3 ''b'' 1 = Some (Inl Out_Of_Bounds)"
  by (rule kmp_short_needle_overrun) simp

text \<open>When the text begins with all of the needle but its last character, the search reads
  \<open>P[needle_len]\<close>, one past the end of the table.\<close>

lemma kmp_near_miss_overrun:
  assumes "2 \<le> m" "m \<le> length s" "m \<le> n" "n \<le> length text"
    "\<forall>k<m - 1. text ! k = s ! k" "text ! (m - 1) \<noteq> s ! (m - 1)"
  shows "posixc_kmp_contains text n s m = Some (Inl Out_Of_Bounds)"
proof -
  let ?pre = "\<lparr>kmp_P = replicate m None, kmp_len = m, kmp_str = s\<rparr>"
  obtain Pt where Pt: "kmp_failure s m ?pre = Some (Inr (?pre\<lparr>kmp_P := Pt\<rparr>))" "length Pt = m"
    using kmp_failure_spec [of m s ?pre] assms(1,2) by auto
  let ?pre' = "?pre\<lparr>kmp_P := Pt\<rparr>"
  have "search_for text n ?pre' 0 0 = search_for text n ?pre' (m - 1) (m - 1)"
    using assms by (intro search_for_prefix [where m = m and s = s]) simp_all
  moreover have "search_while (text ! (m - 1)) s Pt (m - 1) = Some (Inl Out_Of_Bounds)"
    using assms Pt(2) by (subst search_while.simps) (simp add: rd_init_def)
  then have "search_for text n ?pre' (m - 1) (m - 1) = Some (Inl Out_Of_Bounds)"
    using assms by (subst search_for.simps) simp
  ultimately show ?thesis using Pt(1) by (simp add: posixc_kmp_contains_def kmp_prefix_search_def)
qed

lemma kmp_near_miss_overrun_witness:
  "posixc_kmp_contains ''ac'' 2 ''ab'' 2 = Some (Inl Out_Of_Bounds)"
  by (rule kmp_near_miss_overrun) auto

lemma kmp_table_abcab:
  "kmp_failure ''abcab'' 5 \<lparr>kmp_P = replicate 5 None, kmp_len = 5, kmp_str = ''abcab''\<rparr> =
   Some (Inr \<lparr>kmp_P = [Some 0, Some 0, Some 0, Some 1, Some 2], kmp_len = 5, kmp_str = ''abcab''\<rparr>)"
  by code_simp

text \<open>With the index \<open>P[j+1]\<close> the search misses the occurrence of \<open>aabx\<close> in \<open>aaabx\<close> and
  reports an occurrence of \<open>abcab\<close> in \<open>abccab\<close>, where there is none.\<close>

lemma kmp_contains_wrong:
  "posixc_kmp_contains ''aaabx'' 5 ''aabx'' 4 = Some (Inr None) \<and>
   first_occurrence id ''aaabx'' 5 ''aabx'' 4 = Some 1 \<and>
   posixc_kmp_contains ''abccab'' 6 ''abcab'' 5 = Some (Inr (Some 1)) \<and>
   first_occurrence id ''abccab'' 6 ''abcab'' 5 = None"
proof (intro conjI)
  show "posixc_kmp_contains ''aaabx'' 5 ''aabx'' 4 = Some (Inr None)" by code_simp
  show "first_occurrence id ''aaabx'' 5 ''aabx'' 4 = Some 1"
    by (simp add: first_occurrence_Some occurs_at_def) code_simp
  show "first_occurrence id ''abccab'' 6 ''abcab'' 5 = None" by code_simp
  show "posixc_kmp_contains ''abccab'' 6 ''abcab'' 5 = Some (Inr (Some 1))"
    by (simp add: posixc_kmp_contains_def kmp_table_abcab kmp_prefix_search_def search_for.simps
        search_while.simps rd_def rd_init_def szt_add_def szt_sub_def size_mod_def to_int32_def Let_def)
qed

lemma kmp_table_abab:
  "kmp_failure ''abab'' 4 \<lparr>kmp_P = replicate 4 None, kmp_len = 4, kmp_str = ''abab''\<rparr> =
   Some (Inr \<lparr>kmp_P = [Some 0, Some 0, Some 1, Some 2], kmp_len = 4, kmp_str = ''abab''\<rparr>)"
  by code_simp

text \<open>C36: the search for \<open>abab\<close> in a text that begins with \<open>aa\<close> never returns, since \<open>P[2]\<close> is 1.\<close>

theorem kmp_contains_diverges:
  "posixc_kmp_contains (CHR ''a'' # CHR ''a'' # rest) (n + 2) ''abab'' 4 = None"
proof -
  have "search_while CHR ''a'' ''abab'' [Some 0, Some 0, Some 1, Some 2] 1 = None"
    by (rule search_while_forever) (simp_all add: rd_init_def)
  then show ?thesis
    by (simp add: posixc_kmp_contains_def kmp_table_abab kmp_prefix_search_def
        search_for.simps [of _ _ _ 0] search_for.simps [of _ _ _ "Suc 0"])
qed

end
