(* ===== verification/Utils.thy ===== *)
theory Utils
  imports Prelude "HOL-Library.List_Lexorder"
begin

text \<open>
  The string and number helpers of \<open>src/common/utils.c\<close>. A \<open>const char*\<close> argument that is only read as
  a C string is the list of its bytes before the terminator; an output buffer is the list of all
  bytes of the array, and every store into it is checked. \<open>int\<close> arithmetic is the source's:
  division and remainder truncate towards zero, and leaving the range is \<open>Int_Overflow\<close>.
\<close>

section \<open>Strings\<close>

definition regex_chars :: "char list" where
  "regex_chars = ''$()*+.?['' @ [CHR 0x5C] @ ''^{|''"

text \<open>\<open>strpbrk\<close>: the first byte of the string that is in the given set.\<close>

definition strpbrk :: "char list \<Rightarrow> char list \<Rightarrow> nat option" where
  "strpbrk s accept = List.find (\<lambda>i. s ! i \<in> set accept) [0..<length s]"

definition posixc_is_regex :: "char list \<Rightarrow> bool" where
  "posixc_is_regex q = (strpbrk q regex_chars \<noteq> None)"

text \<open>\<open>strcmp\<close> compares bytes as unsigned characters; only the sign of its result is used.\<close>

fun strcmp :: "char list \<Rightarrow> char list \<Rightarrow> int" where
  "strcmp [] [] = 0"
| "strcmp [] (b # bs) = -1"
| "strcmp (a # as) [] = 1"
| "strcmp (a # as) (b # bs) =
     (if byte_of a < byte_of b then -1 else if byte_of b < byte_of a then 1 else strcmp as bs)"

definition rd_int :: "'a list \<Rightarrow> int \<Rightarrow> 'a res" where
  "rd_int xs i = (if 0 \<le> i then rd xs (nat i) else Inl Out_Of_Bounds)"

definition wr_int :: "'a list \<Rightarrow> int \<Rightarrow> 'a \<Rightarrow> 'a list res" where
  "wr_int xs i v = (if 0 \<le> i then wr xs (nat i) v else Inl Out_Of_Bounds)"

text \<open>The bounds are \<open>fin\<close> for the source's \<open>end\<close>. With \<open>start > end\<close> the recursion need not end.\<close>

partial_function (option) posixc_binary_search ::
    "char list \<Rightarrow> char list list \<Rightarrow> int \<Rightarrow> int \<Rightarrow> int run" where
  "posixc_binary_search needle haystack start fin =
     (if start = fin then Some (Inr (-1)) else
      case c_int (fin - start) of Inl e \<Rightarrow> Some (Inl e)
      | Inr d \<Rightarrow>
        (let mid = start + d sdiv 2 in
         case rd_int haystack mid of Inl e \<Rightarrow> Some (Inl e)
         | Inr s \<Rightarrow>
           (let rc = strcmp needle s in
            if rc < 0 then posixc_binary_search needle haystack start mid
            else if rc > 0 then posixc_binary_search needle haystack (mid + 1) fin
            else Some (Inr mid))))"

declare posixc_binary_search.simps [code]

fun posixc_is_lowercase :: "char list \<Rightarrow> bool" where
  "posixc_is_lowercase [] = True"
| "posixc_is_lowercase (c # cs) =
     (if \<not> isascii c \<or> isupper c then False else posixc_is_lowercase cs)"

text \<open>\<open>while (i < j)\<close> of \<open>posixc_reverse\<close>\<close>

function reverse_loop :: "char list \<Rightarrow> int \<Rightarrow> int \<Rightarrow> char list res" where
  "reverse_loop s i j =
     (if i < j then
        bindE (rd_int s i) (\<lambda>temp. bindE (rd_int s j) (\<lambda>c.
        bindE (wr_int s i c) (\<lambda>s. bindE (wr_int s j temp) (\<lambda>s.
        reverse_loop s (i + 1) (j - 1)))))
      else Inr s)"
  by pat_completeness auto
termination
  by (relation "measure (\<lambda>(s, i, j). nat (j - i))") auto

declare reverse_loop.simps [simp del]

definition posixc_reverse :: "char list \<Rightarrow> int \<Rightarrow> char list res" where
  "posixc_reverse s n = bindE (c_int (n - 1)) (\<lambda>j. reverse_loop s 0 j)"

section \<open>Numbers\<close>

text \<open>\<open>(x % 10) + '0'\<close>, stored in a \<open>char\<close>\<close>

definition digit_char :: "int \<Rightarrow> char" where
  "digit_char x = char_of (x smod 10 + 48)"

text \<open>\<open>while (x) { str[i++] = (x%10) + '0'; x = x/10; }\<close>: the digits, last one first\<close>

function itoa_digits :: "int \<Rightarrow> char list \<Rightarrow> nat \<Rightarrow> (char list \<times> nat) res" where
  "itoa_digits x s i =
     (if x \<noteq> 0 then
        bindE (wr s i (digit_char x)) (\<lambda>s. itoa_digits (x sdiv 10) s (i + 1))
      else Inr (s, i))"
  by pat_completeness auto
termination
proof (relation "measure (\<lambda>(x, s, i). nat \<bar>x\<bar>)", goal_cases)
  case (2 x s i s')
  have "\<bar>x sdiv 10\<bar> = \<bar>x\<bar> div 10" by (rule abs_sdiv_10)
  also have "\<dots> < \<bar>x\<bar>" using 2(1) by linarith
  finally show ?case by simp
qed simp

declare itoa_digits.simps [simp del]

definition posixc_itoa :: "int \<Rightarrow> char list \<Rightarrow> (char list \<times> nat) res" where
  "posixc_itoa x s =
     bindE (itoa_digits x s 0) (\<lambda>(s, i).
     bindE (posixc_reverse s (int i)) (\<lambda>s.
     bindE (wr s i (CHR 0x00)) (\<lambda>s. Inr (s, i))))"

text \<open>\<open>while (i < d) str[i++] = '0';\<close>\<close>

function pad_zeros :: "char list \<Rightarrow> nat \<Rightarrow> int \<Rightarrow> (char list \<times> nat) res" where
  "pad_zeros s i d =
     (if int i < d then bindE (wr s i (CHR ''0'')) (\<lambda>s. pad_zeros s (i + 1) d) else Inr (s, i))"
  by pat_completeness auto
termination
  by (relation "measure (\<lambda>(s, i, d). nat (d - int i))") auto

declare pad_zeros.simps [simp del]

definition posixc_itoa_padding_zeros :: "int \<Rightarrow> char list \<Rightarrow> int \<Rightarrow> (char list \<times> nat) res" where
  "posixc_itoa_padding_zeros x s d =
     bindE (itoa_digits x s 0) (\<lambda>(s, i).
     bindE (pad_zeros s i d) (\<lambda>(s, i).
     bindE (posixc_reverse s (int i)) (\<lambda>s.
     bindE (wr s i (CHR 0x00)) (\<lambda>s. Inr (s, i)))))"

section \<open>Comparing strings\<close>

lemma strcmp_eq_0 [simp]: "strcmp a b = 0 \<longleftrightarrow> a = b"
  by (induction a b rule: strcmp.induct) (auto dest: byte_of_inj)

lemma strcmp_refl [simp]: "strcmp a a = 0"
  by simp

text \<open>\<open>strcmp\<close> decides the lexicographic order of byte strings, the order of the library.\<close>

lemma strcmp_less: "strcmp a b < 0 \<longleftrightarrow> a < b" and strcmp_greater: "strcmp a b > 0 \<longleftrightarrow> b < a"
  by (induction a b rule: strcmp.induct) (auto simp: less_char_def byte_of_def)

lemma sorted_after:
  assumes "sorted h" "x < h ! m" "m \<le> k" "k < length h"
  shows "h ! k \<noteq> x"
  using assms sorted_nth_mono [of h m k] by auto

lemma sorted_before:
  assumes "sorted h" "h ! m < x" "k \<le> m" "m < length h"
  shows "h ! k \<noteq> x"
  using assms sorted_nth_mono [of h k m] by auto

text \<open>\<open>search_result x h a b r\<close>: \<open>r\<close> is a place of \<open>x\<close> between \<open>a\<close> and \<open>b\<close>, or \<open>-1\<close> when there is
  none.\<close>

definition search_result :: "char list \<Rightarrow> char list list \<Rightarrow> int \<Rightarrow> int \<Rightarrow> int \<Rightarrow> bool" where
  "search_result x h a b r \<longleftrightarrow>
     (if \<exists>k. a \<le> int k \<and> int k < b \<and> h ! k = x then a \<le> r \<and> r < b \<and> h ! nat r = x else r = -1)"

lemma search_result_widen:
  assumes "search_result x h a b r" "a' \<le> a" "b \<le> b'"
    and "\<And>k. a' \<le> int k \<Longrightarrow> int k < b' \<Longrightarrow> h ! k = x \<Longrightarrow> a \<le> int k \<and> int k < b"
  shows "search_result x h a' b' r"
proof (cases "\<exists>k. a' \<le> int k \<and> int k < b' \<and> h ! k = x")
  case True
  then have "\<exists>k. a \<le> int k \<and> int k < b \<and> h ! k = x" using assms(4) by blast
  then show ?thesis using True assms(1-3) by (auto simp: search_result_def)
next
  case False
  then have "\<not> (\<exists>k. a \<le> int k \<and> int k < b \<and> h ! k = x)" using assms(2,3) by (metis order_trans order.strict_trans2)
  then show ?thesis using False assms(1) unfolding search_result_def by argo
qed

lemma binary_search_spec:
  assumes "sorted h" "length h \<le> nat INT_MAX"
  shows "0 \<le> start \<Longrightarrow> start \<le> fin \<Longrightarrow> fin \<le> int (length h) \<Longrightarrow>
    \<exists>r. posixc_binary_search x h start fin = Some (Inr r) \<and> search_result x h start fin r"
proof (induction "nat (fin - start)" arbitrary: start fin rule: less_induct)
  case less
  show ?case
  proof (cases "start = fin")
    case True
    then show ?thesis by (auto simp: posixc_binary_search.simps search_result_def)
  next
    case False
    define m where "m = start + (fin - start) div 2"
    have m: "start \<le> m" "m < fin" "0 \<le> m" "m < int (length h)"
      using False less.prems by (auto simp: m_def)
    have "is_int (fin - start)" using less.prems assms(2)
      by (simp add: is_int_def INT_MIN_def INT_MAX_def)
    then have unf: "posixc_binary_search x h start fin =
      (if x < h ! nat m then posixc_binary_search x h start m
       else if h ! nat m < x then posixc_binary_search x h (m + 1) fin
       else Some (Inr m))"
      using False m less.prems
      by (subst posixc_binary_search.simps)
        (simp add: rd_int_def sdiv_2_nonneg m_def [symmetric] Let_def strcmp_less strcmp_greater)
    consider (lt) "x < h ! nat m" | (gt) "h ! nat m < x" | (eq) "h ! nat m = x"
      by (metis linorder_neqE)
    then show ?thesis
    proof cases
      case lt
      obtain r where r: "posixc_binary_search x h start m = Some (Inr r)" "search_result x h start m r"
        using less.hyps [of m start] m less.prems by auto
      have "int k < m" if "int k < fin" "h ! k = x" for k
        using sorted_after [OF assms(1) lt, of k] that less.prems(3) m by linarith
      then have "search_result x h start fin r" using m by (intro search_result_widen [OF r(2)]) auto
      then show ?thesis using r(1) unf lt by simp
    next
      case gt
      obtain r where r: "posixc_binary_search x h (m + 1) fin = Some (Inr r)"
        "search_result x h (m + 1) fin r"
        using less.hyps [of fin "m + 1"] m less.prems by auto
      have "m + 1 \<le> int k" if "h ! k = x" for k
        using sorted_before [OF assms(1) gt, of k] that m by linarith
      then have "search_result x h start fin r" using m by (intro search_result_widen [OF r(2)]) auto
      then show ?thesis using r(1) unf gt by (simp add: less_not_sym)
    next
      case eq
      then have "search_result x h start fin m" using m by (auto simp: search_result_def intro: exI [of _ "nat m"])
      then show ?thesis using unf eq by simp
    qed
  qed
qed

section \<open>Reversing\<close>

lemma reverse_loop_spec:
  "reverse_loop (p @ mid @ q) (int (length p)) (int (length p + length mid) - 1) =
     Inr (p @ rev mid @ q)"
proof (induction "length mid" arbitrary: p mid q rule: less_induct)
  case less
  show ?case
  proof (cases "length mid < 2")
    case True
    then have "rev mid = mid" by (cases mid) auto
    moreover have "\<not> int (length p) < int (length p + length mid) - 1" using True by simp
    ultimately show ?thesis by (subst reverse_loop.simps) simp
  next
    case False
    then obtain x m y where mid: "mid = x # m @ [y]"
      by (metis One_nat_def Suc_1 append_butlast_last_id length_0_conv length_Suc_conv lessI
          less_2_cases list.exhaust list.size(3) not_less_iff_gr_or_eq zero_less_Suc
          length_Cons)
    let ?i = "length p" and ?j = "length p + length m + 1"
    have ij: "int (length p + length mid) - 1 = int ?j" using mid by simp
    have sw: "(p @ mid @ q)[?i := y, ?j := x] = (p @ [y]) @ m @ (x # q)"
      using mid by (simp add: list_update_append)
    have nth: "(p @ mid @ q) ! ?i = x" "(p @ mid @ q) ! ?j = y"
      using mid by (simp_all add: nth_append)
    have "reverse_loop (p @ mid @ q) (int ?i) (int ?j) =
        reverse_loop ((p @ [y]) @ m @ (x # q)) (int ?i + 1) (int ?j - 1)"
      using nth sw mid by (subst reverse_loop.simps) (simp add: rd_int_def wr_int_def nat_add_distrib)
    also have "\<dots> = Inr ((p @ [y]) @ rev m @ (x # q))"
      using less [of m "p @ [y]" "x # q"] mid by (simp add: algebra_simps)
    finally show ?thesis using mid ij by simp
  qed
qed

lemma posixc_reverse_spec:
  assumes "n \<le> length s" "int n \<le> INT_MAX"
  shows "posixc_reverse s (int n) = Inr (rev (take n s) @ drop n s)"
proof -
  have "is_int (int n - 1)" using assms(2) by (simp add: is_int_def INT_MIN_def INT_MAX_def)
  then show ?thesis using reverse_loop_spec [of "[]" "take n s" "drop n s"] assms(1)
    by (simp add: posixc_reverse_def)
qed

section \<open>Decimal digits\<close>

text \<open>The digits of a number in the order \<open>itoa_digits\<close> produces them, and what a numeral denotes.\<close>

fun digits_rev :: "nat \<Rightarrow> char list" where
  "digits_rev n = (if n = 0 then [] else char_of (n mod 10 + 48) # digits_rev (n div 10))"

declare digits_rev.simps [simp del]

definition numeral_value :: "char list \<Rightarrow> nat" where
  "numeral_value ds = foldl (\<lambda>v c. v * 10 + (byte_of c - 48)) 0 ds"

definition is_digit :: "char \<Rightarrow> bool" where
  "is_digit c \<longleftrightarrow> 48 \<le> byte_of c \<and> byte_of c \<le> 57"

lemma byte_of_digit [simp]: "byte_of (char_of (n mod 10 + 48 :: nat)) = n mod 10 + 48"
proof -
  have "n mod 10 + 48 < 256" by (simp add: less_imp_le_nat add_less_le_mono [of _ 10 48 246, simplified])
  then show ?thesis by (simp add: byte_of_def)
qed

lemma numeral_value_snoc: "numeral_value (ds @ [c]) = numeral_value ds * 10 + (byte_of c - 48)"
  by (simp add: numeral_value_def)

lemma numeral_value_digits: "numeral_value (rev (digits_rev n)) = n"
proof (induction n rule: digits_rev.induct)
  case (1 n)
  then show ?case
    by (subst digits_rev.simps) (simp add: numeral_value_snoc numeral_value_def [of "[]"])
qed

lemma digits_are_digits: "c \<in> set (digits_rev n) \<Longrightarrow> is_digit c"
proof (induction n rule: digits_rev.induct)
  case (1 n)
  have "n mod 10 \<le> 9" by (metis Suc_numeral mod_less_divisor not_less_eq_eq semiring_norm(5)
        semiring_norm(8) leI not_less_eq zero_less_numeral)
  then show ?case using 1 by (subst (asm) digits_rev.simps) (auto simp: is_digit_def split: if_splits)
qed

lemma length_digits_le: "n < 10 ^ k \<Longrightarrow> length (digits_rev n) \<le> k"
proof (induction k arbitrary: n)
  case 0
  then show ?case by (subst digits_rev.simps) simp
next
  case (Suc k)
  then have "n div 10 < 10 ^ k" by (simp add: less_mult_imp_div_less mult.commute)
  then show ?case using Suc.IH by (subst digits_rev.simps) simp
qed

lemma digit_char_nat: "digit_char (int n) = char_of (n mod 10 + 48 :: nat)"
proof -
  have "digit_char (int n) = char_of (int (n mod 10 + 48))"
    by (simp add: digit_char_def smod_10_nonneg zmod_int)
  then show ?thesis by (simp only: char_of_nat)
qed

lemma itoa_digits_spec:
  "length p + length (digits_rev n) \<le> length p + length q \<Longrightarrow>
   itoa_digits (int n) (p @ q) (length p) =
     Inr (p @ digits_rev n @ drop (length (digits_rev n)) q, length p + length (digits_rev n))"
proof (induction n arbitrary: p q rule: digits_rev.induct)
  case (1 n)
  show ?case
  proof (cases "n = 0")
    case True
    then show ?thesis by (subst itoa_digits.simps, subst (1 2 3) digits_rev.simps) simp
  next
    case False
    then have d: "digits_rev n = char_of (n mod 10 + 48) # digits_rev (n div 10)"
      by (subst digits_rev.simps) simp
    then obtain c q' where q: "q = c # q'" using 1(2) by (cases q) auto
    let ?p = "p @ [char_of (n mod 10 + 48)]"
    have "int n sdiv 10 = int (n div 10)" by (simp add: sdiv_10_nonneg zdiv_int)
    then have "itoa_digits (int n) (p @ q) (length p) =
        itoa_digits (int (n div 10)) (?p @ q') (length ?p)"
      using False q by (subst itoa_digits.simps) (simp add: digit_char_nat list_update_append)
    then show ?thesis using 1(1) [OF False, of ?p q'] 1(2) d q by simp
  qed
qed

lemma pad_zeros_spec:
  "length p + k \<le> length p + length q \<Longrightarrow>
   pad_zeros (p @ q) (length p) (int (length p + k)) =
     Inr (p @ replicate k (CHR ''0'') @ drop k q, length p + k)"
proof (induction k arbitrary: p q)
  case 0
  then show ?case by (subst pad_zeros.simps) simp
next
  case (Suc k)
  then obtain c q' where q: "q = c # q'" by (cases q) auto
  let ?p = "p @ [CHR ''0'']"
  have "pad_zeros (p @ q) (length p) (int (length p + Suc k)) =
      pad_zeros (?p @ q') (length ?p) (int (length ?p + k))"
    using q by (subst pad_zeros.simps) (simp add: list_update_append)
  then show ?case using Suc.IH [of ?p q'] Suc.prems q by simp
qed

lemma pad_zeros_none: "d \<le> int i \<Longrightarrow> pad_zeros s i d = Inr (s, i)"
  by (subst pad_zeros.simps) simp

text \<open>Reversing the digits and terminating the string: the end both conversions share.\<close>

lemma finish_numeral:
  assumes "length ds < length s" "length ds \<le> nat INT_MAX"
  shows "bindE (posixc_reverse (ds @ drop (length ds) s) (int (length ds)))
      (\<lambda>s. bindE (wr s (length ds) (CHR 0x00)) (\<lambda>s. Inr (s, length ds))) =
    Inr (rev ds @ CHR 0x00 # drop (Suc (length ds)) s, length ds)"
proof -
  obtain c r where r: "drop (length ds) s = c # r" using assms(1) by (cases "drop (length ds) s") auto
  then have "r = drop (Suc (length ds)) s" by (metis drop_Suc list.sel(3) tl_drop)
  moreover have "posixc_reverse (ds @ drop (length ds) s) (int (length ds)) = Inr (rev ds @ c # r)"
    using posixc_reverse_spec [of "length ds" "ds @ drop (length ds) s"] assms r by (simp add: le_nat_iff INT_MAX_def)
  ultimately show ?thesis by (simp add: list_update_append)
qed

lemma posixc_itoa_nat:
  assumes "length (digits_rev n) < length s" "length (digits_rev n) \<le> nat INT_MAX"
  shows "posixc_itoa (int n) s = Inr (rev (digits_rev n) @ CHR 0x00 # drop (Suc (length (digits_rev n))) s,
    length (digits_rev n))"
  using itoa_digits_spec [of "[]" n s] finish_numeral [OF assms] assms(1)
  by (simp add: posixc_itoa_def)

lemma int_digits:
  assumes "0 < x" "x \<le> INT_MAX"
  obtains n where "x = int n" "0 < length (digits_rev n)" "length (digits_rev n) \<le> 10"
proof -
  have "nat x < 10 ^ 10" using assms by (simp add: INT_MAX_def)
  then have "length (digits_rev (nat x)) \<le> 10" by (rule length_digits_le)
  moreover have "0 < length (digits_rev (nat x))" using assms(1) by (subst digits_rev.simps) simp
  ultimately show ?thesis using that [of "nat x"] assms(1) by simp
qed

lemma itoa_padding_ok:
  assumes "0 \<le> x" "x \<le> INT_MAX" "length (digits_rev (nat x)) \<le> d" "d < length s" "int d \<le> INT_MAX"
  shows "posixc_itoa_padding_zeros x s (int d) =
      Inr (replicate (d - length (digits_rev (nat x))) (CHR ''0'') @ rev (digits_rev (nat x)) @
           CHR 0x00 # drop (Suc d) s, d)"
proof -
  let ?ds = "digits_rev (nat x)" let ?k = "d - length ?ds"
  let ?all = "?ds @ replicate ?k (CHR ''0'')"
  have 1: "itoa_digits x s 0 = Inr (?ds @ drop (length ?ds) s, length ?ds)"
    using itoa_digits_spec [of "[]" "nat x" s] assms by simp
  have 2: "pad_zeros (?ds @ drop (length ?ds) s) (length ?ds) (int d) =
      Inr (?all @ drop (length ?all) s, length ?all)"
    using pad_zeros_spec [of ?ds ?k "drop (length ?ds) s"] assms by simp
  have 3: "bindE (posixc_reverse (?all @ drop (length ?all) s) (int (length ?all)))
      (\<lambda>s. bindE (wr s (length ?all) (CHR 0x00)) (\<lambda>s. Inr (s, length ?all))) =
    Inr (rev ?all @ CHR 0x00 # drop (Suc (length ?all)) s, length ?all)"
    using assms(3-5) by (intro finish_numeral) (simp_all add: le_nat_iff INT_MAX_def)
  show ?thesis using 1 2 3 assms(3) by (simp add: posixc_itoa_padding_zeros_def)
qed

section \<open>Properties\<close>

text \<open>C27: on a sorted array \<open>posixc_binary_search\<close> ends, reads only inside the array, and returns a
  place of the string between the bounds, or \<open>-1\<close> exactly when it is not there.\<close>

theorem binary_search_correct:
  assumes "sorted h" "length h \<le> nat INT_MAX" "0 \<le> start" "start \<le> fin" "fin \<le> int (length h)"
  shows "\<exists>r. posixc_binary_search x h start fin = Some (Inr r) \<and>
      (if \<exists>k. start \<le> int k \<and> int k < fin \<and> h ! k = x then start \<le> r \<and> r < fin \<and> h ! nat r = x
       else r = -1)"
  using binary_search_spec [OF assms(1,2), of start fin x] assms(3-5) unfolding search_result_def by simp

theorem binary_search_correct_witness:
  "\<exists>r. posixc_binary_search ''cat'' [''ant'', ''bee'', ''cat''] 0 3 = Some (Inr r) \<and>
      0 \<le> r \<and> r < 3 \<and> [''ant'', ''bee'', ''cat''] ! nat r = ''cat''"
proof -
  have "\<exists>k. (0::int) \<le> int k \<and> int k < 3 \<and> [''ant'', ''bee'', ''cat''] ! k = ''cat''"
    by (rule exI [of _ 2]) simp
  moreover have "sorted [''ant'', ''bee'', ''cat'']" by (simp add: less_eq_char_def less_char_def)
  ultimately show ?thesis
    using binary_search_correct [of "[''ant'', ''bee'', ''cat'']" 0 3 "''cat''"]
    by (simp add: INT_MAX_def)
qed

text \<open>\<open>posixc_reverse\<close> reverses the first \<open>len\<close> bytes in place and touches nothing else.\<close>

lemma reverse_correct:
  assumes "n \<le> length s" "int n \<le> INT_MAX"
  shows "posixc_reverse s (int n) = Inr (rev (take n s) @ drop n s)"
  using assms by (rule posixc_reverse_spec)

lemma reverse_correct_witness: "posixc_reverse ''321.'' 3 = Inr ''123.''"
  using reverse_correct [of 3 "''321.''"] by (simp add: INT_MAX_def)

text \<open>C30: for every positive \<open>int\<close>, \<open>posixc_itoa\<close> writes at most ten decimal digits whose value is the
  argument, and a terminator, into a buffer of eleven bytes or more; the rest of the buffer is
  unchanged and the result is the number of digits.\<close>

theorem itoa_correct:
  assumes "0 < x" "x \<le> INT_MAX" "11 \<le> length s"
  shows "\<exists>ds. posixc_itoa x s = Inr (ds @ CHR 0x00 # drop (Suc (length ds)) s, length ds) \<and>
    0 < length ds \<and> length ds \<le> 10 \<and> (\<forall>c\<in>set ds. is_digit c) \<and> int (numeral_value ds) = x"
proof -
  obtain n where n: "x = int n" "0 < length (digits_rev n)" "length (digits_rev n) \<le> 10"
    using assms(1,2) by (rule int_digits)
  have "posixc_itoa x s = Inr (rev (digits_rev n) @ CHR 0x00 # drop (Suc (length (digits_rev n))) s,
      length (digits_rev n))"
    using posixc_itoa_nat [of n s] n assms(3) by (simp add: INT_MAX_def)
  then show ?thesis using n digits_are_digits numeral_value_digits
    by (intro exI [of _ "rev (digits_rev n)"]) auto
qed

theorem itoa_correct_witness:
  "\<exists>ds. posixc_itoa 4096 (replicate 48 CHR ''x'') =
      Inr (ds @ CHR 0x00 # drop (Suc (length ds)) (replicate 48 CHR ''x''), length ds) \<and>
    0 < length ds \<and> length ds \<le> 10 \<and> (\<forall>c\<in>set ds. is_digit c) \<and> int (numeral_value ds) = 4096"
  by (rule itoa_correct) (simp_all add: INT_MAX_def)

text \<open>\<open>posixc_itoa\<close> writes no digit at all for zero, and for a negative number it writes
  characters below \<open>'0'\<close> and no sign: -12 becomes the string \<open>/.\<close>\<close>

lemma itoa_zero_and_negative:
  "posixc_itoa 0 (c # cs) = Inr (CHR 0x00 # cs, 0) \<and>
   posixc_itoa (-12) (a # b # c # cs) = Inr (CHR ''/'' # CHR ''.'' # CHR 0x00 # cs, 2)"
proof
  show "posixc_itoa 0 (c # cs) = Inr (CHR 0x00 # cs, 0)"
    by (simp add: posixc_itoa_def itoa_digits.simps posixc_reverse_def reverse_loop.simps
        is_int_def INT_MIN_def INT_MAX_def c_int_def)
  have "digit_char (-12) = CHR ''.''" "digit_char (-1) = CHR ''/''"
    "(-12 :: int) sdiv 10 = -1" "(-1 :: int) sdiv 10 = 0"
    by (simp_all add: digit_char_def signed_modulo_int_def signed_divide_int_def char_of_def)
  then have "itoa_digits (-12) (a # b # c # cs) 0 = Inr (CHR ''.'' # CHR ''/'' # c # cs, 2)"
    by (simp add: itoa_digits.simps [of "-12"] itoa_digits.simps [of "-1"] itoa_digits.simps [of 0])
  then show "posixc_itoa (-12) (a # b # c # cs) = Inr (CHR ''/'' # CHR ''.'' # CHR 0x00 # cs, 2)"
    using posixc_reverse_spec [of 2 "CHR ''.'' # CHR ''/'' # c # cs"]
    by (simp add: posixc_itoa_def INT_MAX_def)
qed

text \<open>\<open>posixc_itoa_padding_zeros\<close> writes the digits with leading zeros up to the requested width,
  and returns the width of the whole numeral, zeros included.\<close>

lemma itoa_padding_correct:
  assumes "0 \<le> x" "x \<le> INT_MAX" "length (digits_rev (nat x)) \<le> d" "d < length s" "int d \<le> INT_MAX"
  shows "posixc_itoa_padding_zeros x s (int d) =
      Inr (replicate (d - length (digits_rev (nat x))) (CHR ''0'') @ rev (digits_rev (nat x)) @
           CHR 0x00 # drop (Suc d) s, d)"
  using assms by (rule itoa_padding_ok)

lemma itoa_padding_correct_example:
  "posixc_itoa_padding_zeros 0 (replicate 8 CHR ''x'') 3 = Inr (''000'' @ CHR 0x00 # ''xxxx'', 3)"
proof -
  have "digits_rev 0 = []" by (subst digits_rev.simps) simp
  then show ?thesis using itoa_padding_correct [of 0 3 "replicate 8 CHR ''x''"]
    by (simp add: INT_MAX_def numeral_eq_Suc)
qed

end
