(* ===== verification/Floatstr.thy ===== *)
theory Floatstr
  imports Complex_Main Utils
begin

text \<open>
  The conversions of \<open>float\<close> and \<open>double\<close> to decimal text of \<open>src/common/utils.c\<close>. A finite floating-point
  number is a rational number; every operation computes the exact result and rounds it to the
  nearest number with a significand of 24 bits (\<open>float\<close>) or 53 bits (\<open>double\<close>), ties to even. Exponents
  are unbounded: overflow to infinity, subnormal numbers and NaN are not modelled. \<open>pow(10, d)\<close> is taken to
  be the rounded power.

  A conversion to \<open>int\<close> cuts the fraction; a value outside the range of \<open>int\<close> is undefined in C
  (\<open>Int_Overflow\<close>).
\<close>

section \<open>Rounding\<close>

fun ilog2 :: "nat \<Rightarrow> nat" where
  "ilog2 n = (if n < 2 then 0 else Suc (ilog2 (n div 2)))"

declare ilog2.simps [simp del]

definition pow2 :: "int \<Rightarrow> rat" where
  "pow2 e = (if 0 \<le> e then 2 ^ nat e else 1 / 2 ^ nat (- e))"

text \<open>The exponent of the leading bit of \<open>x\<close>, for \<open>x \<noteq> 0\<close>.\<close>

definition rat_exponent :: "rat \<Rightarrow> int" where
  "rat_exponent x =
     (let (a, b) = quotient_of \<bar>x\<bar>; k = int (ilog2 (nat a)) - int (ilog2 (nat b)) in
      if pow2 k \<le> \<bar>x\<bar> then k else k - 1)"

definition round_even :: "rat \<Rightarrow> int" where
  "round_even x =
     (let f = \<lfloor>x\<rfloor>; r = x - of_int f in
      if r < 1 / 2 \<or> r = 1 / 2 \<and> even f then f else f + 1)"

definition rnd :: "nat \<Rightarrow> rat \<Rightarrow> rat" where
  "rnd p x =
     (if x = 0 then 0
      else let u = pow2 (rat_exponent x - (int p - 1)) in of_int (round_even (x / u)) * u)"

definition rnd_float :: "rat \<Rightarrow> rat" where "rnd_float = rnd 24"

definition rnd_double :: "rat \<Rightarrow> rat" where "rnd_double = rnd 53"

definition to_int :: "rat \<Rightarrow> int res" where
  "to_int x = c_int (if 0 \<le> x then \<lfloor>x\<rfloor> else \<lceil>x\<rceil>)"

definition pow10 :: "int \<Rightarrow> rat" where
  "pow10 d = rnd_double (if 0 \<le> d then 10 ^ nat d else 1 / 10 ^ nat (- d))"

section \<open>Conversions\<close>

text \<open>\<open>res[i] = '.'; part = part * pow(10, afterpoint); posixc_itoa_padding_zeros((int)part, res + i + 1, afterpoint);\<close>
  where \<open>mul\<close> is the rounding of the product.\<close>

definition put_fraction :: "(rat \<Rightarrow> rat) \<Rightarrow> rat \<Rightarrow> char list \<Rightarrow> nat \<Rightarrow> int \<Rightarrow> char list res" where
  "put_fraction mul part res i afterpoint =
     bindE (wr res i (CHR ''.'')) (\<lambda>res.
     bindE (to_int (mul (part * pow10 afterpoint))) (\<lambda>k.
     bindE (posixc_itoa_padding_zeros k (drop (i + 1) res) afterpoint) (\<lambda>(tl, _).
     Inr (take (i + 1) res @ tl))))"

text \<open>The float product is computed in \<open>double\<close> and stored in a \<open>float\<close>.\<close>

definition float_product :: "rat \<Rightarrow> rat" where
  "float_product x = rnd_float (rnd_double x)"

definition posixc_ftoa :: "rat \<Rightarrow> char list \<Rightarrow> int \<Rightarrow> (char list \<times> int) res" where
  "posixc_ftoa n res afterpoint =
     bindE (to_int n) (\<lambda>ipart.
     let fpart = rnd_float (n - rnd_float (of_int ipart)) in
     bindE (posixc_itoa ipart res) (\<lambda>(res, i).
     bindE (if afterpoint \<noteq> 0 then put_fraction float_product fpart res i afterpoint else Inr res) (\<lambda>res.
     bindE (c_int (int i + afterpoint + 1)) (\<lambda>r. Inr (res, r)))))"

definition posixc_ftoa_within_given_bytes :: "rat \<Rightarrow> char list \<Rightarrow> int \<Rightarrow> int \<Rightarrow> (char list \<times> int) res" where
  "posixc_ftoa_within_given_bytes n res afterpoint maxbytes =
     bindE (to_int n) (\<lambda>ipart.
     let fpart = rnd_float (n - rnd_float (of_int ipart)) in
     bindE (posixc_itoa ipart res) (\<lambda>(res, i).
     bindE (c_int (int i + afterpoint + 1)) (\<lambda>sum.
     bindE (if sum > maxbytes then c_int (maxbytes - int i - 1) else Inr afterpoint) (\<lambda>afterpoint.
     bindE (if afterpoint \<noteq> 0 then put_fraction float_product fpart res i afterpoint else Inr res) (\<lambda>res.
     bindE (c_int (int i + afterpoint + 1)) (\<lambda>r. Inr (res, r)))))))"

definition posixc_dtoa :: "rat \<Rightarrow> char list \<Rightarrow> int \<Rightarrow> (char list \<times> int) res" where
  "posixc_dtoa n res afterpoint =
     bindE (to_int n) (\<lambda>ipart.
     let dpart = rnd_double (n - rnd_double (of_int ipart)) in
     bindE (posixc_itoa ipart res) (\<lambda>(res, i).
     bindE (if afterpoint \<noteq> 0 then put_fraction rnd_double dpart res i afterpoint else Inr res) (\<lambda>res.
     bindE (c_int (int i + afterpoint + 1)) (\<lambda>r. Inr (res, r)))))"

definition posixc_dtoa_within_given_bytes :: "rat \<Rightarrow> char list \<Rightarrow> int \<Rightarrow> int \<Rightarrow> (char list \<times> int) res" where
  "posixc_dtoa_within_given_bytes n res afterpoint maxbytes =
     bindE (to_int n) (\<lambda>ipart.
     let dpart = rnd_double (n - rnd_double (of_int ipart)) in
     bindE (posixc_itoa ipart res) (\<lambda>(res, i).
     bindE (c_int (int i + afterpoint + 1)) (\<lambda>sum.
     bindE (if sum > maxbytes then c_int (maxbytes - int i - 1) else Inr afterpoint) (\<lambda>afterpoint.
     bindE (if afterpoint \<noteq> 0 then put_fraction rnd_double dpart res i afterpoint else Inr res) (\<lambda>res.
     bindE (c_int (int i + afterpoint + 1)) (\<lambda>r. Inr (res, r)))))))"

section \<open>The text\<close>

text \<open>The decimal text with \<open>ip\<close> before the point and \<open>k\<close>, with leading zeros, in \<open>d\<close> places behind it, and what
  the conversions print: the same, but no digit before the point when \<open>ip\<close> is 0, since \<open>posixc_itoa\<close>
  writes nothing for 0.\<close>

definition decimal_text :: "nat \<Rightarrow> nat \<Rightarrow> nat \<Rightarrow> char list" where
  "decimal_text ip k d = (if ip = 0 then [CHR ''0''] else rev (digits_rev ip)) @ CHR ''.'' #
     replicate (d - length (digits_rev k)) (CHR ''0'') @ rev (digits_rev k)"

definition printed_text :: "nat \<Rightarrow> nat \<Rightarrow> nat \<Rightarrow> char list" where
  "printed_text ip k d = rev (digits_rev ip) @ CHR ''.'' # replicate (d - length (digits_rev k)) (CHR ''0'') @
     rev (digits_rev k)"

lemma printed_text_length: "length (digits_rev k) \<le> d \<Longrightarrow>
    length (printed_text ip k d) = length (digits_rev ip) + d + 1"
  by (simp add: printed_text_def)

lemma printed_decimal: "0 < ip \<Longrightarrow> printed_text ip k d = decimal_text ip k d"
  by (simp add: printed_text_def decimal_text_def)

lemma printed_below_one: "decimal_text 0 k d = CHR ''0'' # printed_text 0 k d"
  by (simp add: printed_text_def decimal_text_def) (subst digits_rev.simps, simp)

lemma printed_text_no_nul: "CHR 0x00 \<notin> set (printed_text ip k d)"
  using digits_are_digits [of "CHR 0x00"] by (auto simp: printed_text_def is_digit_def byte_of_def)

lemma to_int_range: "to_int x = Inr z \<Longrightarrow> INT_MIN \<le> z \<and> z \<le> INT_MAX"
  by (auto simp: to_int_def c_int_def is_int_def split: if_splits)

lemma int_digits_le: "int n \<le> INT_MAX \<Longrightarrow> length (digits_rev n) \<le> 10"
  by (rule length_digits_le) (simp add: INT_MAX_def)

lemma put_fraction_ok:
  assumes k: "to_int (mul (part * pow10 (int d))) = Inr (int k)" "length (digits_rev k) \<le> d"
    and len: "i + d + 2 \<le> length res" "int d \<le> INT_MAX"
  shows "put_fraction mul part res i (int d) = Inr (take i res @ CHR ''.'' #
    replicate (d - length (digits_rev k)) (CHR ''0'') @ rev (digits_rev k) @ CHR 0x00 # drop (i + d + 2) res)"
proof -
  have "take (i + 1) (res[i := CHR ''.'']) = take i res @ [CHR ''.'']" using len(1)
    by (simp add: take_Suc_conv_app_nth)
  moreover have "drop (Suc d) (drop (i + 1) (res[i := CHR ''.''])) = drop (i + d + 2) res"
    by (simp add: add.commute)
  moreover have "int k \<le> INT_MAX" using to_int_range [OF k(1)] by simp
  ultimately show ?thesis
    using itoa_padding_ok [of "int k" d "drop (i + 1) (res[i := CHR ''.''])"] k len
    by (simp add: put_fraction_def del: drop_drop)
qed

text \<open>The terminator does not fit when the places fill the buffer.\<close>

lemma itoa_padding_overflow:
  assumes "length (digits_rev k) \<le> length s" "int (length s) \<le> INT_MAX"
  shows "posixc_itoa_padding_zeros (int k) s (int (length s)) = Inl Out_Of_Bounds"
proof -
  let ?ds = "digits_rev k" let ?z = "length s - length ?ds"
  have 1: "itoa_digits (int k) s 0 = Inr (?ds @ drop (length ?ds) s, length ?ds)"
    using itoa_digits_spec [of "[]" k s] assms(1) by simp
  have 2: "pad_zeros (?ds @ drop (length ?ds) s) (length ?ds) (int (length s)) =
      Inr (?ds @ replicate ?z (CHR ''0''), length s)"
    using pad_zeros_spec [of ?ds ?z "drop (length ?ds) s"] assms(1) by simp
  have "posixc_reverse (?ds @ replicate ?z (CHR ''0'')) (int (length s)) =
      Inr (rev (?ds @ replicate ?z (CHR ''0'')))"
    using posixc_reverse_spec [of "length s" "?ds @ replicate ?z (CHR ''0'')"] assms by simp
  then show ?thesis using 1 2 assms(1) by (simp add: posixc_itoa_padding_zeros_def)
qed

lemma put_fraction_overflow:
  assumes "to_int (mul (part * pow10 (int d))) = Inr (int k)" "length (digits_rev k) \<le> d"
    and "length res = i + d + 1" "int d \<le> INT_MAX"
  shows "put_fraction mul part res i (int d) = Inl Out_Of_Bounds"
  using itoa_padding_overflow [of k "drop (i + 1) (res[i := CHR ''.''])"] assms
  by (simp add: put_fraction_def)

text \<open>The integer part is written first, and the fraction after it.\<close>

lemma put_fraction_text:
  assumes n: "length (digits_rev ip) + d + 2 \<le> length res"
    and k: "to_int (mul (part * pow10 (int d))) = Inr (int k)" "length (digits_rev k) \<le> d" "int d \<le> INT_MAX"
  shows "put_fraction mul part (rev (digits_rev ip) @ CHR 0x00 # drop (Suc (length (digits_rev ip))) res)
      (length (digits_rev ip)) (int d) =
    Inr (printed_text ip k d @ CHR 0x00 # drop (length (digits_rev ip) + d + 2) res)"
proof -
  let ?i = "length (digits_rev ip)"
  let ?r = "rev (digits_rev ip) @ CHR 0x00 # drop (Suc ?i) res"
  have "drop (?i + d + 2) ?r = drop (?i + d + 2) res" using n by (simp add: add.commute)
  then show ?thesis using put_fraction_ok [of mul part d k ?i ?r] k n by (simp add: printed_text_def)
qed

lemma itoa_prefix:
  assumes "to_int n = Inr (int ip)" "length (digits_rev ip) < length res"
  shows "posixc_itoa (int ip) res = Inr (rev (digits_rev ip) @ CHR 0x00 # drop (Suc (length (digits_rev ip))) res,
    length (digits_rev ip))" "length (digits_rev ip) \<le> 10"
proof -
  show "length (digits_rev ip) \<le> 10" using to_int_range [OF assms(1)] by (intro int_digits_le) simp
  then show "posixc_itoa (int ip) res = Inr (rev (digits_rev ip) @ CHR 0x00 # drop (Suc (length (digits_rev ip))) res,
    length (digits_rev ip))" using assms(2) by (intro posixc_itoa_nat) (simp_all add: INT_MAX_def)
qed

lemma small_sum: "i \<le> 10 \<Longrightarrow> d \<le> 1000 \<Longrightarrow> c_int (int i + int d + 1) = Inr (int i + int d + 1)"
  by (simp add: c_int_def is_int_def INT_MIN_def INT_MAX_def)

text \<open>The four conversions, for a number of at least 0 whose fraction gives \<open>k\<close>.\<close>

definition ftoa_fraction :: "rat \<Rightarrow> nat \<Rightarrow> nat \<Rightarrow> int res" where
  "ftoa_fraction n ip d = to_int (float_product (rnd_float (n - rnd_float (of_int (int ip))) * pow10 (int d)))"

definition dtoa_fraction :: "rat \<Rightarrow> nat \<Rightarrow> nat \<Rightarrow> int res" where
  "dtoa_fraction n ip d = to_int (rnd_double (rnd_double (n - rnd_double (of_int (int ip))) * pow10 (int d)))"

lemma ftoa_ok:
  assumes "to_int n = Inr (int ip)" "ftoa_fraction n ip d = Inr (int k)" "length (digits_rev k) \<le> d"
    and "0 < d" "d \<le> 1000" "length (digits_rev ip) + d + 2 \<le> length res"
  shows "posixc_ftoa n res (int d) = Inr (printed_text ip k d @ CHR 0x00 # drop (length (digits_rev ip) + d + 2) res,
    int (length (printed_text ip k d)))"
  using assms itoa_prefix [OF assms(1), of res] small_sum [of "length (digits_rev ip)" d]
    put_fraction_text [OF assms(6), of float_product _ k] printed_text_length [OF assms(3)]
  by (simp add: posixc_ftoa_def ftoa_fraction_def INT_MAX_def)

lemma dtoa_ok:
  assumes "to_int n = Inr (int ip)" "dtoa_fraction n ip d = Inr (int k)" "length (digits_rev k) \<le> d"
    and "0 < d" "d \<le> 1000" "length (digits_rev ip) + d + 2 \<le> length res"
  shows "posixc_dtoa n res (int d) = Inr (printed_text ip k d @ CHR 0x00 # drop (length (digits_rev ip) + d + 2) res,
    int (length (printed_text ip k d)))"
  using assms itoa_prefix [OF assms(1), of res] small_sum [of "length (digits_rev ip)" d]
    put_fraction_text [OF assms(6), of rnd_double _ k] printed_text_length [OF assms(3)]
  by (simp add: posixc_dtoa_def dtoa_fraction_def INT_MAX_def)

text \<open>A limit only cuts the number of places.\<close>

lemma cut_places:
  assumes "i < mb" "mb \<le> 1000"
  shows "(if int i + int d + 1 > int mb then c_int (int mb - int i - 1) else Inr (int d)) =
    Inr (int (min d (mb - i - 1)))"
proof -
  have "c_int (int mb - int i - 1) = Inr (int mb - int i - 1)"
    using assms by (simp add: c_int_def is_int_def INT_MIN_def INT_MAX_def)
  then show ?thesis using assms(1) by (auto simp: min_def of_nat_diff)
qed

lemma ftoa_within:
  assumes "to_int n = Inr (int ip)" "length (digits_rev ip) < length res" "length (digits_rev ip) < mb" "mb \<le> 1000" "d \<le> 1000"
  shows "posixc_ftoa_within_given_bytes n res (int d) (int mb) =
    posixc_ftoa n res (int (min d (mb - length (digits_rev ip) - 1)))"
proof -
  note it = itoa_prefix [OF assms(1,2)]
  show ?thesis unfolding posixc_ftoa_within_given_bytes_def posixc_ftoa_def
    using it(1) small_sum [OF it(2) assms(5)]
    by (simp only: assms(1) bindE_simps Let_def it prod.case cut_places [OF assms(3,4)])
qed

lemma dtoa_within:
  assumes "to_int n = Inr (int ip)" "length (digits_rev ip) < length res" "length (digits_rev ip) < mb" "mb \<le> 1000" "d \<le> 1000"
  shows "posixc_dtoa_within_given_bytes n res (int d) (int mb) =
    posixc_dtoa n res (int (min d (mb - length (digits_rev ip) - 1)))"
proof -
  note it = itoa_prefix [OF assms(1,2)]
  show ?thesis unfolding posixc_dtoa_within_given_bytes_def posixc_dtoa_def
    using it(1) small_sum [OF it(2) assms(5)]
    by (simp only: assms(1) bindE_simps Let_def it prod.case cut_places [OF assms(3,4)])
qed

text \<open>With places that fill the buffer exactly, the terminator is stored behind it.\<close>

lemma dtoa_overflow:
  assumes "to_int n = Inr (int ip)" "dtoa_fraction n ip d = Inr (int k)" "length (digits_rev k) \<le> d"
    and "0 < d" "length res = length (digits_rev ip) + d + 1" "d \<le> 1000"
  shows "posixc_dtoa n res (int d) = Inl Out_Of_Bounds"
  using assms itoa_prefix [OF assms(1), of res]
    put_fraction_overflow [of rnd_double _ d k "rev (digits_rev ip) @ CHR 0x00 # drop (Suc (length (digits_rev ip))) res"]
  by (simp add: posixc_dtoa_def dtoa_fraction_def INT_MAX_def)

text \<open>Without places the result counts one byte more than the text has.\<close>

lemma dtoa_no_places:
  assumes "to_int n = Inr (int ip)" "length (digits_rev ip) < length res"
  shows "posixc_dtoa n res 0 = Inr (rev (digits_rev ip) @ CHR 0x00 # drop (Suc (length (digits_rev ip))) res,
    int (length (digits_rev ip)) + 1)"
  using itoa_prefix [OF assms] assms(1) small_sum [of "length (digits_rev ip)" 0]
  by (simp add: posixc_dtoa_def)

text \<open>When no rounding is needed, the digits are those of the number, cut after \<open>d\<close> places.\<close>

lemma dtoa_fraction_exact:
  assumes x: "of_nat ip \<le> x" "x < of_nat ip + 1" and d: "int (10 ^ d) \<le> INT_MAX"
    and exact: "rnd_double (of_nat ip) = of_nat ip" "rnd_double (x - of_nat ip) = x - of_nat ip"
      "rnd_double (10 ^ d) = 10 ^ d" "rnd_double ((x - of_nat ip) * 10 ^ d) = (x - of_nat ip) * 10 ^ d"
  obtains k where "dtoa_fraction x ip d = Inr (int k)" "length (digits_rev k) \<le> d"
    "of_nat ip + of_nat k / 10 ^ d \<le> x" "x < of_nat ip + (of_nat k + 1) / 10 ^ d"
proof -
  let ?y = "(x - of_nat ip) * 10 ^ d" let ?k = "nat \<lfloor>?y\<rfloor>"
  have y: "0 \<le> ?y" "?y < 10 ^ d" using x by simp_all
  have k: "of_nat ?k \<le> ?y" "?y < of_nat ?k + 1" using y(1) floor_correct [of ?y] by (simp_all add: of_nat_nat)
  then have "(of_nat ?k :: rat) < of_nat (10 ^ d)" using y(2) by (simp only: of_nat_power of_nat_numeral)
  then have lt: "?k < 10 ^ d" by (simp only: of_nat_less_iff)
  have "int ?k < int (10 ^ d)" using lt by (simp only: of_nat_less_iff)
  then have range: "INT_MIN \<le> int ?k" "int ?k \<le> INT_MAX" using d by (simp_all add: INT_MIN_def)
  have "dtoa_fraction x ip d = to_int ?y"
    using exact by (simp add: dtoa_fraction_def pow10_def)
  also have "\<dots> = Inr (int ?k)" using y(1) range by (simp add: to_int_def c_int_def is_int_def)
  finally show ?thesis using that [of ?k] length_digits_le [OF lt] k by (simp add: field_simps)
qed

end
