(* ===== verification/Slice.thy ===== *)
theory Slice
  imports Boyermoore Kmp Floatstr
begin

text \<open>
  The byte slices of \<open>src/common/slice.c\<close>: a structure with 48 inline bytes, a pointer to the bytes
  (the own inline bytes or a block from \<open>malloc\<close>) and a size. The memory holds the slices that exist
  by address and the allocated blocks. A byte or a size that was never written is \<open>None\<close>; reading
  it is \<open>Uninitialised\<close>. A pointer into a slice or block that does not exist is \<open>Bad_Pointer\<close>.
  \<open>oom\<close> lists the outcomes of the coming allocations (\<open>True\<close> for failure; success when it is empty).

  \<open>slice_ok m a bs\<close> says that the slice at \<open>a\<close> holds the bytes \<open>bs\<close>.
\<close>

section \<open>Memory\<close>

type_synonym saddr = nat

datatype sptr = Null | Inline_Of saddr | Heap nat

record posixc_slice =
  inlinebuf :: "char option list"
  buf :: sptr
  ssize :: "nat option"

record smem =
  slices :: "saddr \<rightharpoonup> posixc_slice"
  blocks :: "nat \<rightharpoonup> char option list"
  fresh :: nat
  oom :: "bool list"

definition inline_cap :: nat where
  "inline_cap = 48"

definition get_slice :: "smem \<Rightarrow> saddr \<Rightarrow> posixc_slice res" where
  "get_slice m a = (case slices m a of None \<Rightarrow> Inl Bad_Pointer | Some s \<Rightarrow> Inr s)"

definition set_slice :: "smem \<Rightarrow> saddr \<Rightarrow> posixc_slice \<Rightarrow> smem" where
  "set_slice m a s = m\<lparr>slices := (slices m)(a \<mapsto> s)\<rparr>"

definition get_size :: "posixc_slice \<Rightarrow> nat res" where
  "get_size s = (case ssize s of None \<Rightarrow> Inl Uninitialised | Some n \<Rightarrow> Inr n)"

definition malloc :: "smem \<Rightarrow> nat \<Rightarrow> smem \<times> sptr" where
  "malloc m n =
     (if oom m \<noteq> [] \<and> hd (oom m) then (m\<lparr>oom := tl (oom m)\<rparr>, Null)
      else (m\<lparr>blocks := (blocks m)(fresh m \<mapsto> replicate n None), fresh := fresh m + 1,
              oom := tl (oom m)\<rparr>, Heap (fresh m)))"

definition free :: "smem \<Rightarrow> sptr \<Rightarrow> smem res" where
  "free m p = (case p of Null \<Rightarrow> Inr m
     | Inline_Of a \<Rightarrow> Inl Bad_Pointer
     | Heap i \<Rightarrow> if i \<in> dom (blocks m) then Inr (m\<lparr>blocks := (blocks m)(i := None)\<rparr>)
                 else Inl Bad_Pointer)"

definition load_cells :: "smem \<Rightarrow> sptr \<Rightarrow> char option list res" where
  "load_cells m p = (case p of Null \<Rightarrow> Inl Bad_Pointer
     | Inline_Of a \<Rightarrow> bindE (get_slice m a) (\<lambda>s. Inr (inlinebuf s))
     | Heap i \<Rightarrow> (case blocks m i of None \<Rightarrow> Inl Bad_Pointer | Some cs \<Rightarrow> Inr cs))"

definition store_cells :: "smem \<Rightarrow> sptr \<Rightarrow> char option list \<Rightarrow> smem res" where
  "store_cells m p cs = (case p of Null \<Rightarrow> Inl Bad_Pointer
     | Inline_Of a \<Rightarrow> bindE (get_slice m a) (\<lambda>s. Inr (set_slice m a (s\<lparr>inlinebuf := cs\<rparr>)))
     | Heap i \<Rightarrow> if i \<in> dom (blocks m) then Inr (m\<lparr>blocks := (blocks m)(i \<mapsto> cs)\<rparr>)
                 else Inl Bad_Pointer)"

text \<open>\<open>memcpy(dst + pos, src, n)\<close> from cells that were read before.\<close>

definition put_bytes :: "smem \<Rightarrow> sptr \<Rightarrow> nat \<Rightarrow> char option list \<Rightarrow> nat \<Rightarrow> smem res" where
  "put_bytes m dst pos src n =
     bindE (load_cells m dst) (\<lambda>d. bindE (blit d pos src n) (\<lambda>d. store_cells m dst d))"

definition realloc :: "smem \<Rightarrow> sptr \<Rightarrow> nat \<Rightarrow> (smem \<times> sptr) res" where
  "realloc m p n =
     bindE (load_cells m p) (\<lambda>old.
     let (m, q) = malloc m n in
     if q = Null then Inr (m, Null)
     else bindE (put_bytes m q 0 old (min n (length old))) (\<lambda>m.
          bindE (free m p) (\<lambda>m. Inr (m, q))))"

text \<open>Reading the first \<open>n\<close> bytes behind a pointer as characters.\<close>

definition load_bytes :: "smem \<Rightarrow> sptr \<Rightarrow> nat \<Rightarrow> char list res" where
  "load_bytes m p n =
     bindE (load_cells m p) (\<lambda>cs.
     if n \<le> length cs
     then (if None \<in> set (take n cs) then Inl Uninitialised else Inr (map the (take n cs)))
     else Inl Out_Of_Bounds)"

section \<open>Operations\<close>

definition posixc_slice_init :: "smem \<Rightarrow> saddr \<Rightarrow> nat \<Rightarrow> smem res" where
  "posixc_slice_init m a sz =
     bindE (assertE (sz > 0) Assert_Failed) (\<lambda>_.
     bindE (get_slice m a) (\<lambda>s.
     if sz > inline_cap
     then (let (m, p) = malloc m sz in Inr (set_slice m a (s\<lparr>buf := p\<rparr>)))
     else Inr (set_slice m a (s\<lparr>buf := Inline_Of a, ssize := Some sz\<rparr>))))"

definition posixc_slice_destroy :: "smem \<Rightarrow> saddr \<Rightarrow> smem res" where
  "posixc_slice_destroy m a =
     bindE (get_slice m a) (\<lambda>s. bindE (get_size s) (\<lambda>n.
     if n > inline_cap then free m (buf s) else Inr m))"

text \<open>The two loops of \<open>posixc_slice_init_as_aggregation\<close>.\<close>

fun sum_sizes :: "smem \<Rightarrow> saddr list \<Rightarrow> nat \<Rightarrow> nat res" where
  "sum_sizes m [] sz = Inr sz"
| "sum_sizes m (c # cs) sz =
     bindE (get_slice m c) (\<lambda>s. bindE (get_size s) (\<lambda>n. sum_sizes m cs (szt_add sz n)))"

fun copy_parts :: "saddr \<Rightarrow> saddr list \<Rightarrow> nat \<Rightarrow> smem \<Rightarrow> smem res" where
  "copy_parts a [] pos m = Inr m"
| "copy_parts a (c # cs) pos m =
     bindE (get_slice m c) (\<lambda>s. bindE (get_size s) (\<lambda>n.
     bindE (load_cells m (buf s)) (\<lambda>src.
     bindE (get_slice m a) (\<lambda>agg.
     bindE (put_bytes m (buf agg) pos src n) (\<lambda>m. copy_parts a cs (szt_add pos n) m)))))"

definition posixc_slice_init_as_aggregation :: "smem \<Rightarrow> saddr \<Rightarrow> saddr list \<Rightarrow> smem res" where
  "posixc_slice_init_as_aggregation m a parts =
     bindE (sum_sizes m parts 0) (\<lambda>size.
     bindE (posixc_slice_init m a size) (\<lambda>m. copy_parts a parts 0 m))"

text \<open>\<open>int size = strlen(str)\<close>, and \<open>size\<close> converted to \<open>uint64_t\<close> again where it is used.\<close>

definition strlen_int :: "char list \<Rightarrow> int" where
  "strlen_int s = to_int32 (int (length s))"

definition posixc_slice_init_from :: "smem \<Rightarrow> saddr \<Rightarrow> char list \<Rightarrow> smem res" where
  "posixc_slice_init_from m a str =
     (let size = to_u64 (strlen_int str) in
      bindE (posixc_slice_init m a size) (\<lambda>m.
      bindE (get_slice m a) (\<lambda>s. put_bytes m (buf s) 0 (map Some str) size)))"

definition posixc_slice_copy :: "smem \<Rightarrow> saddr \<Rightarrow> saddr \<Rightarrow> smem res" where
  "posixc_slice_copy m dst src =
     bindE (get_slice m src) (\<lambda>sr. bindE (get_size sr) (\<lambda>n.
     bindE (get_slice m dst) (\<lambda>d.
     let (m, p) = (if n < inline_cap then (m, Inline_Of dst) else malloc m n);
         m = set_slice m dst (d\<lparr>ssize := Some n, buf := p\<rparr>) in
     bindE (get_slice m src) (\<lambda>sr.
     bindE (load_cells m (buf sr)) (\<lambda>cs. put_bytes m p 0 cs n)))))"

definition posixc_slice_contains :: "bool \<Rightarrow> smem \<Rightarrow> saddr \<Rightarrow> saddr \<Rightarrow> bool run" where
  "posixc_slice_contains malloc_ok m t p =
     bindR (Some (get_slice m t)) (\<lambda>ts. bindR (Some (get_size ts)) (\<lambda>tn.
     bindR (Some (load_bytes m (buf ts) tn)) (\<lambda>tb.
     bindR (Some (get_slice m p)) (\<lambda>ps. bindR (Some (get_size ps)) (\<lambda>pn.
     bindR (Some (load_bytes m (buf ps) pn)) (\<lambda>pb.
     if pn \<le> 8
     then bindR (posixc_kmp_contains tb tn pb pn) (\<lambda>r. Some (Inr (r \<noteq> None)))
     else bindR (posixc_boyermoore_contains malloc_ok tb tn pb pn) (\<lambda>r. Some (Inr (r \<noteq> None)))))))))"

definition posixc_slice_append :: "smem \<Rightarrow> saddr \<Rightarrow> char list \<Rightarrow> (smem \<times> int) res" where
  "posixc_slice_append m a suffix =
     (let size = to_u64 (strlen_int suffix) in
      bindE (get_slice m a) (\<lambda>s. bindE (get_size s) (\<lambda>n.
      bindE (if buf s = Inline_Of a
             then (if szt_add n size > inline_cap
                   then (let (m, p) = malloc m (szt_add n size);
                             m = set_slice m a (s\<lparr>buf := p\<rparr>) in
                         bindE (put_bytes m p 0 (inlinebuf s) n) (\<lambda>m. Inr (m, True)))
                   else Inr (m, True))
             else bindE (realloc m (buf s) (szt_add n size)) (\<lambda>(m, p).
                  Inr (set_slice m a (s\<lparr>buf := p\<rparr>), p \<noteq> Null))) (\<lambda>(m, ok).
      if \<not> ok then Inr (m, -1)
      else bindE (get_slice m a) (\<lambda>s.
           bindE (put_bytes m (buf s) n (map Some suffix) size) (\<lambda>m.
           bindE (get_slice m a) (\<lambda>s.
           Inr (set_slice m a (s\<lparr>ssize := Some (szt_add n size)\<rparr>), 0))))))))"

text \<open>The functions that return a slice by value build it in a local variable at address \<open>l\<close>, which
  stops to exist when the function returns; the value keeps the pointer. \<open>posixc_itoa\<close> writes the
  first \<open>n + 1\<close> of the inline bytes and no others.\<close>

definition posixc_slice_parse_int :: "saddr \<Rightarrow> int \<Rightarrow> posixc_slice res" where
  "posixc_slice_parse_int l x =
     bindE (posixc_itoa x (replicate inline_cap (CHR 0x00))) (\<lambda>(cs, n).
     Inr \<lparr>inlinebuf = map Some (take (n + 1) cs) @ replicate (inline_cap - (n + 1)) None,
          buf = Inline_Of l, ssize = Some n\<rparr>)"

text \<open>The conversions of \<open>float\<close> and \<open>double\<close> write the bytes up to their terminator.\<close>

definition inline_text :: "char list \<Rightarrow> char option list" where
  "inline_text cs =
     (let n = length (takeWhile (\<lambda>c. c \<noteq> CHR 0x00) cs) + 1 in
      map Some (take n cs) @ replicate (inline_cap - n) None)"

definition posixc_slice_parse_float :: "saddr \<Rightarrow> rat \<Rightarrow> int \<Rightarrow> posixc_slice res" where
  "posixc_slice_parse_float l x afterpoints =
     bindE (posixc_ftoa_within_given_bytes x (replicate inline_cap (CHR 0x00)) afterpoints 48) (\<lambda>(cs, n).
     Inr \<lparr>inlinebuf = inline_text cs, buf = Inline_Of l, ssize = Some (to_u64 n)\<rparr>)"

definition posixc_slice_parse_double :: "saddr \<Rightarrow> rat \<Rightarrow> int \<Rightarrow> posixc_slice res" where
  "posixc_slice_parse_double l x afterpoints =
     bindE (posixc_dtoa_within_given_bytes x (replicate inline_cap (CHR 0x00)) afterpoints 48) (\<lambda>(cs, n).
     Inr \<lparr>inlinebuf = inline_text cs, buf = Inline_Of l, ssize = Some (to_u64 n)\<rparr>)"

section \<open>Well-formed slices\<close>

definition holds :: "smem \<Rightarrow> sptr \<Rightarrow> char list \<Rightarrow> bool" where
  "holds m p bs \<longleftrightarrow>
     (\<exists>cs. load_cells m p = Inr cs \<and> length bs \<le> length cs \<and> take (length bs) cs = map Some bs)"

definition slice_ok :: "smem \<Rightarrow> saddr \<Rightarrow> char list \<Rightarrow> bool" where
  "slice_ok m a bs \<longleftrightarrow> (\<exists>s. slices m a = Some s \<and> ssize s = Some (length bs) \<and>
     length (inlinebuf s) = inline_cap \<and> holds m (buf s) bs \<and>
     (buf s = Inline_Of a \<or> (\<exists>i. buf s = Heap i)))"

text \<open>A slice variable that is declared and not yet initialised, and an allocator whose next block is
  new.\<close>

definition slice_var :: "smem \<Rightarrow> saddr \<Rightarrow> bool" where
  "slice_var m a \<longleftrightarrow> (\<exists>s. slices m a = Some s \<and> length (inlinebuf s) = inline_cap)"

definition mem_ok :: "smem \<Rightarrow> bool" where
  "mem_ok m \<longleftrightarrow> (\<forall>i. i \<in> dom (blocks m) \<longrightarrow> i < fresh m)"

text \<open>The blocks that do not belong to the slice at \<open>a\<close>, and a slice whose bytes are in a block exactly
  when they do not fit inline: the condition under which \<open>posixc_slice_destroy\<close> frees what it must.\<close>

definition other_blocks :: "smem \<Rightarrow> saddr \<Rightarrow> nat \<rightharpoonup> char option list" where
  "other_blocks m a = (case slices m a of None \<Rightarrow> blocks m
     | Some s \<Rightarrow> (case buf s of Heap i \<Rightarrow> (blocks m)(i := None) | _ \<Rightarrow> blocks m))"

definition tidy :: "smem \<Rightarrow> saddr \<Rightarrow> bool" where
  "tidy m a \<longleftrightarrow> (\<exists>s n. slices m a = Some s \<and> ssize s = Some n \<and>
     (if n \<le> inline_cap then buf s = Inline_Of a else (\<exists>i. buf s = Heap i)))"

lemma slice_okE:
  assumes "slice_ok m a bs"
  obtains s cs where "slices m a = Some s" "ssize s = Some (length bs)"
    "length (inlinebuf s) = inline_cap" "load_cells m (buf s) = Inr cs" "length bs \<le> length cs"
    "take (length bs) cs = map Some bs" "buf s = Inline_Of a \<or> (\<exists>i. buf s = Heap i \<and> blocks m i = Some cs)"
  using assms by (fastforce simp: slice_ok_def holds_def load_cells_def split: option.splits)

lemma get_slice_Some [simp]: "slices m a = Some s \<Longrightarrow> get_slice m a = Inr s"
  by (simp add: get_slice_def)

lemma get_size_Some [simp]: "ssize s = Some n \<Longrightarrow> get_size s = Inr n"
  by (simp add: get_size_def)

lemma slices_set_slice [simp]:
  "slices (set_slice m a s) = (slices m)(a \<mapsto> s)" "blocks (set_slice m a s) = blocks m"
  "fresh (set_slice m a s) = fresh m" "oom (set_slice m a s) = oom m"
  by (simp_all add: set_slice_def)

lemma load_cells_simps [simp]:
  "slices m a = Some s \<Longrightarrow> load_cells m (Inline_Of a) = Inr (inlinebuf s)"
  "blocks m i = Some cs \<Longrightarrow> load_cells m (Heap i) = Inr cs"
  by (simp_all add: load_cells_def)

lemma put_inline:
  "slices m a = Some s \<Longrightarrow> n \<le> length src \<Longrightarrow> pos + n \<le> length (inlinebuf s) \<Longrightarrow>
   put_bytes m (Inline_Of a) pos src n =
     Inr (set_slice m a (s\<lparr>inlinebuf := take pos (inlinebuf s) @ take n src @ drop (pos + n) (inlinebuf s)\<rparr>))"
  by (simp add: put_bytes_def store_cells_def)

lemma put_heap:
  "blocks m i = Some cs \<Longrightarrow> n \<le> length src \<Longrightarrow> pos + n \<le> length cs \<Longrightarrow>
   put_bytes m (Heap i) pos src n =
     Inr (m\<lparr>blocks := (blocks m)(i \<mapsto> take pos cs @ take n src @ drop (pos + n) cs)\<rparr>)"
  by (auto simp: put_bytes_def store_cells_def)

lemma malloc_ok:
  "oom m = [] \<Longrightarrow> malloc m n =
     (m\<lparr>blocks := (blocks m)(fresh m \<mapsto> replicate n None), fresh := fresh m + 1, oom := []\<rparr>, Heap (fresh m))"
  by (simp add: malloc_def)

lemma strlen_small: "int (length s) \<le> INT_MAX \<Longrightarrow> to_u64 (strlen_int s) = length s"
  by (simp add: to_u64_def strlen_int_def is_int_def INT_MIN_def INT_MAX_def)

lemma take_append_bytes:
  "take n cs = map Some bs \<Longrightarrow> n = length bs \<Longrightarrow> n \<le> length cs \<Longrightarrow>
   take (n + length xs) (take n cs @ map Some xs @ drop (n + length xs) cs) = map Some (bs @ xs)"
  by simp

section \<open>Initialisation\<close>

lemma slice_init_inline:
  assumes "slice_var m a" "0 < n" "n \<le> inline_cap"
  obtains s where "slices m a = Some s" "length (inlinebuf s) = inline_cap"
    "posixc_slice_init m a n = Inr (set_slice m a (s\<lparr>buf := Inline_Of a, ssize := Some n\<rparr>))"
  using assms by (auto simp: slice_var_def posixc_slice_init_def)

lemma slice_init_from_inline:
  assumes "slice_var m a" "str \<noteq> []" "length str \<le> inline_cap"
  shows "\<exists>m'. posixc_slice_init_from m a str = Inr m' \<and> slice_ok m' a str \<and>
    blocks m' = blocks m \<and> fresh m' = fresh m \<and> oom m' = oom m \<and> tidy m' a \<and>
    other_blocks m' a = blocks m \<and> (\<forall>b. b \<noteq> a \<longrightarrow> slices m' b = slices m b)"
proof -
  have n: "to_u64 (strlen_int str) = length str"
    using assms(3) by (intro strlen_small) (simp add: inline_cap_def INT_MAX_def)
  obtain s where s: "slices m a = Some s" "length (inlinebuf s) = inline_cap"
    "posixc_slice_init m a (length str) =
       Inr (set_slice m a (s\<lparr>buf := Inline_Of a, ssize := Some (length str)\<rparr>))"
    using assms by (auto elim: slice_init_inline)
  let ?m = "set_slice m a (s\<lparr>buf := Inline_Of a, ssize := Some (length str)\<rparr>)"
  have "put_bytes ?m (Inline_Of a) 0 (map Some str) (length str) =
      Inr (set_slice ?m a (s\<lparr>buf := Inline_Of a, ssize := Some (length str),
        inlinebuf := map Some str @ drop (length str) (inlinebuf s)\<rparr>))"
    using s assms(3)
    by (simp add: put_inline [where s = "s\<lparr>buf := Inline_Of a, ssize := Some (length str)\<rparr>"])
  then show ?thesis using s assms(3) n
    by (simp add: posixc_slice_init_from_def slice_ok_def holds_def Let_def tidy_def other_blocks_def)
qed

text \<open>A string that does not fit inline: the bytes are copied to a new block, the size is not
  written.\<close>

lemma slice_init_from_heap:
  assumes "slices m a = Some s" "inline_cap < length str" "int (length str) \<le> INT_MAX" "oom m = []"
  shows "\<exists>m'. posixc_slice_init_from m a str = Inr m' \<and>
    slices m' a = Some (s\<lparr>buf := Heap (fresh m)\<rparr>) \<and> blocks m' (fresh m) = Some (map Some str)"
proof -
  have "0 < length str" using assms(2) by (auto simp: inline_cap_def)
  then have "posixc_slice_init m a (length str) =
      Inr (set_slice (fst (malloc m (length str))) a (s\<lparr>buf := Heap (fresh m)\<rparr>))"
    using assms by (simp add: posixc_slice_init_def malloc_ok)
  then show ?thesis using assms
    by (simp add: posixc_slice_init_from_def strlen_small malloc_ok put_heap)
qed

section \<open>Append\<close>

lemma slice_append_ok:
  assumes ok: "slice_ok m a bs" and len: "int (length bs + length suffix) \<le> INT_MAX"
    and alloc: "oom m = []" and mem: "mem_ok m"
  shows "\<exists>m'. posixc_slice_append m a suffix = Inr (m', 0) \<and> slice_ok m' a (bs @ suffix) \<and>
    (\<forall>b. b \<noteq> a \<longrightarrow> slices m' b = slices m b) \<and> other_blocks m' a = other_blocks m a \<and>
    mem_ok m' \<and> oom m' = [] \<and> (tidy m a \<longrightarrow> tidy m' a)"
proof -
  obtain s cs where s: "slices m a = Some s" "ssize s = Some (length bs)"
    "length (inlinebuf s) = inline_cap" "load_cells m (buf s) = Inr cs" "length bs \<le> length cs"
    "take (length bs) cs = map Some bs" "buf s = Inline_Of a \<or> (\<exists>i. buf s = Heap i \<and> blocks m i = Some cs)"
    using ok by (rule slice_okE)
  have n: "to_u64 (strlen_int suffix) = length suffix" using len by (intro strlen_small) simp
  have sum: "szt_add (length bs) (length suffix) = length bs + length suffix"
    using len by (simp add: INT_MAX_def size_mod_def)
  let ?n = "length bs + length suffix"
  consider (small) "buf s = Inline_Of a" "?n \<le> inline_cap"
    | (grow) "buf s = Inline_Of a" "inline_cap < ?n"
    | (heap) i where "buf s = Heap i" "blocks m i = Some cs" using s(7) by fastforce
  then show ?thesis
  proof cases
    case small
    then have cs: "cs = inlinebuf s" using s(1,4) by simp
    show ?thesis using small s cs n sum mem alloc
      by (simp add: posixc_slice_append_def Let_def put_inline slice_ok_def holds_def
          other_blocks_def tidy_def mem_ok_def)
  next
    case grow
    then have cs: "cs = inlinebuf s" using s(1,4) by simp
    have fresh: "blocks m (fresh m) = None" using mem by (force simp: mem_ok_def)
    show ?thesis using grow s cs n sum alloc mem fresh
      by (simp add: posixc_slice_append_def Let_def malloc_ok put_heap slice_ok_def holds_def
          other_blocks_def tidy_def mem_ok_def fun_upd_idem less_Suc_eq)
  next
    case heap
    then have "i \<noteq> fresh m" using mem by (auto simp: mem_ok_def)
    have fresh: "blocks m (fresh m) = None" using mem by (force simp: mem_ok_def)
    have "realloc m (Heap i) ?n = Inr (m\<lparr>blocks := (blocks m)(fresh m \<mapsto>
        take (min ?n (length cs)) cs @ replicate (?n - min ?n (length cs)) None, i := None),
        fresh := fresh m + 1, oom := []\<rparr>, Heap (fresh m))"
      using heap alloc \<open>i \<noteq> fresh m\<close> by (auto simp: realloc_def Let_def malloc_ok put_heap free_def)
    then show ?thesis using heap s n sum \<open>i \<noteq> fresh m\<close> mem fresh
      by (simp add: posixc_slice_append_def Let_def put_heap slice_ok_def holds_def
          other_blocks_def tidy_def mem_ok_def fun_upd_idem fun_upd_twist less_Suc_eq split: if_splits)
  qed
qed

text \<open>A sequence of appends that ignores the return values.\<close>

definition append_all :: "saddr \<Rightarrow> char list list \<Rightarrow> smem \<Rightarrow> smem res" where
  "append_all a sufs m = foldE (\<lambda>suf m. bindE (posixc_slice_append m a suf) (\<lambda>(m, r). Inr m)) sufs m"

lemma append_all_ok:
  assumes "slice_ok m a bs" "int (length bs + length (concat sufs)) \<le> INT_MAX" "oom m = []" "mem_ok m"
    "tidy m a"
  shows "\<exists>m'. append_all a sufs m = Inr m' \<and> slice_ok m' a (bs @ concat sufs) \<and>
    other_blocks m' a = other_blocks m a \<and> tidy m' a"
  using assms
proof (induction sufs arbitrary: m bs)
  case Nil
  then show ?case by (simp add: append_all_def)
next
  case (Cons suf sufs)
  obtain m1 where m1: "posixc_slice_append m a suf = Inr (m1, 0)" "slice_ok m1 a (bs @ suf)"
    "other_blocks m1 a = other_blocks m a" "mem_ok m1" "oom m1 = []" "tidy m1 a"
    using slice_append_ok [of m a bs suf] Cons.prems by auto
  have "int (length (bs @ suf) + length (concat sufs)) \<le> INT_MAX" using Cons.prems(2) by simp
  from Cons.IH [OF m1(2) this m1(5,4,6)] m1(1,3) show ?case by (simp add: append_all_def)
qed

lemma slice_destroy_ok:
  assumes "tidy m a" "slice_ok m a bs"
  shows "\<exists>m'. posixc_slice_destroy m a = Inr m' \<and> blocks m' = other_blocks m a"
proof -
  obtain s cs where "slices m a = Some s" "ssize s = Some (length bs)"
    "load_cells m (buf s) = Inr cs" using assms(2) by (rule slice_okE)
  then show ?thesis using assms(1)
    by (auto simp: tidy_def posixc_slice_destroy_def other_blocks_def free_def load_cells_def
        split: if_splits option.splits)
qed

section \<open>Reading, copying and joining\<close>

lemma slice_ok_load:
  assumes "slice_ok m a bs"
  obtains s where "slices m a = Some s" "ssize s = Some (length bs)"
    "load_bytes m (buf s) (length bs) = Inr bs"
proof -
  obtain s cs where "slices m a = Some s" "ssize s = Some (length bs)"
    "load_cells m (buf s) = Inr cs" "length bs \<le> length cs" "take (length bs) cs = map Some bs"
    using assms by (rule slice_okE)
  then show thesis by (intro that [of s]) (auto simp: load_bytes_def comp_def)
qed

text \<open>Writing the slice at \<open>a\<close> leaves the bytes of the others alone.\<close>

lemma slice_ok_frame:
  assumes "slice_ok m b bs" "b \<noteq> a"
    and "slices m' b = slices m b" "\<And>i cs. blocks m i = Some cs \<Longrightarrow> blocks m' i = Some cs"
  shows "slice_ok m' b bs"
proof -
  obtain s cs where s: "slices m b = Some s" "ssize s = Some (length bs)"
    "length (inlinebuf s) = inline_cap" "load_cells m (buf s) = Inr cs" "length bs \<le> length cs"
    "take (length bs) cs = map Some bs" "buf s = Inline_Of b \<or> (\<exists>i. buf s = Heap i \<and> blocks m i = Some cs)"
    using assms(1) by (rule slice_okE)
  then have "load_cells m' (buf s) = Inr cs" using assms(3,4) by auto
  then show ?thesis using s assms(3) by (auto simp: slice_ok_def holds_def)
qed

lemma slice_copy_ok:
  assumes src: "slice_ok m src bs" and dst: "slice_var m dst" "dst \<noteq> src"
    and alloc: "oom m = []" and mem: "mem_ok m"
  shows "\<exists>m'. posixc_slice_copy m dst src = Inr m' \<and> slice_ok m' dst bs \<and> slice_ok m' src bs \<and>
    (length bs < inline_cap \<longrightarrow> blocks m' = blocks m) \<and>
    (inline_cap \<le> length bs \<longrightarrow> blocks m' = (blocks m)(fresh m \<mapsto> map Some bs))"
proof -
  obtain s cs where s: "slices m src = Some s" "ssize s = Some (length bs)"
    "length (inlinebuf s) = inline_cap" "load_cells m (buf s) = Inr cs" "length bs \<le> length cs"
    "take (length bs) cs = map Some bs"
    "buf s = Inline_Of src \<or> (\<exists>i. buf s = Heap i \<and> blocks m i = Some cs)"
    using src by (rule slice_okE)
  obtain d where d: "slices m dst = Some d" "length (inlinebuf d) = inline_cap"
    using dst(1) by (auto simp: slice_var_def)
  have fresh: "\<And>i x. blocks m i = Some x \<Longrightarrow> i \<noteq> fresh m" using mem by (auto simp: mem_ok_def)
  have load: "load_cells m' (buf s) = Inr cs"
    if "slices m' src = Some s" "\<And>i x. blocks m i = Some x \<Longrightarrow> blocks m' i = Some x" for m'
    using s(1,4,7) that by auto
  show ?thesis
  proof (cases "length bs < inline_cap")
    case True
    then show ?thesis using s d dst(2)
      by (simp add: posixc_slice_copy_def Let_def load put_inline)
         (auto simp: slice_ok_def holds_def load)
  next
    case False
    moreover have "buf s = Inline_Of src \<Longrightarrow> cs = inlinebuf s" using s(1,4) by simp
    ultimately show ?thesis using s d dst(2) alloc fresh
      by (simp add: posixc_slice_copy_def Let_def malloc_ok load put_heap)
         (auto simp: slice_ok_def holds_def)
  qed
qed

lemma sum_sizes_ok:
  "list_all2 (slice_ok m) parts bss \<Longrightarrow> n + length (concat bss) < size_mod \<Longrightarrow>
   sum_sizes m parts n = Inr (n + length (concat bss))"
proof (induction parts bss arbitrary: n rule: list_all2_induct)
  case (Cons c cs b bss)
  obtain s where "slices m c = Some s" "ssize s = Some (length b)"
    using Cons.hyps(1) by (rule slice_ok_load)
  then show ?case using Cons.IH [of "n + length b"] Cons.prems by simp
qed simp

text \<open>The loop that copies the parts: the first \<open>pos\<close> inline bytes of the result hold \<open>done\<close>.\<close>

lemma copy_parts_ok:
  assumes "list_all2 (slice_ok m) parts bss" "a \<notin> set parts"
    and "slices m a = Some s" "buf s = Inline_Of a" "length (inlinebuf s) = inline_cap"
    and "length pre + length (concat bss) \<le> inline_cap" "take (length pre) (inlinebuf s) = map Some pre"
  shows "\<exists>m' s'. copy_parts a parts (length pre) m = Inr m' \<and> slices m' a = Some s' \<and>
    buf s' = Inline_Of a \<and> ssize s' = ssize s \<and> length (inlinebuf s') = inline_cap \<and>
    take (length (pre @ concat bss)) (inlinebuf s') = map Some (pre @ concat bss)"
  using assms
proof (induction parts arbitrary: m bss s pre)
  case Nil
  then show ?case by simp
next
  case (Cons c cs)
  obtain b bss' where bss: "bss = b # bss'" "slice_ok m c b" "list_all2 (slice_ok m) cs bss'"
    using Cons.prems(1) by (auto simp: list_all2_Cons1)
  obtain t src where t: "slices m c = Some t" "ssize t = Some (length b)"
    "load_cells m (buf t) = Inr src" "length b \<le> length src" "take (length b) src = map Some b"
    using bss(2) by (rule slice_okE)
  let ?s = "s\<lparr>inlinebuf := map Some (pre @ b) @ drop (length (pre @ b)) (inlinebuf s)\<rparr>"
  have fit: "length pre + length b \<le> inline_cap" "length pre + length b < size_mod"
    using Cons.prems(6) bss(1) by (simp_all add: inline_cap_def size_mod_def)
  have put: "put_bytes m (Inline_Of a) (length pre) src (length b) = Inr (set_slice m a ?s)"
    using put_inline [OF Cons.prems(3) t(4), of "length pre"] fit Cons.prems(5,7) t(5) by simp
  have "list_all2 (slice_ok (set_slice m a ?s)) cs bss'"
  proof (rule list.rel_mono_strong [OF bss(3)])
    fix z y assume z: "z \<in> set cs" "slice_ok m z y"
    then have "z \<noteq> a" using Cons.prems(2) by auto
    then show "slice_ok (set_slice m a ?s) z y" by (intro slice_ok_frame [OF z(2)]) simp_all
  qed
  moreover have "slices (set_slice m a ?s) a = Some ?s" by simp
  ultimately obtain m' s' where "copy_parts a cs (length (pre @ b)) (set_slice m a ?s) = Inr m'"
    "slices m' a = Some s'" "buf s' = Inline_Of a" "ssize s' = ssize s"
    "length (inlinebuf s') = inline_cap"
    "take (length ((pre @ b) @ concat bss')) (inlinebuf s') = map Some ((pre @ b) @ concat bss')"
    using Cons.IH [of "set_slice m a ?s" bss' ?s "pre @ b"] Cons.prems fit bss(1) by auto
  then show ?case using put t Cons.prems(3,4) fit bss(1) by simp
qed

section \<open>Properties\<close>

text \<open>C11: as long as no allocation fails, a slice built from a non-empty string of at most 48 bytes and
  extended by any number of appends, to at most \<open>INT_MAX\<close> bytes in all, holds the strings one after the
  other, wherever its bytes are, and destroying it leaves exactly the blocks that existed before.
  (After a failed \<open>realloc\<close> the block is lost, see \<open>slice_append_no_memory\<close>.)\<close>

theorem slice_lifecycle:
  assumes "slice_var m a" "str \<noteq> []" "length str \<le> inline_cap"
    and "int (length str + length (concat sufs)) \<le> INT_MAX" "oom m = []" "mem_ok m"
  shows "\<exists>m1 m2. bindE (posixc_slice_init_from m a str) (append_all a sufs) = Inr m1 \<and>
    slice_ok m1 a (str @ concat sufs) \<and> posixc_slice_destroy m1 a = Inr m2 \<and> blocks m2 = blocks m"
proof -
  obtain m0 where m0: "posixc_slice_init_from m a str = Inr m0" "slice_ok m0 a str" "tidy m0 a"
    "other_blocks m0 a = blocks m" "mem_ok m0" "oom m0 = []"
    using slice_init_from_inline [OF assms(1-3)] assms(5,6) by (auto simp: mem_ok_def)
  obtain m1 where m1: "append_all a sufs m0 = Inr m1" "slice_ok m1 a (str @ concat sufs)"
    "other_blocks m1 a = other_blocks m0 a" "tidy m1 a"
    using append_all_ok [OF m0(2) assms(4) m0(6,5,3)] by blast
  then show ?thesis using slice_destroy_ok [OF m1(4,2)] m0(1,4) by auto
qed

definition empty_slice :: posixc_slice where
  "empty_slice = \<lparr>inlinebuf = replicate inline_cap None, buf = Null, ssize = None\<rparr>"

definition two_vars :: smem where
  "two_vars = \<lparr>slices = [0 \<mapsto> empty_slice, 1 \<mapsto> empty_slice], blocks = Map.empty, fresh = 0, oom = []\<rparr>"

lemma two_vars_ok [simp]: "slice_var two_vars 0" "slice_var two_vars (Suc 0)" "mem_ok two_vars"
  "oom two_vars = []" "blocks two_vars = Map.empty" "slices two_vars 0 = Some empty_slice"
  "slices two_vars (Suc 0) = Some empty_slice"
  by (simp_all add: slice_var_def two_vars_def empty_slice_def mem_ok_def)

text \<open>Slices that hold given bytes inline at address 0, and at address 2 in block 0.\<close>

definition inline_slice :: "saddr \<Rightarrow> char list \<Rightarrow> posixc_slice" where
  "inline_slice a bs = \<lparr>inlinebuf = map Some bs @ replicate (inline_cap - length bs) None,
     buf = Inline_Of a, ssize = Some (length bs)\<rparr>"

definition demo :: "char list \<Rightarrow> char list \<Rightarrow> smem" where
  "demo bs hs = \<lparr>slices = [0 \<mapsto> inline_slice 0 bs, 1 \<mapsto> empty_slice,
       2 \<mapsto> empty_slice\<lparr>buf := Heap 0, ssize := Some (length hs)\<rparr>],
     blocks = [0 \<mapsto> map Some hs], fresh = 1, oom = []\<rparr>"

lemma demo_ok [simp]:
  "length bs \<le> inline_cap \<Longrightarrow> slice_ok (demo bs hs) 0 bs" "slice_ok (demo bs hs) 2 hs"
  "slice_var (demo bs hs) 1" "slice_var (demo bs hs) (Suc 0)" "oom (demo bs hs) = []"
  "mem_ok (demo bs hs)"
  by (simp_all add: demo_def inline_slice_def slice_ok_def holds_def load_cells_def slice_var_def
      mem_ok_def empty_slice_def get_slice_def)

theorem slice_lifecycle_witness:
  "\<exists>m1 m2. bindE (posixc_slice_init_from two_vars 0 ''log'')
      (append_all 0 [replicate 46 CHR ''x'', ''end'']) = Inr m1 \<and>
    slice_ok m1 0 (''log'' @ replicate 46 CHR ''x'' @ ''end'') \<and>
    posixc_slice_destroy m1 0 = Inr m2 \<and> blocks m2 = Map.empty"
  using slice_lifecycle [of two_vars 0 "''log''" "[replicate 46 CHR ''x'', ''end'']"]
  by (simp add: inline_cap_def INT_MAX_def)

text \<open>A string longer than 48 bytes is copied to a block, but the size of the slice stays
  unwritten: a slice that is initialised and destroyed reads an indeterminate size.\<close>

lemma slice_init_from_large:
  assumes "slices m a = Some s" "ssize s = None" "inline_cap < length str"
    "int (length str) \<le> INT_MAX" "oom m = []"
  shows "\<exists>m' p. posixc_slice_init_from m a str = Inr m' \<and> slices m' a = Some (s\<lparr>buf := p\<rparr>) \<and>
    load_bytes m' p (length str) = Inr str \<and> posixc_slice_destroy m' a = Inl Uninitialised"
proof -
  obtain m' where "posixc_slice_init_from m a str = Inr m'"
    "slices m' a = Some (s\<lparr>buf := Heap (fresh m)\<rparr>)" "blocks m' (fresh m) = Some (map Some str)"
    using slice_init_from_heap [OF assms(1,3,4,5)] by blast
  then show ?thesis using assms(2)
    by (intro exI [of _ m'] exI [of _ "Heap (fresh m)"])
       (auto simp: load_bytes_def comp_def posixc_slice_destroy_def get_size_def)
qed

text \<open>\<open>posixc_slice_copy\<close> to another slice gives a slice with the same bytes and keeps the source.
  At exactly 48 bytes the copy gets a block that \<open>posixc_slice_destroy\<close> does not free.\<close>

lemma slice_copy_correct:
  assumes "slice_ok m src bs" "slice_var m dst" "dst \<noteq> src" "oom m = []" "mem_ok m"
  shows "\<exists>m'. posixc_slice_copy m dst src = Inr m' \<and> slice_ok m' dst bs \<and> slice_ok m' src bs \<and>
    (length bs = inline_cap \<longrightarrow> posixc_slice_destroy m' dst = Inr m' \<and> blocks m' \<noteq> blocks m)"
proof -
  obtain m' where m': "posixc_slice_copy m dst src = Inr m'" "slice_ok m' dst bs" "slice_ok m' src bs"
    "inline_cap \<le> length bs \<longrightarrow> blocks m' = (blocks m)(fresh m \<mapsto> map Some bs)"
    using slice_copy_ok [OF assms] by blast
  obtain s where s: "slices m' dst = Some s" "ssize s = Some (length bs)"
    using m'(2) by (rule slice_ok_load)
  have "blocks m (fresh m) = None" using assms(5) by (force simp: mem_ok_def)
  then have "(blocks m)(fresh m \<mapsto> map Some bs) \<noteq> blocks m" by (metis fun_upd_same option.distinct(1))
  then show ?thesis using m' s by (simp add: posixc_slice_destroy_def)
qed

lemma slice_copy_correct_example:
  "\<exists>m'. posixc_slice_copy (demo (replicate 48 CHR ''x'') []) 1 0 = Inr m' \<and>
    slice_ok m' 1 (replicate 48 CHR ''x'') \<and> posixc_slice_destroy m' 1 = Inr m' \<and>
    blocks m' \<noteq> blocks (demo (replicate 48 CHR ''x'') [])"
  using slice_copy_correct [of "demo (replicate 48 CHR ''x'') []" 0 "replicate 48 CHR ''x''" 1]
  by (fastforce simp: inline_cap_def)

text \<open>An append that needs more memory for a slice in a block and does not get it returns \<open>-1\<close>,
  forgets the pointer, and leaves the block allocated.\<close>

lemma slice_append_no_memory:
  assumes "slices m a = Some s" "ssize s = Some n" "buf s = Heap i" "blocks m i = Some cs"
    "oom m = True # rest"
  shows "\<exists>m'. posixc_slice_append m a suffix = Inr (m', -1) \<and> slices m' a = Some (s\<lparr>buf := Null\<rparr>) \<and>
    blocks m' = blocks m"
  using assms by (simp add: posixc_slice_append_def Let_def realloc_def malloc_def)

lemma slice_append_no_memory_witness:
  "\<exists>m'. posixc_slice_append (demo [] (replicate 60 CHR ''x'')\<lparr>oom := [True]\<rparr>) 2 ''y'' = Inr (m', -1) \<and>
    blocks m' = [0 \<mapsto> replicate 60 (Some CHR ''x'')]"
  using slice_append_no_memory [of "demo [] (replicate 60 CHR ''x'')\<lparr>oom := [True]\<rparr>" 2
      "empty_slice\<lparr>buf := Heap 0, ssize := Some 60\<rparr>" 60 0 "replicate 60 (Some CHR ''x'')" "[]" "''y''"]
  by (auto simp: demo_def)

text \<open>The aggregation of slices with at most 48 bytes in all holds their bytes in order.\<close>

lemma slice_aggregation_correct:
  assumes "list_all2 (slice_ok m) parts bss" "a \<notin> set parts" "slice_var m a"
    "0 < length (concat bss)" "length (concat bss) \<le> inline_cap"
  shows "\<exists>m'. posixc_slice_init_as_aggregation m a parts = Inr m' \<and> slice_ok m' a (concat bss)"
proof -
  let ?n = "length (concat bss)"
  obtain s where s: "slices m a = Some s" "length (inlinebuf s) = inline_cap" "posixc_slice_init m a ?n =
      Inr (set_slice m a (s\<lparr>buf := Inline_Of a, ssize := Some ?n\<rparr>))"
    using assms(3-5) by (rule slice_init_inline)
  let ?s = "s\<lparr>buf := Inline_Of a, ssize := Some ?n\<rparr>"
  have sum: "sum_sizes m parts 0 = Inr ?n"
    using sum_sizes_ok [OF assms(1), of 0] assms(5) by (simp add: inline_cap_def size_mod_def)
  have parts: "list_all2 (slice_ok (set_slice m a ?s)) parts bss"
  proof (rule list.rel_mono_strong [OF assms(1)])
    fix z y assume z: "z \<in> set parts" "slice_ok m z y"
    then have "z \<noteq> a" using assms(2) by auto
    then show "slice_ok (set_slice m a ?s) z y" by (intro slice_ok_frame [OF z(2)]) simp_all
  qed
  obtain m' s' where "copy_parts a parts 0 (set_slice m a ?s) = Inr m'" "slices m' a = Some s'"
    "buf s' = Inline_Of a" "ssize s' = Some ?n" "length (inlinebuf s') = inline_cap"
    "take ?n (inlinebuf s') = map Some (concat bss)"
    using copy_parts_ok [OF parts assms(2), of ?s "[]"] s(2) assms(5) by auto
  then show ?thesis using sum s(3) assms(5)
    by (simp add: posixc_slice_init_as_aggregation_def slice_ok_def holds_def)
qed

lemma slice_aggregation_correct_example:
  "\<exists>m'. posixc_slice_init_as_aggregation (demo ''ab'' ''cd'') 1 [2, 0, 2] = Inr m' \<and>
    slice_ok m' 1 ''cdabcd''"
  using slice_aggregation_correct [of "demo ''ab'' ''cd''" "[2, 0, 2]" "[''cd'', ''ab'', ''cd'']" 1]
  by (simp add: inline_cap_def)

text \<open>C29: for a pattern of more than eight bytes, and when \<open>malloc\<close> has memory for the table of the search,
  \<open>posixc_slice_contains\<close> ends and says whether the pattern is a part of the text. When \<open>malloc\<close> fails, the
  search stores through the null pointer. (Pattern and text are objects in memory: text and twice
  the pattern together have less than \<open>2 ^ 64\<close> bytes, and eight times the pattern too.)\<close>

theorem slice_contains_correct:
  assumes "slice_ok m t tb" "slice_ok m p pb" "8 < length pb" "length pb * 8 < size_mod"
    "length tb + 2 * length pb < size_mod"
  shows "posixc_slice_contains malloc_ok m t p =
    Some (if malloc_ok then Inr (\<exists>u v. tb = u @ pb @ v) else Inl Bad_Pointer)"
proof -
  obtain ts where t: "slices m t = Some ts" "ssize ts = Some (length tb)"
    "load_bytes m (buf ts) (length tb) = Inr tb" using assms(1) by (rule slice_ok_load)
  obtain ps where p: "slices m p = Some ps" "ssize ps = Some (length pb)"
    "load_bytes m (buf ps) (length pb) = Inr pb" using assms(2) by (rule slice_ok_load)
  have q: "query_ok pb (length pb) True" using assms(3,4) unfolding query_ok_def by auto
  obtain r where "posixc_boyermoore_contains True tb (length tb) pb (length pb) = Some (Inr r)"
    "(r \<noteq> None) = (\<exists>i. occurs_at id tb (length tb) pb (length pb) i)"
    using bm.decides [of pb "length pb" "length tb" tb] q assms(5) by fastforce
  moreover have "posixc_boyermoore_contains False tb (length tb) pb (length pb) = Some (Inl Bad_Pointer)"
    using init_no_memory [OF q] by (simp add: posixc_boyermoore_contains_def)
  ultimately show ?thesis using t p assms(3)
    by (cases malloc_ok) (simp_all add: posixc_slice_contains_def occurs_iff_sublist)
qed

theorem slice_contains_correct_witness:
  "posixc_slice_contains True (demo ''contains it'' ''the text contains it all'') 2 0 = Some (Inr True)"
proof -
  have "\<exists>u v. ''the text contains it all'' = u @ ''contains it'' @ v"
    by (rule exI [of _ "''the text ''"], rule exI [of _ "'' all''"]) simp
  then show ?thesis
    using slice_contains_correct [of "demo ''contains it'' ''the text contains it all''" 2
        "''the text contains it all''" 0 "''contains it''"]
    by (simp add: inline_cap_def size_mod_def del: append.simps)
qed

text \<open>An integer with so many places that they fill the 48 inline bytes: the terminator is stored behind
  them.\<close>

lemma slice_parse_double_overflow:
  assumes "int ip \<le> INT_MAX" "rnd_double (of_nat ip) = of_nat ip" "47 \<le> length (digits_rev ip) + d" "d \<le> 1000"
  shows "posixc_slice_parse_double l (of_nat ip) (int d) = Inl Out_Of_Bounds"
proof -
  let ?i = "length (digits_rev ip)" let ?d = "47 - ?i"
  have i: "?i \<le> 10" using assms(1) by (rule int_digits_le)
  have n: "to_int (of_nat ip) = Inr (int ip)"
    using assms(1) by (simp add: to_int_def c_int_def is_int_def INT_MIN_def)
  have "dtoa_fraction (of_nat ip) ip ?d = Inr (int 0)"
    using assms(2) by (simp add: dtoa_fraction_def rnd_double_def rnd_def to_int_def c_int_def is_int_def INT_MIN_def INT_MAX_def)
  moreover have "length (digits_rev 0) \<le> ?d" by (subst digits_rev.simps) simp
  ultimately have "posixc_dtoa (of_nat ip) (replicate 48 (CHR 0x00)) (int ?d) = Inl Out_Of_Bounds"
    using dtoa_overflow [OF n, of ?d 0 "replicate 48 (CHR 0x00)"] i by simp
  moreover have "min d (48 - ?i - 1) = ?d" using assms(3) by simp
  ultimately show ?thesis using dtoa_within [OF n, of "replicate 48 (CHR 0x00)" 48 d] i assms(4)
    by (simp only: posixc_slice_parse_double_def inline_cap_def) simp
qed

lemma inline_text_take:
  assumes "CHR 0x00 \<notin> set bs" "length bs < inline_cap"
  shows "take (length bs) (inline_text (bs @ CHR 0x00 # rest)) = map Some bs"
proof -
  have "takeWhile (\<lambda>c. c \<noteq> CHR 0x00) (bs @ CHR 0x00 # rest) = bs"
    using assms(1) by (induction bs) auto
  then show ?thesis by (simp add: inline_text_def)
qed

text \<open>When the operations need no rounding, the slice holds what the conversion prints.\<close>

lemma parse_double_printed:
  assumes "of_nat ip \<le> x" "x < of_nat ip + 1" "int ip \<le> INT_MAX" "0 < d" "d \<le> 9"
    and "rnd_double (of_nat ip) = of_nat ip" "rnd_double (x - of_nat ip) = x - of_nat ip"
      "rnd_double (10 ^ d) = 10 ^ d" "rnd_double ((x - of_nat ip) * 10 ^ d) = (x - of_nat ip) * 10 ^ d"
  shows "\<exists>k s. posixc_slice_parse_double l x (int d) = Inr s \<and> ssize s = Some (length (printed_text ip k d)) \<and>
    take (length (printed_text ip k d)) (inlinebuf s) = map Some (printed_text ip k d) \<and> length (digits_rev k) \<le> d \<and>
    of_nat ip + of_nat k / 10 ^ d \<le> x \<and> x < of_nat ip + (of_nat k + 1) / 10 ^ d"
proof -
  have "(10::nat) ^ d \<le> 10 ^ 9" using assms(5) by (intro power_increasing) simp_all
  then have "int (10 ^ d) \<le> int (10 ^ 9)" by (simp only: of_nat_le_iff)
  then have "int (10 ^ d) \<le> INT_MAX" by (simp add: INT_MAX_def)
  then obtain k where k: "dtoa_fraction x ip d = Inr (int k)" "length (digits_rev k) \<le> d"
    "of_nat ip + of_nat k / 10 ^ d \<le> x" "x < of_nat ip + (of_nat k + 1) / 10 ^ d"
    using dtoa_fraction_exact [OF assms(1,2) _ assms(6-9)] by metis
  let ?t = "printed_text ip k d" let ?i = "length (digits_rev ip)"
  have i: "?i \<le> 10" using assms(3) by (rule int_digits_le)
  have len: "length ?t = ?i + d + 1" using k(2) by (rule printed_text_length)
  have "\<lfloor>x\<rfloor> = int ip" using assms(1,2) by (intro floor_unique) simp_all
  moreover have "0 \<le> x" using assms(1) by (rule order_trans [rotated]) simp
  ultimately have n: "to_int x = Inr (int ip)"
    using assms(3) by (simp add: to_int_def c_int_def is_int_def INT_MIN_def)
  have "posixc_dtoa x (replicate 48 (CHR 0x00)) (int d) =
      Inr (?t @ CHR 0x00 # drop (?i + d + 2) (replicate 48 (CHR 0x00)), int (length ?t))"
    using dtoa_ok [OF n k(1,2) assms(4)] i assms(5) by simp
  moreover have "to_u64 (int (length ?t)) = length ?t" using len i assms(5) by (simp add: to_u64_def)
  moreover have "min d (48 - ?i - 1) = d" using i assms(5) by simp
  then have "posixc_dtoa_within_given_bytes x (replicate 48 (CHR 0x00)) (int d) 48 =
      posixc_dtoa x (replicate 48 (CHR 0x00)) (int d)"
    using dtoa_within [OF n, of "replicate 48 (CHR 0x00)" 48 d] i assms(5) by simp
  moreover have "length ?t < inline_cap" using len i assms(5) by (simp add: inline_cap_def)
  ultimately show ?thesis using k inline_text_take [OF printed_text_no_nul, of ip k d]
    by (intro exI [of _ k]) (simp add: posixc_slice_parse_double_def inline_cap_def)
qed

text \<open>C31: for a \<open>double\<close> of at least 1 whose integer part fits \<open>int\<close>, with one to nine places, and when the
  operations need no rounding, \<open>posixc_slice_parse_double\<close> gives the decimal text of the number, cut
  after the places, inside the inline bytes of the slice.\<close>

theorem slice_parse_double_correct:
  assumes "0 < ip" "of_nat ip \<le> x" "x < of_nat ip + 1" "int ip \<le> INT_MAX" "0 < d" "d \<le> 9"
    and "rnd_double (of_nat ip) = of_nat ip" "rnd_double (x - of_nat ip) = x - of_nat ip"
      "rnd_double (10 ^ d) = 10 ^ d" "rnd_double ((x - of_nat ip) * 10 ^ d) = (x - of_nat ip) * 10 ^ d"
  shows "\<exists>k s. posixc_slice_parse_double l x (int d) = Inr s \<and> ssize s = Some (length (decimal_text ip k d)) \<and>
    take (length (decimal_text ip k d)) (inlinebuf s) = map Some (decimal_text ip k d) \<and> length (digits_rev k) \<le> d \<and>
    of_nat ip + of_nat k / 10 ^ d \<le> x \<and> x < of_nat ip + (of_nat k + 1) / 10 ^ d"
  using parse_double_printed [OF assms(2-10), of l] unfolding printed_decimal [OF assms(1)] .

theorem slice_parse_double_correct_witness:
  "\<exists>k s. posixc_slice_parse_double 0 (11 / 4) 2 = Inr s \<and> ssize s = Some 4 \<and>
    take 4 (inlinebuf s) = map Some (decimal_text 2 k 2) \<and> k = 75"
proof -
  have r: "rnd_double 2 = 2" "rnd_double (3 / 4) = 3 / 4" "rnd_double 100 = 100" "rnd_double 75 = 75"
    by code_simp+
  have "\<exists>k s. posixc_slice_parse_double 0 (11 / 4) (int 2) = Inr s \<and> ssize s = Some (length (decimal_text 2 k 2)) \<and>
      take (length (decimal_text 2 k 2)) (inlinebuf s) = map Some (decimal_text 2 k 2) \<and> length (digits_rev k) \<le> 2 \<and>
      of_nat 2 + of_nat k / 10 ^ 2 \<le> (11 / 4 :: rat) \<and> 11 / 4 < of_nat 2 + (of_nat k + 1) / (10 ^ 2 :: rat)"
    using r by (intro slice_parse_double_correct) (simp_all add: INT_MAX_def)
  then obtain k s where ks: "posixc_slice_parse_double 0 (11 / 4) (int 2) = Inr s"
    "ssize s = Some (length (decimal_text 2 k 2))" "length (digits_rev k) \<le> 2"
    "take (length (decimal_text 2 k 2)) (inlinebuf s) = map Some (decimal_text 2 k 2)"
    "of_nat 2 + of_nat k / 10 ^ 2 \<le> (11 / 4 :: rat)" "11 / 4 < of_nat 2 + (of_nat k + 1) / (10 ^ 2 :: rat)" by blast
  have "length (decimal_text 2 k 2) = 4" using printed_text_length [OF ks(3), of 2] printed_decimal [of 2 k 2]
    by (simp add: digits_rev.simps)
  moreover have "k = 75" using ks(5,6) by (simp add: field_simps)
  ultimately show ?thesis using ks(1,2,4) by auto
qed

text \<open>Below 1 the text has no digit before the point.\<close>

lemma slice_parse_double_below_one:
  assumes "0 \<le> x" "x < 1" "0 < d" "d \<le> 9"
    and "rnd_double x = x" "rnd_double (10 ^ d) = 10 ^ d" "rnd_double (x * 10 ^ d) = x * 10 ^ d"
  shows "\<exists>k s txt. posixc_slice_parse_double l x (int d) = Inr s \<and> decimal_text 0 k d = CHR ''0'' # txt \<and>
    ssize s = Some (length txt) \<and> take (length txt) (inlinebuf s) = map Some txt \<and>
    of_nat k / 10 ^ d \<le> x \<and> x < (of_nat k + 1) / 10 ^ d"
proof -
  have "rnd_double (of_nat 0) = of_nat 0" by (simp add: rnd_double_def rnd_def)
  from parse_double_printed [of 0 x d l, OF _ _ _ assms(3,4) this] assms(1,2,5-7) show ?thesis
    unfolding printed_below_one by (simp add: INT_MAX_def) blast
qed

lemma slice_parse_double_below_one_example:
  "\<exists>k s txt. posixc_slice_parse_double 0 (3 / 4) 2 = Inr s \<and> decimal_text 0 k 2 = CHR ''0'' # txt \<and>
    ssize s = Some (length txt) \<and> take (length txt) (inlinebuf s) = map Some txt"
proof -
  have "rnd_double (3 / 4) = 3 / 4" "rnd_double 100 = 100" "rnd_double 75 = 75" by code_simp+
  then show ?thesis using slice_parse_double_below_one [of "3 / 4" 2 0] by auto
qed

end
