(* ===== verification/Fileio.thy ===== *)
theory Fileio
  imports Prelude
begin

unbundle bit_operations_syntax

text \<open>
  The file functions of \<open>src/fileio.c\<close>: writing with retries, the buffered writer, reading, the creation
  of directories with the modes asked for, and the wrappers around single system calls.

  A call of \<open>write\<close> is answered by the operating system, a parameter \<open>os\<close> of the model: \<open>os i n\<close> is the
  answer to the \<open>i\<close>-th call, when \<open>n\<close> bytes are offered. \<open>kernel_ok\<close> states what POSIX documents
  (no more bytes are taken than offered) and \<open>progress\<close> that the system does not interrupt or take
  nothing for ever. The world counts the calls and holds, per descriptor, the bytes taken so far.

  The buffered writer is compared with a stream of bytes: what the file has, then what the buffer
  holds. The locale \<open>byte_sink\<close> is the interface both writers share.
\<close>

section \<open>Writing\<close>

datatype write_outcome = Wrote nat | Write_Interrupted | Write_Failed

type_synonym write_os = "nat \<Rightarrow> nat \<Rightarrow> write_outcome"

record wworld =
  calls :: nat
  bytes_of :: "int \<Rightarrow> char list"

definition accept :: "wworld \<Rightarrow> int \<Rightarrow> char list \<Rightarrow> wworld" where
  "accept w fd bs = w\<lparr>bytes_of := (bytes_of w)(fd := bytes_of w fd @ bs)\<rparr>"

text \<open>\<open>data\<close> is what the object holds from the pointer on; \<open>sz\<close> (\<open>size\<close>) bytes of it must exist.\<close>

partial_function (option) posixc_unbuffered_write ::
    "write_os \<Rightarrow> int \<Rightarrow> wworld \<Rightarrow> char list \<Rightarrow> nat \<Rightarrow> (wworld \<times> bool) run" where
  "posixc_unbuffered_write os fd w data sz =
     (if sz = 0 then Some (Inr (w, True))
      else if length data < sz then Some (Inl Out_Of_Bounds)
      else (let w' = w\<lparr>calls := calls w + 1\<rparr> in
        case os (calls w) sz of
          Write_Interrupted \<Rightarrow> posixc_unbuffered_write os fd w' data sz
        | Write_Failed \<Rightarrow> Some (Inr (w', False))
        | Wrote k \<Rightarrow> posixc_unbuffered_write os fd (accept w' fd (take k data)) (drop k data)
                      (szt_sub sz k)))"

declare posixc_unbuffered_write.simps [code]

definition buffered_writable_size :: nat where
  "buffered_writable_size = 4096"

record posixc_buffered_writable =
  bbuf :: "char list"
  pos :: nat
  bfd :: int

text \<open>\<open>int size = bw->pos\<close> is converted to \<open>size_t\<close> again for the call.\<close>

definition posixc_flush ::
    "write_os \<Rightarrow> wworld \<Rightarrow> posixc_buffered_writable \<Rightarrow> ((wworld \<times> posixc_buffered_writable) \<times> bool) run" where
  "posixc_flush os w bw =
     (let size = to_int32 (int (pos bw));
          bw = bw\<lparr>pos := 0\<rparr> in
      bindR (posixc_unbuffered_write os (bfd bw) w (bbuf bw) (to_u64 size)) (\<lambda>(w, ok).
      Some (Inr ((w, bw), ok))))"

definition posixc_buffered_writable_init ::
    "posixc_buffered_writable \<Rightarrow> int \<Rightarrow> posixc_buffered_writable" where
  "posixc_buffered_writable_init bw fd = bw\<lparr>pos := 0, bfd := fd\<rparr>"

definition posixc_buffered_write :: "write_os \<Rightarrow> wworld \<Rightarrow> posixc_buffered_writable \<Rightarrow> char list \<Rightarrow> nat \<Rightarrow>
    ((wworld \<times> posixc_buffered_writable) \<times> bool) run" where
  "posixc_buffered_write os w bw data sz =
     (let n = posixc_min sz (szt_sub buffered_writable_size (pos bw)) in
      bindR (Some (blit (bbuf bw) (pos bw) data n)) (\<lambda>b.
      let data = drop n data; sz = szt_sub sz n;
          bw = bw\<lparr>bbuf := b, pos := szt_add (pos bw) n\<rparr> in
      if sz = 0 then Some (Inr ((w, bw), True))
      else bindR (posixc_flush os w bw) (\<lambda>((w, bw), ok).
        if ok then
          (if sz < buffered_writable_size
           then bindR (Some (blit (bbuf bw) 0 data sz)) (\<lambda>b.
                Some (Inr ((w, bw\<lparr>bbuf := b, pos := sz\<rparr>), True)))
           else bindR (posixc_unbuffered_write os (bfd bw) w data sz) (\<lambda>(w, ok).
                Some (Inr ((w, bw), ok))))
        else Some (Inr ((w, bw), False)))))"

section \<open>Reading\<close>

datatype read_outcome = Read_Bytes "char list" | Read_Interrupted | Read_Failed

text \<open>\<open>os i n\<close> answers the \<open>i\<close>-th call of \<open>read\<close> for \<open>n\<close> bytes. The result is the number of calls so
  far, the buffer, the value stored in \<open>read_size\<close>, and the return value.\<close>

partial_function (option) posixc_read ::
    "(nat \<Rightarrow> nat \<Rightarrow> read_outcome) \<Rightarrow> nat \<Rightarrow> char list \<Rightarrow> nat \<Rightarrow> (nat \<times> char list \<times> int \<times> bool) run" where
  "posixc_read os i buf n =
     (case os i n of
        Read_Interrupted \<Rightarrow> posixc_read os (i + 1) buf n
      | Read_Failed \<Rightarrow> Some (Inr (i + 1, buf, -1, False))
      | Read_Bytes bs \<Rightarrow>
          bindR (Some (blit buf 0 bs (length bs))) (\<lambda>buf.
          Some (Inr (i + 1, buf, int (length bs), True))))"

declare posixc_read.simps [code]

definition posixc_pread ::
    "(nat \<Rightarrow> int \<Rightarrow> read_outcome) \<Rightarrow> char list \<Rightarrow> nat \<Rightarrow> nat \<Rightarrow> (char list \<times> int \<times> bool) res" where
  "posixc_pread os buf n offset =
     (let off = (if offset < 2 ^ 63 then int offset else int offset - 2 ^ 64) in
      case os n off of
        Read_Bytes bs \<Rightarrow> bindE (blit buf 0 bs (length bs)) (\<lambda>buf. Inr (buf, int (length bs), True))
      | _ \<Rightarrow> Inr (buf, -1, False))"

section \<open>Directories\<close>

definition tmp_cap :: nat where
  "tmp_cap = 1024"

abbreviation (input) nul :: char where
  "nul \<equiv> CHR 0x00"

text \<open>The array after \<open>snprintf(tmp, sizeof(tmp), "%s", s)\<close>: the string, cut to fit, its terminator, and
  bytes that were never written. \<open>s\<close> has no zero byte.\<close>

definition snprintf_s :: "nat \<Rightarrow> char list \<Rightarrow> char option list" where
  "snprintf_s cap s = map Some (take (cap - 1) s) @ Some nul # replicate (cap - 1 - length s) None"

definition rd_char :: "char option list \<Rightarrow> nat \<Rightarrow> char res" where
  "rd_char tmp i = bindE (rd tmp i) (\<lambda>v. case v of None \<Rightarrow> Inl Uninitialised | Some c \<Rightarrow> Inr c)"

text \<open>The C string in an array.\<close>

definition cstr :: "char option list \<Rightarrow> char list" where
  "cstr tmp = map the (takeWhile (\<lambda>v. v \<noteq> Some nul) tmp)"

text \<open>The permission bits of \<open>sys/stat.h\<close>. A call of \<open>mkdir\<close> is the path and the mode it is given.\<close>

definition S_IRWXU :: "32 word" where "S_IRWXU = 0x1C0"
definition S_IRWXG :: "32 word" where "S_IRWXG = 0x38"
definition S_IRWXO :: "32 word" where "S_IRWXO = 0x7"
definition S_IROTH :: "32 word" where "S_IROTH = 0x4"

type_synonym mkdir_call = "char list \<times> 32 word"

definition mkdir :: "char list \<Rightarrow> mkdir_call" where
  "mkdir path = (path, S_IRWXU OR S_IRWXG OR S_IROTH)"

text \<open>\<open>for (p = tmp + 1; *p; p++)\<close>; the calls of \<open>mkdir\<close> are collected in order.\<close>

function mkdir_loop ::
    "char option list \<Rightarrow> nat \<Rightarrow> mkdir_call list \<Rightarrow> (char option list \<times> mkdir_call list) res" where
  "mkdir_loop tmp p made =
     (case rd_char tmp p of Inl e \<Rightarrow> Inl e
      | Inr c \<Rightarrow>
        if c = nul then Inr (tmp, made)
        else if c = CHR ''/'' then
          (let tmp' = tmp[p := Some nul];
               made = made @ [mkdir (cstr tmp')] in
           mkdir_loop (tmp'[p := Some (CHR ''/'')]) (p + 1) made)
        else mkdir_loop tmp (p + 1) made)"
  by pat_completeness auto

termination
  by (relation "measure (\<lambda>(tmp, p, made). length tmp - p)")
     (auto simp: rd_char_def rd_def bindE_def split: if_splits sum.splits)

declare mkdir_loop.simps [simp del]

definition posixc_recursive_mkdir :: "char list \<Rightarrow> mkdir_call list res" where
  "posixc_recursive_mkdir dir =
     (let tmp = snprintf_s tmp_cap dir; len = length (cstr tmp) in
      bindE (assertE (len \<le> tmp_cap) Assert_Failed) (\<lambda>_.
      bindE (rd_char tmp (szt_sub len 1)) (\<lambda>c.
      let tmp = (if c = CHR ''/'' then tmp[len - 1 := Some nul] else tmp) in
      bindE (mkdir_loop tmp 1 []) (\<lambda>(tmp, made). Inr (made @ [mkdir (cstr tmp)])))))"

text \<open>\<open>while (*t != '/') t--;\<close>, \<open>k\<close> is the index of \<open>t\<close> plus one; \<open>0\<close> is a pointer before the array.\<close>

fun last_slash :: "char option list \<Rightarrow> nat \<Rightarrow> nat res" where
  "last_slash tmp 0 = Inl Out_Of_Bounds"
| "last_slash tmp (Suc k) =
     bindE (rd_char tmp k) (\<lambda>c. if c = CHR ''/'' then Inr k else last_slash tmp k)"

definition posixc_prepare_dirs_for :: "(char list \<Rightarrow> bool) \<Rightarrow> char list \<Rightarrow> mkdir_call list res" where
  "posixc_prepare_dirs_for dir_exists filename =
     (let tmp = snprintf_s tmp_cap filename; len = length (cstr tmp) in
      bindE (assertE (len \<le> tmp_cap) Assert_Failed) (\<lambda>_.
      bindE (last_slash tmp len) (\<lambda>t.
      let tmp = tmp[t := Some nul] in
      if \<not> dir_exists (cstr tmp)
      then bindE (mkdir_loop tmp 1 []) (\<lambda>(tmp, made). Inr (made @ [mkdir (cstr tmp)]))
      else Inr [])))"

section \<open>Wrappers of single calls\<close>

text \<open>The answers of the system calls are parameters: a function of the call's arguments, or the value
  the call gives. \<open>S_ISREG\<close>, \<open>S_ISSOCK\<close> and the permission bits have their POSIX values.\<close>

record stat =
  st_mode :: "32 word"
  st_size :: int
  st_uid :: nat
  st_atime :: int
  st_ctime :: int
  st_mtime :: int

definition S_ISREG :: "32 word \<Rightarrow> bool" where
  "S_ISREG mode \<longleftrightarrow> mode AND 0xF000 = 0x8000"

definition S_ISSOCK :: "32 word \<Rightarrow> bool" where
  "S_ISSOCK mode \<longleftrightarrow> mode AND 0xF000 = 0xC000"

text \<open>\<open>rlim\<close> is the soft limit, \<open>None\<close> when \<open>getrlimit\<close> fails.\<close>

definition posixc_fd_limit :: "nat \<Rightarrow> nat option \<Rightarrow> int" where
  "posixc_fd_limit RLIM_INFINITY rlim = (case rlim of None \<Rightarrow> -1
     | Some cur \<Rightarrow> if cur = RLIM_INFINITY then INT_MAX else to_int32 (int cur))"

definition posixc_file_size :: "(char list \<Rightarrow> stat option) \<Rightarrow> char list \<Rightarrow> int" where
  "posixc_file_size sys_stat fname =
     (case sys_stat fname of None \<Rightarrow> -1 | Some sbuf \<Rightarrow> st_size sbuf)"

definition posixc_is_regular_file :: "(char list \<Rightarrow> stat option) \<Rightarrow> char list \<Rightarrow> bool" where
  "posixc_is_regular_file sys_stat fname =
     (case sys_stat fname of None \<Rightarrow> False | Some sbuf \<Rightarrow> S_ISREG (st_mode sbuf))"

definition posixc_truncate_file :: "(char list \<Rightarrow> int \<Rightarrow> int) \<Rightarrow> char list \<Rightarrow> int \<Rightarrow> int" where
  "posixc_truncate_file sys_truncate fname bytes = sys_truncate fname bytes"

definition posixc_create_dir :: "(char list \<Rightarrow> 32 word \<Rightarrow> int) \<Rightarrow> char list \<Rightarrow> int" where
  "posixc_create_dir sys_mkdir dir = sys_mkdir dir 0x1ED"

definition posixc_delete_dir :: "(char list \<Rightarrow> int) \<Rightarrow> char list \<Rightarrow> int" where
  "posixc_delete_dir sys_rmdir dir = sys_rmdir dir"

text \<open>\<open>access\<close> returns \<open>0\<close> when the file exists; the value is converted to \<open>bool\<close>.\<close>

definition posixc_file_exists :: "(char list \<Rightarrow> int) \<Rightarrow> char list \<Rightarrow> bool" where
  "posixc_file_exists sys_access fname = (sys_access fname \<noteq> 0)"

definition posixc_delete_file :: "(char list \<Rightarrow> int) \<Rightarrow> char list \<Rightarrow> int" where
  "posixc_delete_file sys_unlink fname = sys_unlink fname"

definition posixc_rename_file :: "(char list \<Rightarrow> char list \<Rightarrow> int) \<Rightarrow> char list \<Rightarrow> char list \<Rightarrow> int" where
  "posixc_rename_file sys_rename src target = sys_rename src target"

text \<open>\<open>opendir\<close> gives a stream or \<open>NULL\<close>; a stream is closed again.\<close>

definition posixc_dir_exists :: "(char list \<Rightarrow> 'dir option) \<Rightarrow> char list \<Rightarrow> 'dir list \<times> bool" where
  "posixc_dir_exists sys_opendir dir =
     (case sys_opendir dir of Some tmp \<Rightarrow> ([tmp], True) | None \<Rightarrow> ([], False))"

definition posixc_stat :: "(char list \<Rightarrow> stat option) \<Rightarrow> char list \<Rightarrow> stat \<Rightarrow> stat \<times> bool" where
  "posixc_stat sys_stat filename statbuf =
     (case sys_stat filename of None \<Rightarrow> (statbuf, False) | Some st \<Rightarrow> (st, True))"

definition posixc_is_stale :: "int \<Rightarrow> stat \<Rightarrow> int \<Rightarrow> bool" where
  "posixc_is_stale now statbuf age_seconds =
     (let staletime = now - age_seconds in
      if st_atime statbuf < staletime \<or> st_ctime statbuf < staletime \<or> st_mtime statbuf < staletime
      then False else True)"

definition posixc_is_user_rwx :: "stat \<Rightarrow> bool" where
  "posixc_is_user_rwx statbuf =
     (if st_mode statbuf AND (S_IRWXG OR S_IRWXO) \<noteq> 0 \<or> st_mode statbuf AND S_IRWXU \<noteq> S_IRWXU
      then False else True)"

text \<open>\<open>lseek\<close> returns \<open>(off_t) -1\<close> on failure.\<close>

definition posixc_skip :: "(int \<Rightarrow> nat \<Rightarrow> int) \<Rightarrow> int \<Rightarrow> nat \<Rightarrow> bool" where
  "posixc_skip sys_lseek fd n = (sys_lseek fd n \<noteq> -1)"

datatype oflag = O_RDONLY | O_WRONLY | O_TRUNC | O_APPEND | O_CREAT

type_synonym sys_open = "char list \<Rightarrow> oflag set \<Rightarrow> 32 word option \<Rightarrow> int"

definition posixc_readonly_open :: "sys_open \<Rightarrow> char list \<Rightarrow> int" where
  "posixc_readonly_open sys_open filename = sys_open filename {O_RDONLY} None"

definition posixc_writable_open ::
    "(char list \<Rightarrow> bool) \<Rightarrow> sys_open \<Rightarrow> char list \<Rightarrow> (mkdir_call list \<times> int) res" where
  "posixc_writable_open dir_exists sys_open filename =
     bindE (posixc_prepare_dirs_for dir_exists filename) (\<lambda>made.
     Inr (made, sys_open filename {O_TRUNC, O_WRONLY, O_CREAT} (Some 0x1A4)))"

definition posixc_appendable_open ::
    "(char list \<Rightarrow> bool) \<Rightarrow> sys_open \<Rightarrow> char list \<Rightarrow> (mkdir_call list \<times> int) res" where
  "posixc_appendable_open dir_exists sys_open filename =
     bindE (posixc_prepare_dirs_for dir_exists filename) (\<lambda>made.
     Inr (made, sys_open filename {O_APPEND, O_WRONLY, O_CREAT} (Some 0x1A4)))"

definition posixc_fopen :: "(char list \<Rightarrow> bool) \<Rightarrow> (char list \<Rightarrow> char list \<Rightarrow> 'f option) \<Rightarrow>
    char list \<Rightarrow> char list \<Rightarrow> (mkdir_call list \<times> 'f option) res" where
  "posixc_fopen dir_exists libc_fopen filename mode =
     bindE (posixc_prepare_dirs_for dir_exists filename) (\<lambda>made. Inr (made, libc_fopen filename mode))"

definition posixc_buffered_writable_init_from :: "(char list \<Rightarrow> bool) \<Rightarrow> sys_open \<Rightarrow>
    posixc_buffered_writable \<Rightarrow> char list \<Rightarrow> (mkdir_call list \<times> posixc_buffered_writable) res" where
  "posixc_buffered_writable_init_from dir_exists sys_open bw filename =
     bindE (posixc_writable_open dir_exists sys_open filename) (\<lambda>(made, fd).
     Inr (made, posixc_buffered_writable_init bw fd))"

section \<open>The unbuffered writer\<close>

definition kernel_ok :: "write_os \<Rightarrow> bool" where
  "kernel_ok os \<longleftrightarrow> (\<forall>i n k. os i n = Wrote k \<longrightarrow> k \<le> n)"

definition progress :: "write_os \<Rightarrow> bool" where
  "progress os \<longleftrightarrow> (\<forall>i n. 0 < n \<longrightarrow> (\<exists>j\<ge>i. os j n \<noteq> Write_Interrupted \<and> os j n \<noteq> Wrote 0))"

definition may_fail :: "write_os \<Rightarrow> bool" where
  "may_fail os \<longleftrightarrow> (\<exists>i n. os i n = Write_Failed)"

lemma accept_simps [simp]:
  "bytes_of (accept w fd bs) fd = bytes_of w fd @ bs" "calls (accept w fd bs) = calls w"
  "fd' \<noteq> fd \<Longrightarrow> bytes_of (accept w fd bs) fd' = bytes_of w fd'"
  "accept (accept w fd xs) fd ys = accept w fd (xs @ ys)" "accept w fd [] = w"
  by (simp_all add: accept_def)

text \<open>What a write of \<open>bs\<close> may do: take all of it, or report an error after a part.\<close>

definition wrote :: "int \<Rightarrow> char list \<Rightarrow> wworld \<Rightarrow> wworld \<times> bool \<Rightarrow> bool" where
  "wrote fd bs w r \<longleftrightarrow> (\<exists>k i. k \<le> length bs \<and> fst r = (accept w fd (take k bs))\<lparr>calls := i\<rparr> \<and>
     (snd r \<longrightarrow> k = length bs))"

lemma wrote_calls: "wrote fd bs (w\<lparr>calls := i\<rparr>) r \<longleftrightarrow> wrote fd bs w r"
  by (simp add: wrote_def accept_def)

lemma wrote_accept:
  assumes "wrote fd (drop k bs) (accept w fd (take k bs)) r" "k \<le> length bs"
  shows "wrote fd bs w r"
proof -
  obtain j i where j: "j \<le> length bs - k" "fst r = (accept w fd (take k bs @ take j (drop k bs)))\<lparr>calls := i\<rparr>"
    "snd r \<longrightarrow> j = length bs - k" using assms(1) by (auto simp: wrote_def)
  then have "fst r = (accept w fd (take (k + j) bs))\<lparr>calls := i\<rparr>" by (simp add: take_add)
  then show ?thesis using j assms(2) unfolding wrote_def by (intro exI [of _ "k + j"] exI [of _ i]) auto
qed

lemma unbuffered_write_step:
  assumes "bs \<noteq> []" "length bs < size_mod" "kernel_ok os"
  shows "posixc_unbuffered_write os fd w (bs @ rest) (length bs) =
    (let w' = w\<lparr>calls := calls w + 1\<rparr> in
     case os (calls w) (length bs) of
       Write_Interrupted \<Rightarrow> posixc_unbuffered_write os fd w' (bs @ rest) (length bs)
     | Write_Failed \<Rightarrow> Some (Inr (w', False))
     | Wrote k \<Rightarrow> posixc_unbuffered_write os fd (accept w' fd (take k bs)) (drop k bs @ rest)
         (length (drop k bs)))"
  using assms
  by (subst posixc_unbuffered_write.simps) (auto simp: kernel_ok_def Let_def split: write_outcome.splits)

lemma wrote_nothing: "wrote fd bs w (w\<lparr>calls := i\<rparr>, False)"
  unfolding wrote_def by (intro exI [of _ 0] exI [of _ i]) simp

text \<open>The loop up to the next call that makes progress, at the latest the \<open>j\<close>-th.\<close>

lemma unbuffered_write_round:
  assumes os: "kernel_ok os" and bs: "bs \<noteq> []" "length bs < size_mod"
    and j: "os j (length bs) \<noteq> Write_Interrupted" "os j (length bs) \<noteq> Wrote 0"
    and shorter: "\<And>k w. 0 < k \<Longrightarrow> \<exists>r. posixc_unbuffered_write os fd w (drop k bs @ rest) (length (drop k bs)) = Some (Inr r) \<and>
      wrote fd (drop k bs) w r \<and> (\<not> snd r \<longrightarrow> may_fail os)"
  shows "calls w \<le> j \<Longrightarrow> \<exists>r. posixc_unbuffered_write os fd w (bs @ rest) (length bs) = Some (Inr r) \<and> wrote fd bs w r \<and>
    (\<not> snd r \<longrightarrow> may_fail os)"
proof (induction "j - calls w" arbitrary: w rule: less_induct)
  case less
  let ?w = "w\<lparr>calls := calls w + 1\<rparr>"
  have again: "\<exists>r. posixc_unbuffered_write os fd ?w (bs @ rest) (length bs) = Some (Inr r) \<and>
      wrote fd bs w r \<and> (\<not> snd r \<longrightarrow> may_fail os)" if "calls w \<noteq> j"
    using less.hyps [of ?w] less.prems that by (auto simp: wrote_calls)
  note step = unbuffered_write_step [OF bs os, of fd w rest]
  show ?case
  proof (cases "os (calls w) (length bs)")
    case (Wrote k)
    show ?thesis
    proof (cases "k = 0")
      case True
      then show ?thesis using again j Wrote step by auto
    next
      case False
      have "k \<le> length bs" using os Wrote by (simp add: kernel_ok_def)
      obtain r where r: "posixc_unbuffered_write os fd (accept ?w fd (take k bs)) (drop k bs @ rest)
          (length (drop k bs)) = Some (Inr r)" "wrote fd (drop k bs) (accept ?w fd (take k bs)) r"
        "\<not> snd r \<longrightarrow> may_fail os" using shorter [of k] False by blast
      have "wrote fd bs ?w r" using wrote_accept [OF r(2) \<open>k \<le> length bs\<close>] .
      then show ?thesis using step r(1,3) Wrote by (simp add: Let_def wrote_calls)
    qed
  next
    case Write_Interrupted
    then show ?thesis using again j step by auto
  next
    case Write_Failed
    then show ?thesis using step wrote_nothing by (auto simp: Let_def may_fail_def)
  qed
qed

lemma unbuffered_write_ok:
  assumes os: "kernel_ok os" "progress os"
  shows "length bs < size_mod \<Longrightarrow>
    \<exists>r. posixc_unbuffered_write os fd w (bs @ rest) (length bs) = Some (Inr r) \<and> wrote fd bs w r \<and>
      (\<not> snd r \<longrightarrow> may_fail os)"
proof (induction "length bs" arbitrary: bs w rule: less_induct)
  case less
  show ?case
  proof (cases "bs = []")
    case True
    then show ?thesis by (simp add: posixc_unbuffered_write.simps wrote_def exI [of _ "calls w"])
  next
    case False
    then have "\<exists>j\<ge>calls w. os j (length bs) \<noteq> Write_Interrupted \<and> os j (length bs) \<noteq> Wrote 0"
      using os(2) by (simp add: progress_def)
    then obtain j where j: "calls w \<le> j" "os j (length bs) \<noteq> Write_Interrupted" "os j (length bs) \<noteq> Wrote 0" by blast
    have "length (drop k bs) < length bs" "length (drop k bs) < size_mod" if "0 < k" for k
      using that False less.prems by simp_all
    then show ?thesis using less.hyps by (intro unbuffered_write_round [OF os(1) False less.prems j(2,3) _ j(1)]) blast
  qed
qed

lemma wrote_all: "wrote fd bs w (w', ok) \<Longrightarrow> ok \<Longrightarrow> bytes_of w' fd = bytes_of w fd @ bs"
  by (auto simp: wrote_def)

lemma wrote_part: "wrote fd bs w (w', ok) \<Longrightarrow> \<exists>k\<le>length bs. bytes_of w' fd = bytes_of w fd @ take k bs"
  by (auto simp: wrote_def)

lemma wrote_other: "wrote fd bs w (w', ok) \<Longrightarrow> fd' \<noteq> fd \<Longrightarrow> bytes_of w' fd' = bytes_of w fd'"
  by (auto simp: wrote_def)

text \<open>The calls that one write makes: \<open>as\<close> are the answers, from the \<open>i\<close>-th call on, when each call offers
  what is left of \<open>n\<close> bytes. \<open>taken as\<close> is what they have taken.\<close>

fun taken :: "write_outcome list \<Rightarrow> nat" where
  "taken [] = 0"
| "taken (Wrote k # as) = k + taken as"
| "taken (_ # as) = taken as"

fun answered :: "write_os \<Rightarrow> nat \<Rightarrow> nat \<Rightarrow> write_outcome list \<Rightarrow> bool" where
  "answered os i n [] \<longleftrightarrow> True"
| "answered os i n (a # as) \<longleftrightarrow> 0 < n \<and> a = os i n \<and> answered os (i + 1) (n - taken [a]) as"

lemma answered_in: "answered os i n as \<Longrightarrow> a \<in> set as \<Longrightarrow> \<exists>j m. a = os j m"
  by (induction as arbitrary: i n) auto

definition write_answers :: "write_os \<Rightarrow> int \<Rightarrow> wworld \<Rightarrow> char list \<Rightarrow> wworld \<times> bool \<Rightarrow> write_outcome list \<Rightarrow> bool" where
  "write_answers os fd w bs r as \<longleftrightarrow> (snd r \<longleftrightarrow> Write_Failed \<notin> set as) \<and> answered os (calls w) (length bs) as \<and>
     Write_Failed \<notin> set (butlast as) \<and> (Write_Failed \<in> set as \<or> taken as = length bs) \<and>
     calls (fst r) = calls w + length as \<and> bytes_of (fst r) fd = bytes_of w fd @ take (taken as) bs"

lemma write_answers_Cons:
  assumes "write_answers os fd w' (drop (taken [a]) bs) r as" "a = os (calls w) (length bs)" "bs \<noteq> []"
    and "a \<noteq> Write_Failed" "taken [a] \<le> length bs" "calls w' = calls w + 1"
    and "bytes_of w' fd = bytes_of w fd @ take (taken [a]) bs"
  shows "write_answers os fd w bs r (a # as)"
proof -
  have "taken (a # as) = taken [a] + taken as" by (cases a) simp_all
  then show ?thesis using assms unfolding write_answers_def by (cases as) (auto simp: take_add)
qed

lemma unbuffered_write_answers:
  assumes "posixc_unbuffered_write os fd w bs sz = Some res"
  shows "sz = length bs \<and> length bs < size_mod \<and> kernel_ok os \<longrightarrow>
    (\<exists>r as. res = Inr r \<and> write_answers os fd w bs r as)"
proof (rule posixc_unbuffered_write.raw_induct [OF _ assms, where P = "\<lambda>os fd w bs sz res.
    sz = length bs \<and> length bs < size_mod \<and> kernel_ok os \<longrightarrow> (\<exists>r as. res = Inr r \<and> write_answers os fd w bs r as)"],
    goal_cases)
  case (1 rec os fd w bs sz res)
  note step = 1(2)
  show ?case
  proof (intro impI, elim conjE)
    assume sz: "sz = length bs" "length bs < size_mod" and os: "kernel_ok os"
    let ?w = "w\<lparr>calls := calls w + 1\<rparr>"
    show "\<exists>r as. res = Inr r \<and> write_answers os fd w bs r as"
    proof (cases "bs = []")
      case True
      then show ?thesis using step sz by (intro exI [of _ "(w, True)"] exI [of _ "[]"]) (simp add: write_answers_def)
    next
      case bs: False
      show ?thesis
      proof (cases "os (calls w) sz")
        case (Wrote k)
        have k: "k \<le> length bs" using os Wrote sz(1) by (simp add: kernel_ok_def)
        have run: "rec os fd (accept ?w fd (take k bs)) (drop k bs) (length (drop k bs)) = Some res"
          using step bs sz k Wrote by simp
        obtain r as where r: "res = Inr r" "write_answers os fd (accept ?w fd (take k bs)) (drop k bs) r as"
          using 1(1) [OF run] sz os by auto
        have "write_answers os fd w bs r (Wrote k # as)"
          by (rule write_answers_Cons [where w' = "accept ?w fd (take k bs)"]) (use r(2) Wrote sz bs k in simp_all)
        then show ?thesis using r(1) by blast
      next
        case Write_Interrupted
        have run: "rec os fd ?w bs (length bs) = Some res" using step bs sz Write_Interrupted by simp
        obtain r as where r: "res = Inr r" "write_answers os fd ?w bs r as"
          using 1(1) [OF run] sz os by auto
        have "write_answers os fd w bs r (Write_Interrupted # as)"
          by (rule write_answers_Cons [where w' = ?w]) (use r(2) Write_Interrupted sz bs in simp_all)
        then show ?thesis using r(1) by blast
      next
        case Write_Failed
        then show ?thesis using step bs sz
          by (intro exI [of _ "(?w, False)"] exI [of _ "[Write_Failed]"]) (simp add: write_answers_def)
      qed
    qed
  qed
qed

section \<open>The interface of a writer\<close>

text \<open>A sequence of writes that stops at the first failure.\<close>

fun put_seq :: "('s \<Rightarrow> char list \<Rightarrow> ('s \<times> bool) run) \<Rightarrow> 's \<Rightarrow> char list list \<Rightarrow> ('s \<times> bool) run" where
  "put_seq put s [] = Some (Inr (s, True))"
| "put_seq put s (d # ds) =
     bindR (put s d) (\<lambda>(s, ok). if ok then put_seq put s ds else Some (Inr (s, False)))"

locale byte_sink =
  fixes put :: "'s \<Rightarrow> char list \<Rightarrow> ('s \<times> bool) run"
    and contents :: "'s \<Rightarrow> char list"
    and inv :: "'s \<Rightarrow> bool"
  assumes returns: "inv s \<Longrightarrow> length d < size_mod \<Longrightarrow> \<exists>s' ok. put s d = Some (Inr (s', ok)) \<and> inv s'"
    and appends: "inv s \<Longrightarrow> length d < size_mod \<Longrightarrow> put s d = Some (Inr (s', True)) \<Longrightarrow>
      contents s' = contents s @ d"
    and keeps_prefix: "inv s \<Longrightarrow> length d < size_mod \<Longrightarrow> put s d = Some (Inr (s', False)) \<Longrightarrow>
      \<exists>lost. contents s' @ lost = contents s @ d"
begin

lemma put_seq_ok:
  "inv s \<Longrightarrow> \<forall>d\<in>set ds. length d < size_mod \<Longrightarrow>
   \<exists>s' ok lost. put_seq put s ds = Some (Inr (s', ok)) \<and> inv s' \<and>
     contents s' @ lost = contents s @ concat ds \<and> (ok \<longrightarrow> lost = [])"
proof (induction ds arbitrary: s)
  case Nil
  then show ?case by (simp add: exI [of _ True])
next
  case (Cons d ds)
  obtain s1 ok where s1: "put s d = Some (Inr (s1, ok))" "inv s1"
    using returns Cons.prems by fastforce
  show ?case
  proof (cases ok)
    case True
    then have "contents s1 = contents s @ d" using appends s1(1) Cons.prems by simp
    then show ?thesis using Cons.IH [OF s1(2)] Cons.prems(2) s1(1) True by simp
  next
    case False
    then obtain lost where lost: "contents s1 @ lost = contents s @ d"
      using keeps_prefix [of s d s1] s1(1) Cons.prems by auto
    have "contents s1 @ (lost @ concat ds) = contents s @ concat (d # ds)"
      using lost by (metis append.assoc concat.simps(2))
    then show ?thesis using s1 False 
      by (intro exI [of _ s1] exI [of _ False] exI [of _ "lost @ concat ds"]) simp
  qed
qed

end

interpretation ub: byte_sink "\<lambda>w d. posixc_unbuffered_write os fd w d (length d)"
  "\<lambda>w. bytes_of w fd" "\<lambda>w. kernel_ok os \<and> progress os"
proof
  fix w w' :: wworld and d :: "char list"
  assume w: "kernel_ok os \<and> progress os" "length d < size_mod"
  from unbuffered_write_ok [of os d fd w "[]"] w
  obtain r where r: "posixc_unbuffered_write os fd w d (length d) = Some (Inr r)" "wrote fd d w r"
    by auto
  show "\<exists>s' ok. posixc_unbuffered_write os fd w d (length d) = Some (Inr (s', ok)) \<and>
      kernel_ok os \<and> progress os" using r(1) w(1) by (cases r) simp
  show "bytes_of w' fd = bytes_of w fd @ d"
    if "posixc_unbuffered_write os fd w d (length d) = Some (Inr (w', True))"
    using that r wrote_all by auto
  show "\<exists>lost. bytes_of w' fd @ lost = bytes_of w fd @ d"
    if "posixc_unbuffered_write os fd w d (length d) = Some (Inr (w', False))"
    using that r wrote_part [of fd d w w' False] by (metis append.assoc append_take_drop_id option.inject sum.inject(2))
qed

section \<open>The buffered writer\<close>

definition bw_ok :: "posixc_buffered_writable \<Rightarrow> bool" where
  "bw_ok bw \<longleftrightarrow> length (bbuf bw) = buffered_writable_size \<and> pos bw \<le> buffered_writable_size"

definition stream :: "wworld \<times> posixc_buffered_writable \<Rightarrow> char list" where
  "stream s = bytes_of (fst s) (bfd (snd s)) @ take (pos (snd s)) (bbuf (snd s))"

lemma small_sizes: "n \<le> buffered_writable_size \<Longrightarrow> to_u64 (to_int32 (int n)) = n"
  "n \<le> buffered_writable_size \<Longrightarrow> n < size_mod"
  by (simp_all add: buffered_writable_size_def to_u64_def is_int_def INT_MIN_def INT_MAX_def size_mod_def)

lemma flush_ok:
  assumes "kernel_ok os" "progress os" "bw_ok bw"
  shows "\<exists>w' ok. posixc_flush os w bw = Some (Inr ((w', bw\<lparr>pos := 0\<rparr>), ok)) \<and>
    wrote (bfd bw) (take (pos bw) (bbuf bw)) w (w', ok) \<and> (\<not> ok \<longrightarrow> may_fail os)"
proof -
  let ?b = "take (pos bw) (bbuf bw)"
  have len: "length ?b = pos bw" "length ?b < size_mod" "to_u64 (to_int32 (int (pos bw))) = pos bw"
    using assms(3) small_sizes by (auto simp: bw_ok_def)
  obtain w' ok where "posixc_unbuffered_write os (bfd bw) w (?b @ drop (pos bw) (bbuf bw)) (length ?b) =
      Some (Inr (w', ok))" "wrote (bfd bw) ?b w (w', ok)" "\<not> ok \<longrightarrow> may_fail os"
    using unbuffered_write_ok [OF assms(1,2) len(2), of "bfd bw" w "drop (pos bw) (bbuf bw)"] by auto
  then show ?thesis using len by (simp add: posixc_flush_def Let_def)
qed

text \<open>The three ways of a buffered write: it fits; it is flushed and the rest fits; the rest is written
  directly.\<close>

lemma buffered_write_fits:
  assumes "bw_ok bw" "pos bw + length d \<le> buffered_writable_size"
  shows "posixc_buffered_write os w bw d (length d) =
    Some (Inr ((w, bw\<lparr>bbuf := take (pos bw) (bbuf bw) @ d @ drop (pos bw + length d) (bbuf bw),
      pos := pos bw + length d\<rparr>), True))"
proof -
  have small: "pos bw + length d < size_mod" "buffered_writable_size < size_mod" "length d < size_mod"
    using assms(2) small_sizes(2) by force+
  have "posixc_min (length d) (szt_sub buffered_writable_size (pos bw)) = length d"
    using assms small by (auto simp: posixc_min_def bw_ok_def)
  then show ?thesis using assms small by (simp add: posixc_buffered_write_def bw_ok_def Let_def)
qed

lemma buffered_write_spills:
  assumes "bw_ok bw" "\<not> pos bw + length d \<le> buffered_writable_size" "length d < size_mod"
  defines "n \<equiv> buffered_writable_size - pos bw"
  shows "posixc_buffered_write os w bw d (length d) =
    bindR (posixc_flush os w (bw\<lparr>bbuf := take (pos bw) (bbuf bw) @ take n d,
        pos := buffered_writable_size\<rparr>)) (\<lambda>((w, bw), ok).
      if ok then
        (if length d - n < buffered_writable_size
         then bindR (Some (blit (bbuf bw) 0 (drop n d) (length d - n))) (\<lambda>b.
              Some (Inr ((w, bw\<lparr>bbuf := b, pos := length d - n\<rparr>), True)))
         else bindR (posixc_unbuffered_write os (bfd bw) w (drop n d) (length d - n)) (\<lambda>(w, ok).
              Some (Inr ((w, bw), ok))))
      else Some (Inr ((w, bw), False)))"
proof -
  have small: "buffered_writable_size < size_mod" using small_sizes(2) by force
  have min: "posixc_min (length d) (szt_sub buffered_writable_size (pos bw)) = n"
    using assms small by (auto simp: posixc_min_def bw_ok_def)
  have n: "szt_add (pos bw) n = buffered_writable_size" "n < length d"
    "length (bbuf bw) = pos bw + n"
    using assms(1,2) small unfolding n_def bw_ok_def by auto
  have rest: "szt_sub (length d) n = length d - n" using n(2) assms(3) by simp
  show ?thesis using n unfolding posixc_buffered_write_def Let_def min rest by simp
qed

lemma stream_simps:
  "stream (w, bw) = bytes_of w (bfd bw) @ take (pos bw) (bbuf bw)"
  by (simp add: stream_def)

text \<open>The flush of the full buffer in between.\<close>

lemma spill_flush:
  assumes os: "kernel_ok os" "progress os" and bw: "bw_ok bw"
    and "\<not> pos bw + length d \<le> buffered_writable_size"
  defines "n \<equiv> buffered_writable_size - pos bw"
  defines "b \<equiv> bw\<lparr>bbuf := take (pos bw) (bbuf bw) @ take n d, pos := buffered_writable_size\<rparr>"
  obtains w1 ok where "posixc_flush os w b = Some (Inr ((w1, b\<lparr>pos := 0\<rparr>), ok))" "\<not> ok \<longrightarrow> may_fail os"
    "bw_ok (b\<lparr>pos := 0\<rparr>)" "ok \<Longrightarrow> bytes_of w1 (bfd bw) = stream (w, bw) @ take n d"
    "\<exists>lost. bytes_of w1 (bfd bw) @ lost = stream (w, bw) @ d"
proof -
  have n: "n \<le> length d" "pos bw + n = buffered_writable_size" using assms(4) bw by (auto simp: n_def bw_ok_def)
  have b: "bw_ok b" "take (pos b) (bbuf b) = take (pos bw) (bbuf bw) @ take n d" "bfd b = bfd bw"
    using bw n(1) by (simp_all add: b_def bw_ok_def n(2) [symmetric])
  obtain w1 ok where f: "posixc_flush os w b = Some (Inr ((w1, b\<lparr>pos := 0\<rparr>), ok))" "\<not> ok \<longrightarrow> may_fail os"
    "wrote (bfd bw) (take (pos bw) (bbuf bw) @ take n d) w (w1, ok)"
    using flush_ok [OF os b(1), of w] unfolding b(2,3) by blast
  obtain k where k: "bytes_of w1 (bfd bw) = bytes_of w (bfd bw) @ take k (take (pos bw) (bbuf bw) @ take n d)"
    using wrote_part [OF f(3)] by blast
  have "take k (take (pos bw) (bbuf bw) @ take n d) @ (drop k (take (pos bw) (bbuf bw) @ take n d) @ drop n d)
      = take (pos bw) (bbuf bw) @ d" by (metis append.assoc append_take_drop_id)
  then have "\<exists>lost. bytes_of w1 (bfd bw) @ lost = stream (w, bw) @ d" unfolding k by (metis append.assoc stream_simps)
  moreover have "bw_ok (b\<lparr>pos := 0\<rparr>)" using b(1) by (simp add: bw_ok_def)
  moreover have "bytes_of w1 (bfd bw) = stream (w, bw) @ take n d" if ok
    using wrote_all [OF f(3) that] by (simp add: stream_simps)
  ultimately show ?thesis using that f(1,2) by blast
qed

lemma buffered_write_ok:
  assumes os: "kernel_ok os" "progress os" and bw: "bw_ok bw" and d: "length d < size_mod"
  shows "\<exists>w' bw' ok lost. posixc_buffered_write os w bw d (length d) = Some (Inr ((w', bw'), ok)) \<and>
    bw_ok bw' \<and> bfd bw' = bfd bw \<and> stream (w', bw') @ lost = stream (w, bw) @ d \<and> (ok \<longrightarrow> lost = []) \<and>
    (\<not> ok \<longrightarrow> may_fail os)"
proof (cases "pos bw + length d \<le> buffered_writable_size")
  case True
  then show ?thesis using bw buffered_write_fits [OF bw True, of os w]
    by (simp add: bw_ok_def stream_simps exI [of _ True])
next
  case False
  define n where "n = buffered_writable_size - pos bw"
  define b where "b = bw\<lparr>bbuf := take (pos bw) (bbuf bw) @ take n d, pos := buffered_writable_size\<rparr>"
  let ?b0 = "b\<lparr>pos := 0\<rparr>"
  obtain w1 ok1 where f: "posixc_flush os w b = Some (Inr ((w1, ?b0), ok1))" "\<not> ok1 \<longrightarrow> may_fail os"
    "bw_ok ?b0" "ok1 \<Longrightarrow> bytes_of w1 (bfd bw) = stream (w, bw) @ take n d"
    "\<exists>lost. bytes_of w1 (bfd bw) @ lost = stream (w, bw) @ d"
    using spill_flush [OF os bw False, folded n_def, folded b_def] by metis
  note run = buffered_write_spills [OF bw False d, folded n_def, folded b_def]
  have fd: "bfd ?b0 = bfd bw" by (simp add: b_def)
  consider (lost) "\<not> ok1" | (fits) "ok1" "length d - n < buffered_writable_size"
    | (direct) "ok1" "\<not> length d - n < buffered_writable_size" by blast
  then show ?thesis
  proof cases
    case lost
    then show ?thesis using run f(1,2,3,5) fd by (auto simp: stream_simps)
  next
    case fits
    let ?b1 = "?b0\<lparr>bbuf := drop n d @ drop (length d - n) (bbuf b), pos := length d - n\<rparr>"
    have "length (bbuf b) = buffered_writable_size" using f(3) by (simp add: bw_ok_def)
    then have "posixc_buffered_write os w bw d (length d) = Some (Inr ((w1, ?b1), True))" "bw_ok ?b1"
      using run f(1) fits by (simp_all add: bw_ok_def)
    then show ?thesis using f(4) [OF fits(1)] fd
      by (intro exI [of _ w1] exI [of _ ?b1] exI [of _ True] exI [of _ "[]"]) (simp add: stream_simps)
  next
    case direct
    have "length (drop n d) < size_mod" using d by simp
    from unbuffered_write_ok [OF os this, of "bfd bw" w1 "[]"]
    obtain w2 ok2 where 2: "posixc_unbuffered_write os (bfd bw) w1 (drop n d) (length d - n) = Some (Inr (w2, ok2))"
      "wrote (bfd bw) (drop n d) w1 (w2, ok2)" "\<not> ok2 \<longrightarrow> may_fail os" by auto
    obtain k i where "w2 = (accept w1 (bfd bw) (take k (drop n d)))\<lparr>calls := i\<rparr>"
      and k: "ok2 \<longrightarrow> k = length (drop n d)" using 2(2) unfolding wrote_def fst_conv snd_conv by blast
    then have "bytes_of w2 (bfd bw) @ drop k (drop n d) = stream (w, bw) @ d"
      using f(4) [OF direct(1)] by (simp del: drop_drop)
    then show ?thesis using run f(1,3) direct fd 2(1,3) k
      by (intro exI [of _ w2] exI [of _ ?b0] exI [of _ ok2] exI [of _ "drop k (drop n d)"])
         (simp add: stream_simps)
  qed
qed

interpretation bw: byte_sink "\<lambda>(w, bw) d. posixc_buffered_write os w bw d (length d)" stream
  "\<lambda>(w, bw). kernel_ok os \<and> progress os \<and> bw_ok bw \<and> bfd bw = fd"
proof
  fix s s' :: "wworld \<times> posixc_buffered_writable" and d :: "char list"
  assume inv: "case s of (w, bw) \<Rightarrow> kernel_ok os \<and> progress os \<and> bw_ok bw \<and> bfd bw = fd"
    and d: "length d < size_mod"
  obtain w bw where s: "s = (w, bw)" by (cases s)
  obtain w' bw' ok lost where r: "posixc_buffered_write os w bw d (length d) = Some (Inr ((w', bw'), ok))"
    "bw_ok bw'" "bfd bw' = bfd bw" "stream (w', bw') @ lost = stream (w, bw) @ d" "ok \<longrightarrow> lost = []"
    using buffered_write_ok [of os bw d w] inv d s by auto
  show "\<exists>s' ok. (case s of (w, bw) \<Rightarrow> \<lambda>d. posixc_buffered_write os w bw d (length d)) d =
      Some (Inr (s', ok)) \<and> (case s' of (w, bw) \<Rightarrow> kernel_ok os \<and> progress os \<and> bw_ok bw \<and> bfd bw = fd)"
    using r(1-3) inv s by simp
  show "stream s' = stream s @ d"
    if "(case s of (w, bw) \<Rightarrow> \<lambda>d. posixc_buffered_write os w bw d (length d)) d = Some (Inr (s', True))"
    using that r s by auto
  show "\<exists>lost. stream s' @ lost = stream s @ d"
    if "(case s of (w, bw) \<Rightarrow> \<lambda>d. posixc_buffered_write os w bw d (length d)) d = Some (Inr (s', False))"
    using that r s by auto
qed

section \<open>A system that reports no errors\<close>

definition reliable :: "write_os \<Rightarrow> bool" where
  "reliable os \<longleftrightarrow> kernel_ok os \<and> progress os \<and> \<not> may_fail os"

lemma flush_reliable:
  assumes "reliable os" "bw_ok bw"
  obtains w' where "posixc_flush os w bw = Some (Inr ((w', bw\<lparr>pos := 0\<rparr>), True))"
    "bytes_of w' (bfd bw) = stream (w, bw)"
proof -
  obtain w' ok where w': "posixc_flush os w bw = Some (Inr ((w', bw\<lparr>pos := 0\<rparr>), ok))"
    "wrote (bfd bw) (take (pos bw) (bbuf bw)) w (w', ok)" "ok"
    using flush_ok [of os bw w] assms by (auto simp: reliable_def)
  then show ?thesis using that wrote_all [OF w'(2)] by (simp add: stream_simps)
qed

lemma buffered_reliable:
  assumes "reliable os" "bw_ok bw" "length d < size_mod"
  obtains w' bw' where "posixc_buffered_write os w bw d (length d) = Some (Inr ((w', bw'), True))"
    "bw_ok bw'" "bfd bw' = bfd bw" "stream (w', bw') = stream (w, bw) @ d"
proof -
  obtain w' bw' ok lost where r: "posixc_buffered_write os w bw d (length d) = Some (Inr ((w', bw'), ok))"
    "bw_ok bw'" "bfd bw' = bfd bw" "stream (w', bw') @ lost = stream (w, bw) @ d" "ok \<longrightarrow> lost = []" "ok"
    using buffered_write_ok [of os bw d w] assms unfolding reliable_def by blast
  then show ?thesis using that by simp
qed

section \<open>Reading\<close>

lemma read_interrupted:
  assumes "\<forall>j. i \<le> j \<and> j < i + k \<longrightarrow> os j n = Read_Interrupted"
  shows "posixc_read os i buf n = posixc_read os (i + k) buf n"
  using assms
proof (induction k arbitrary: i)
  case (Suc k)
  have "os i n = Read_Interrupted" using Suc.prems by simp
  then have "posixc_read os i buf n = posixc_read os (i + 1) buf n"
    by (subst posixc_read.simps) simp
  then show ?case using Suc.IH [of "i + 1"] Suc.prems by simp
qed simp

section \<open>Modes\<close>

text \<open>\<open>posixc_is_user_rwx\<close> holds for the permission bits \<open>0700\<close> and no others.\<close>

lemma is_user_rwx_iff: "posixc_is_user_rwx st \<longleftrightarrow> st_mode st AND 0x1FF = 0x1C0"
proof -
  have "m AND 0x1FF = 0x1C0 \<longleftrightarrow> m AND 0x3F = 0 \<and> m AND 0x1C0 = 0x1C0" for m :: "32 word"
  proof
    assume m: "m AND 0x1FF = 0x1C0"
    have "m AND 0x3F = (m AND 0x1FF) AND 0x3F" "m AND 0x1C0 = (m AND 0x1FF) AND 0x1C0"
      by (simp_all add: and.assoc)
    then show "m AND 0x3F = 0 \<and> m AND 0x1C0 = 0x1C0" unfolding m by simp
  next
    assume m: "m AND 0x3F = 0 \<and> m AND 0x1C0 = 0x1C0"
    have "m AND 0x1FF = (m AND 0x3F) OR (m AND 0x1C0)"
      by (simp flip: bit.conj_disj_distrib)
    then show "m AND 0x1FF = 0x1C0" using m by simp
  qed
  then show ?thesis by (simp add: posixc_is_user_rwx_def S_IRWXU_def S_IRWXG_def S_IRWXO_def)
qed

section \<open>Directory paths\<close>

text \<open>The directories on the way to \<open>d\<close>, outermost first.\<close>

definition ancestors :: "char list \<Rightarrow> char list list" where
  "ancestors d = map (\<lambda>i. take i d) (filter (\<lambda>i. d ! i = CHR ''/'') [1..<length d])"

lemma cstr_simps: "nul \<notin> set s \<Longrightarrow> cstr (map Some s @ Some nul # rest) = s"
  by (auto simp: cstr_def takeWhile_append comp_def image_iff takeWhile_map)

lemma rd_char_in: "i < length s \<Longrightarrow> rd_char (map Some s @ rest) i = Inr (s ! i)"
  by (simp add: rd_char_def nth_append)

lemma rd_char_end: "rd_char (map Some s @ Some nul # rest) (length s) = Inr nul"
  by (simp add: rd_char_def nth_append)

lemma mkdir_loop_spec:
  assumes s: "nul \<notin> set s"
  shows "p \<le> length s \<Longrightarrow> mkdir_loop (map Some s @ Some nul # rest) p made =
    Inr (map Some s @ Some nul # rest,
      made @ map (\<lambda>i. mkdir (take i s)) (filter (\<lambda>i. s ! i = CHR ''/'') [p..<length s]))"
proof (induction "length s - p" arbitrary: p made)
  case 0
  then have "p = length s" by simp
  then show ?case by (subst mkdir_loop.simps) (simp add: rd_char_end)
next
  case (Suc k)
  let ?t = "map Some s @ Some nul # rest"
  have p: "p < length s" and up: "[p..<length s] = p # [Suc p..<length s]"
    using Suc.hyps(2) by (simp_all add: upt_conv_Cons)
  have "s ! p \<noteq> nul" using s p nth_mem by metis
  moreover have "?t[p := Some nul] = map Some (take p s) @ Some nul # (map Some (drop (Suc p) s) @ Some nul # rest)"
    using p by (simp add: list_update_append upd_conv_take_nth_drop take_map drop_map)
  then have "cstr (?t[p := Some nul]) = take p s" using s by (metis cstr_simps in_set_takeD)
  moreover have "s ! p = CHR ''/'' \<Longrightarrow> ?t[p := Some CHR ''/''] = ?t"
    using p by (intro nth_equalityI) (auto simp: nth_append nth_list_update)
  moreover have "\<And>made. mkdir_loop ?t (Suc p) made =
      Inr (?t, made @ map (\<lambda>i. mkdir (take i s)) (filter (\<lambda>i. s ! i = CHR ''/'') [Suc p..<length s]))"
    using p Suc.hyps(2) by (intro Suc.hyps(1)) simp_all
  ultimately show ?case using p unfolding up
    by (subst mkdir_loop.simps) (simp add: rd_char_in Let_def)
qed

lemma mkdir_loop_path:
  assumes "nul \<notin> set d" "d \<noteq> []"
  shows "mkdir_loop (map Some d @ Some nul # rest) 1 [] = Inr (map Some d @ Some nul # rest, map mkdir (ancestors d))"
  using mkdir_loop_spec [of d 1 rest "[]"] assms by (simp add: ancestors_def comp_def Suc_le_eq)

text \<open>The loop starts at the second byte. When the path was cut down to nothing, this is behind its
  terminator, and the loop walks over what followed the slash.\<close>

lemma mkdir_loop_no_slash:
  assumes "nul \<notin> set base" "CHR ''/'' \<notin> set base"
  shows "mkdir_loop (pre @ map Some base @ Some nul # rest) (length pre) made =
    Inr (pre @ map Some base @ Some nul # rest, made)"
  using assms
proof (induction base arbitrary: pre)
  case Nil
  then show ?case by (subst mkdir_loop.simps) (simp add: rd_char_def nth_append)
next
  case (Cons c base)
  then show ?case using Cons.IH [of "pre @ [Some c]"]
    by (subst mkdir_loop.simps) (auto simp: rd_char_def nth_append)
qed

lemma mkdir_loop_cut:
  assumes "nul \<notin> set d" "nul \<notin> set base" "CHR ''/'' \<notin> set base"
  shows "mkdir_loop (map Some d @ Some nul # map Some base @ Some nul # rest) 1 [] =
    Inr (map Some d @ Some nul # map Some base @ Some nul # rest, map mkdir (ancestors d))"
proof (cases "d = []")
  case True
  then show ?thesis using mkdir_loop_no_slash [OF assms(2,3), of "[Some nul]" rest "[]"]
    by (simp add: ancestors_def)
qed (use mkdir_loop_path [OF assms(1)] in simp)

text \<open>\<open>snprintf\<close> keeps the first 1023 bytes.\<close>

lemma snprintf_cut:
  assumes "nul \<notin> set s"
  obtains rest where "snprintf_s tmp_cap s = map Some (take (tmp_cap - 1) s) @ Some nul # rest"
    "cstr (snprintf_s tmp_cap s) = take (tmp_cap - 1) s"
proof -
  have "nul \<notin> set (take (tmp_cap - 1) s)" using assms by (auto dest: in_set_takeD)
  then show ?thesis using that [of "replicate (tmp_cap - 1 - length s) None"]
    by (simp add: snprintf_s_def cstr_simps)
qed

text \<open>\<open>dir\<close> without a slash at its end.\<close>

definition chop :: "char list \<Rightarrow> char list" where
  "chop dir = (if last dir = CHR ''/'' then butlast dir else dir)"

lemma last_slash_found:
  assumes "CHR ''/'' \<notin> set base"
  shows "last_slash (map Some (d @ CHR ''/'' # base) @ rest) (Suc (length d + length base)) = Inr (length d)"
  using assms
proof (induction base arbitrary: rest rule: rev_induct)
  case Nil
  then show ?case using rd_char_in [of "length d" "d @ [CHR ''/'']" rest] by simp
next
  case (snoc c base)
  have "rd_char (map Some (d @ CHR ''/'' # base @ [c]) @ rest) (Suc (length d + length base)) = Inr c"
    by (subst rd_char_in) (simp_all add: nth_append)
  then show ?case using snoc.IH [of "Some c # rest"] snoc.prems by auto
qed

lemma last_slash_none:
  "CHR ''/'' \<notin> set s \<Longrightarrow> k \<le> length s \<Longrightarrow> last_slash (map Some s @ rest) k = Inl Out_Of_Bounds"
proof (induction k)
  case (Suc k)
  then have "k < length s" "s ! k \<in> set s" by simp_all
  then have "rd_char (map Some s @ rest) k = Inr (s ! k)" "s ! k \<noteq> CHR ''/''"
    using rd_char_in [of k s rest] Suc.prems(1) by metis+
  then show ?case using Suc by simp
qed simp

lemma prepare_dirs_ok:
  assumes "nul \<notin> set f" "take (tmp_cap - 1) f = d @ CHR ''/'' # base" "CHR ''/'' \<notin> set base"
  shows "posixc_prepare_dirs_for dir_exists f = Inr (if dir_exists d then [] else map mkdir (ancestors d @ [d]))"
proof -
  let ?f = "d @ CHR ''/'' # base"
  obtain rest where start: "snprintf_s tmp_cap f = map Some ?f @ Some nul # rest" "cstr (snprintf_s tmp_cap f) = ?f"
    using snprintf_cut [OF assms(1)] unfolding assms(2) by blast
  let ?t = "map Some ?f @ Some nul # rest"
  have slash: "last_slash ?t (length ?f) = Inr (length d)"
    using last_slash_found [OF assms(3), of d "Some nul # rest"] by simp
  have cut: "?t[length d := Some nul] = map Some d @ Some nul # map Some base @ Some nul # rest"
    by (simp add: list_update_append)
  have "nul \<notin> set ?f" using assms(1) unfolding assms(2) [symmetric] by (auto dest: in_set_takeD)
  then have nul: "nul \<notin> set d" "nul \<notin> set base" by simp_all
  have le: "length ?f \<le> tmp_cap" unfolding assms(2) [symmetric] by simp
  have cstr: "cstr ?t = ?f" using start by simp
  show ?thesis unfolding posixc_prepare_dirs_for_def Let_def start(1) cstr
    using le by (simp only: slash assertE_simps bindE_simps cut cstr_simps [OF nul(1)]
        mkdir_loop_cut [OF nul assms(3)] prod.case) simp
qed

section \<open>Properties\<close>

text \<open>C16: when the system makes progress, \<open>posixc_unbuffered_write\<close> returns. It has made a sequence of calls,
  each of which offers what the calls before it have left; no call follows a failure, and the last
  one is a failure or takes the rest. The result is \<open>false\<close> exactly when a call failed: interrupted and
  partial writes are repeated. The descriptor has got, behind what it had, the bytes that the calls
  took, and other descriptors nothing.\<close>

theorem unbuffered_write_correct:
  assumes "kernel_ok os" "progress os" "length data < size_mod"
  shows "\<exists>w' as. posixc_unbuffered_write os fd w data (length data) = Some (Inr (w', Write_Failed \<notin> set as)) \<and>
    answered os (calls w) (length data) as \<and> Write_Failed \<notin> set (butlast as) \<and>
    (Write_Failed \<in> set as \<or> taken as = length data) \<and> calls w' = calls w + length as \<and>
    bytes_of w' fd = bytes_of w fd @ take (taken as) data \<and>
    (\<forall>fd'. fd' \<noteq> fd \<longrightarrow> bytes_of w' fd' = bytes_of w fd')"
proof -
  obtain w' ok where r: "posixc_unbuffered_write os fd w data (length data) = Some (Inr (w', ok))"
    "wrote fd data w (w', ok)" using unbuffered_write_ok [OF assms, of fd w "[]"] by auto
  obtain as where "ok \<longleftrightarrow> Write_Failed \<notin> set as" "answered os (calls w) (length data) as"
    "Write_Failed \<notin> set (butlast as)" "Write_Failed \<in> set as \<or> taken as = length data"
    "calls w' = calls w + length as" "bytes_of w' fd = bytes_of w fd @ take (taken as) data"
    using unbuffered_write_answers [OF r(1)] assms(1,3) by (auto simp: write_answers_def)
  then show ?thesis using r wrote_other [OF r(2)] by (intro exI [of _ w'] exI [of _ as]) simp
qed

text \<open>An operating system that interrupts every other call and takes at most three bytes at a time.\<close>

definition slow_os :: write_os where
  "slow_os i n = (if even i then Write_Interrupted else Wrote (min 3 n))"

lemma slow_os_ok [simp]: "kernel_ok slow_os" "progress slow_os"
proof -
  show "kernel_ok slow_os" by (auto simp: kernel_ok_def slow_os_def split: if_splits)
  have "\<exists>j\<ge>i. odd j" for i :: nat by (cases "odd i") (auto intro: exI [of _ i] exI [of _ "Suc i"])
  then show "progress slow_os" by (fastforce simp: progress_def slow_os_def)
qed

definition idle :: wworld where
  "idle = \<lparr>calls = 0, bytes_of = (\<lambda>_. [])\<rparr>"

theorem unbuffered_write_correct_witness:
  "\<exists>w'. posixc_unbuffered_write slow_os 1 idle ''hello'' (length ''hello'') = Some (Inr (w', True)) \<and>
    bytes_of w' 1 = ''hello''"
proof -
  have "length ''hello'' < size_mod" by (simp add: size_mod_def)
  then obtain w' as where w': "posixc_unbuffered_write slow_os 1 idle ''hello'' (length ''hello'') =
      Some (Inr (w', Write_Failed \<notin> set as))" "answered slow_os (calls idle) (length ''hello'') as"
    "Write_Failed \<in> set as \<or> taken as = length ''hello''" "bytes_of w' 1 = bytes_of idle 1 @ take (taken as) ''hello''"
    using unbuffered_write_correct [of slow_os "''hello''" 1 idle] by (metis slow_os_ok)
  have "Write_Failed \<notin> set as" using answered_in [OF w'(2), of Write_Failed]
    by (auto simp: slow_os_def split: if_splits)
  then show ?thesis using w' by (auto simp: idle_def)
qed

text \<open>C2: any sequence of buffered writes returns, and the file followed by the buffer is the same
  stream of bytes as if each write had gone to the file; after a successful flush the file alone is
  that stream. When a write fails, the stream has lost bytes only at its end.\<close>

theorem buffered_writes_correct:
  assumes "kernel_ok os" "progress os" "bw_ok bw" "\<forall>d\<in>set ds. length d < size_mod"
  shows "\<exists>w1 bw1 ok lost. put_seq (\<lambda>(w, bw) d. posixc_buffered_write os w bw d (length d)) (w, bw) ds =
      Some (Inr ((w1, bw1), ok)) \<and>
    stream (w1, bw1) @ lost = stream (w, bw) @ concat ds \<and> (ok \<longrightarrow> lost = []) \<and>
    (\<exists>w2 bw2 ok2. posixc_flush os w1 bw1 = Some (Inr ((w2, bw2), ok2)) \<and>
      (ok \<and> ok2 \<longrightarrow> bytes_of w2 (bfd bw) = stream (w, bw) @ concat ds))"
proof -
  obtain w1 bw1 ok lost where 1: "put_seq (\<lambda>(w, bw) d. posixc_buffered_write os w bw d (length d)) (w, bw) ds =
      Some (Inr ((w1, bw1), ok))" "bw_ok bw1" "bfd bw1 = bfd bw"
    "stream (w1, bw1) @ lost = stream (w, bw) @ concat ds" "ok \<longrightarrow> lost = []"
    using bw.put_seq_ok [of os "bfd bw" "(w, bw)" ds] assms by auto
  obtain w2 ok2 where 2: "posixc_flush os w1 bw1 = Some (Inr ((w2, bw1\<lparr>pos := 0\<rparr>), ok2))"
    "wrote (bfd bw1) (take (pos bw1) (bbuf bw1)) w1 (w2, ok2)"
    using flush_ok [OF assms(1,2) 1(2)] by blast
  have "ok \<and> ok2 \<longrightarrow> bytes_of w2 (bfd bw) = stream (w, bw) @ concat ds"
    using wrote_all [OF 2(2)] 1(3-5) by (auto simp: stream_simps)
  then show ?thesis using 1(1,4,5) 2(1)
    by (intro exI [of _ w1] exI [of _ bw1] exI [of _ ok] exI [of _ lost]) auto
qed

definition new_writer :: posixc_buffered_writable where
  "new_writer = \<lparr>bbuf = replicate buffered_writable_size nul, pos = 0, bfd = 3\<rparr>"

lemma new_writer_ok [simp]: "bw_ok new_writer" "stream (idle, new_writer) = []" "bfd new_writer = 3"
  by (simp_all add: new_writer_def bw_ok_def stream_def idle_def)

theorem buffered_writes_correct_witness:
  "\<exists>w1 bw1 ok lost. put_seq (\<lambda>(w, bw) d. posixc_buffered_write slow_os w bw d (length d))
      (idle, new_writer) [''ab'', replicate 5000 CHR ''x''] = Some (Inr ((w1, bw1), ok)) \<and>
    stream (w1, bw1) @ lost = ''ab'' @ replicate 5000 CHR ''x'' \<and> (ok \<longrightarrow> lost = [])"
  using buffered_writes_correct [of slow_os new_writer "[''ab'', replicate 5000 CHR ''x'']" idle]
  by (fastforce simp: size_mod_def)

text \<open>C37: a flush that fails forgets the buffered bytes: the next flush reports success and writes
  nothing.\<close>

theorem flush_failure_forgets:
  assumes "posixc_flush os w bw = Some (Inr ((w1, bw1), False))"
  shows "posixc_flush os w1 bw1 = Some (Inr ((w1, bw1), True)) \<and> pos bw1 = 0"
proof -
  have "bw1 = bw\<lparr>pos := 0\<rparr>" using assms
    by (auto simp: posixc_flush_def Let_def bindR_def split: option.splits sum.splits prod.splits)
  then show ?thesis
    by (simp add: posixc_flush_def Let_def to_u64_def to_int32_def posixc_unbuffered_write.simps)
qed

definition full_disk :: write_os where
  "full_disk i n = Write_Failed"

theorem flush_failure_forgets_witness:
  "posixc_flush full_disk (idle\<lparr>calls := 1\<rparr>) (new_writer\<lparr>pos := 0\<rparr>) =
    Some (Inr ((idle\<lparr>calls := 1\<rparr>, new_writer\<lparr>pos := 0\<rparr>), True))"
proof -
  have "posixc_flush full_disk idle (new_writer\<lparr>pos := 5\<rparr>) =
      Some (Inr ((idle\<lparr>calls := 1\<rparr>, new_writer\<lparr>pos := 0\<rparr>), False))"
    by (simp add: posixc_flush_def Let_def to_u64_def to_int32_def posixc_unbuffered_write.simps
        full_disk_def new_writer_def buffered_writable_size_def idle_def)
  then show ?thesis using flush_failure_forgets by blast
qed

text \<open>C32: for a path that is not empty, \<open>posixc_recursive_mkdir\<close> calls \<open>mkdir\<close>, with the mode
  \<open>S_IRWXU|S_IRWXG|S_IROTH\<close>, for every directory on the path, parents first, and for the path itself without
  its last slash. The path is cut after 1023 bytes first, without notice; the path \<open>/\<close> gives one call
  for the empty path.\<close>

theorem recursive_mkdir_parents_first:
  assumes "nul \<notin> set dir" "dir \<noteq> []"
  shows "posixc_recursive_mkdir dir = Inr (map (\<lambda>path. (path, 0x1FC))
    (ancestors (chop (take (tmp_cap - 1) dir)) @ [chop (take (tmp_cap - 1) dir)]))"
proof -
  let ?d = "take (tmp_cap - 1) dir"
  obtain rest where start: "snprintf_s tmp_cap dir = map Some ?d @ Some nul # rest" "cstr (snprintf_s tmp_cap dir) = ?d"
    using snprintf_cut [OF assms(1)] by blast
  let ?t = "map Some ?d @ Some nul # rest"
  have ne: "?d \<noteq> []" and le: "length ?d \<le> tmp_cap" using assms(2) by (simp_all add: tmp_cap_def)
  have "length ?d < size_mod" using le by (simp add: tmp_cap_def size_mod_def)
  then have idx: "szt_sub (length ?d) 1 = length ?d - 1" using ne by (intro szt_sub_exact) (auto simp: Suc_le_eq)
  have last: "rd_char ?t (szt_sub (length ?d) 1) = Inr (last ?d)"
    unfolding idx using rd_char_in [of "length ?d - 1" ?d "Some nul # rest"] ne
    by (metis diff_less last_conv_nth length_greater_0_conv zero_less_one)
  have nul: "nul \<notin> set ?d" using assms(1) by (auto dest: in_set_takeD)
  have nulc: "nul \<notin> set (chop ?d)" using nul by (auto simp: chop_def dest: in_set_butlastD)
  obtain rest' where t: "(if last ?d = CHR ''/'' then ?t[length ?d - 1 := Some nul] else ?t) =
      map Some (chop ?d) @ Some nul # rest'"
    "mkdir_loop (map Some (chop ?d) @ Some nul # rest') 1 [] =
      Inr (map Some (chop ?d) @ Some nul # rest', map mkdir (ancestors (chop ?d)))"
  proof (cases "last ?d = CHR ''/''")
    case True
    have "?t[length ?d - 1 := Some nul] = map Some (butlast ?d) @ Some nul # map Some [] @ Some nul # rest"
      using ne by (cases ?d rule: rev_cases) (simp_all add: list_update_append)
    then show ?thesis using that [of "map Some [] @ Some nul # rest"] mkdir_loop_cut [OF nulc, of "[]" rest] True
      by (simp add: chop_def)
  next
    case False
    then have "chop ?d = ?d" by (simp add: chop_def)
    then show ?thesis using that [of rest] mkdir_loop_path [OF nul ne, of rest] False by simp
  qed
  have cstr: "cstr ?t = ?d" using start by simp
  have "posixc_recursive_mkdir dir = Inr (map mkdir (ancestors (chop ?d) @ [chop ?d]))"
    unfolding posixc_recursive_mkdir_def Let_def start(1) cstr last
    using le by (simp only: t assertE_simps bindE_simps cstr_simps [OF nulc] prod.case) simp
  then show ?thesis by (simp add: mkdir_def S_IRWXU_def S_IRWXG_def S_IROTH_def)
qed

theorem recursive_mkdir_parents_first_witness:
  "posixc_recursive_mkdir ''/var/log/'' = Inr [(''/var'', 0x1FC), (''/var/log'', 0x1FC)]"
proof -
  have "ancestors ''/var/log'' = [''/var'']" by code_simp
  then show ?thesis using recursive_mkdir_parents_first [of "''/var/log/''"]
    by (simp add: chop_def tmp_cap_def)
qed

text \<open>For the empty path the byte before the array is read.\<close>

lemma recursive_mkdir_empty: "posixc_recursive_mkdir [] = Inl Out_Of_Bounds"
proof -
  have "cstr (Some nul # rest) = []" for rest by (simp add: cstr_def)
  moreover have "szt_sub 0 1 = size_mod - 1" by (rule szt_sub_0_1)
  ultimately show ?thesis
    by (simp add: posixc_recursive_mkdir_def snprintf_s_def rd_char_def tmp_cap_def size_mod_def)
qed

text \<open>C33: for a file name whose first 1023 bytes, which are all that \<open>snprintf\<close> keeps, are a directory \<open>d\<close>, a
  slash and a name without a slash, \<open>posixc_prepare_dirs_for\<close> calls \<open>mkdir\<close> for the directories above \<open>d\<close>,
  outermost first, and for \<open>d\<close> when \<open>d\<close> does not exist, and makes no call otherwise. For a file directly
  under the root \<open>d\<close> is the empty path.\<close>

theorem prepare_dirs_correct:
  assumes "nul \<notin> set filename" "take (tmp_cap - 1) filename = d @ CHR ''/'' # base" "CHR ''/'' \<notin> set base"
  shows "posixc_prepare_dirs_for dir_exists filename =
    Inr (if dir_exists d then [] else map (\<lambda>path. (path, 0x1FC)) (ancestors d @ [d]))"
  using prepare_dirs_ok [OF assms] by (simp add: mkdir_def S_IRWXU_def S_IRWXG_def S_IROTH_def)

theorem prepare_dirs_correct_witness:
  "posixc_prepare_dirs_for (\<lambda>d. False) ''a/b/c.log'' = Inr [(''a'', 0x1FC), (''a/b'', 0x1FC)] \<and>
   posixc_prepare_dirs_for (\<lambda>d. False) ''/c.log'' = Inr [([], 0x1FC)]"
proof -
  have "ancestors ''a/b'' = [''a'']" "ancestors [] = []" by code_simp+
  then show ?thesis
    using prepare_dirs_correct [of "''a/b/c.log''" "''a/b''" "''c.log''" "\<lambda>d. False"]
      prepare_dirs_correct [of "''/c.log''" "[]" "''c.log''" "\<lambda>d. False"]
    by (simp add: tmp_cap_def)
qed

text \<open>For a file name without a slash, \<open>posixc_prepare_dirs_for\<close>, and with it every function that
  opens a file for writing, reads before the start of its array.\<close>

lemma prepare_dirs_plain_name:
  assumes "nul \<notin> set name" "CHR ''/'' \<notin> set name"
  shows "posixc_prepare_dirs_for dir_exists name = Inl Out_Of_Bounds \<and>
    posixc_writable_open dir_exists sys_open name = Inl Out_Of_Bounds \<and>
    posixc_appendable_open dir_exists sys_open name = Inl Out_Of_Bounds"
proof -
  let ?s = "take (tmp_cap - 1) name"
  define rest where "rest = replicate (tmp_cap - 1 - length name) (None :: char option)"
  have nul: "nul \<notin> set ?s" and slash: "CHR ''/'' \<notin> set ?s" using assms by (auto dest: in_set_takeD)
  have "min (length name) (tmp_cap - Suc 0) \<le> tmp_cap" by simp
  then have "posixc_prepare_dirs_for dir_exists name = Inl Out_Of_Bounds"
    using cstr_simps [OF nul, of rest] last_slash_none [OF slash order_refl, of "Some nul # rest"]
    by (simp add: posixc_prepare_dirs_for_def snprintf_s_def rest_def Let_def)
  then show ?thesis by (simp add: posixc_writable_open_def posixc_appendable_open_def)
qed

lemma prepare_dirs_plain_name_example:
  "posixc_prepare_dirs_for (\<lambda>d. True) ''app.log'' = Inl Out_Of_Bounds"
  using prepare_dirs_plain_name [of "''app.log''" "\<lambda>d. True" undefined] by simp

end
