(* ===== verification/Event.thy ===== *)
theory Event
  imports Kernel_List
begin

unbundle bit_operations_syntax

text \<open>
  Events (\<open>src/event.c\<close>, \<open>src/event.h\<close>) over a world with the allocated events and reactors, the list
  nodes embedded in them, and logs of the system calls.

  Every function of the library runs without interruption by another thread here: the mutexes of the
  source make the list operations atomic, and a mutex that is locked when a function starts is held
  by the calling thread itself (\<open>Deadlock\<close>). The thread is an argument \<open>self\<close> where the code asks for
  it. A freed event and its list node are gone from the world, so that every later access is a
  \<open>Bad_Pointer\<close>.

  The platform functions of \<open>src/mac/\<close> and \<open>src/linux/\<close> are a record \<open>plat\<close>: each gives the call of the
  kernel it makes, or \<open>None\<close> when it returns \<open>false\<close> without one. \<open>plat_answer\<close> says whether the
  \<open>n\<close>-th call succeeds.
\<close>

section \<open>Data\<close>

definition POSIXC_EVENT_IN :: "32 word" where "POSIXC_EVENT_IN = 0x0001"
definition POSIXC_EVENT_OUT :: "32 word" where "POSIXC_EVENT_OUT = 0x0004"
definition POSIXC_EVENT_ERR :: "32 word" where "POSIXC_EVENT_ERR = 0x0010"
definition POSIXC_EVENT_SIG :: "32 word" where "POSIXC_EVENT_SIG = 0x0400"
definition POSIXC_EVENT_TIMER :: "32 word" where "POSIXC_EVENT_TIMER = 0x0100"
definition POSIXC_EVENT_USER :: "32 word" where "POSIXC_EVENT_USER = 0x0008"

definition POSIXC_TIMER_PERIODIC :: nat where "POSIXC_TIMER_PERIODIC = 0"
definition POSIXC_TIMER_ONESHOT :: nat where "POSIXC_TIMER_ONESHOT = 1"

lemmas event_bits = POSIXC_EVENT_IN_def POSIXC_EVENT_OUT_def POSIXC_EVENT_ERR_def
  POSIXC_EVENT_SIG_def POSIXC_EVENT_TIMER_def POSIXC_EVENT_USER_def

definition SOCK_EV :: nat where "SOCK_EV = 0"
definition TIMER_EV :: nat where "TIMER_EV = 1"
definition USER_EV :: nat where "USER_EV = 2"
definition SIG_EV :: nat where "SIG_EV = 3"

lemmas event_types = SOCK_EV_def TIMER_EV_def USER_EV_def SIG_EV_def

type_synonym thread_id = nat

text \<open>A callback is named by a number, \<open>None\<close> is \<open>NULL\<close>; a mutex is the flag whether it is locked. The
  list node of an event is in the heap \<open>lists\<close> of the world.\<close>

record posixc_event =
  e_reactor :: addr
  e_fd :: int
  e_cb :: "nat option"
  e_arg :: addr
  evmask :: "32 word"
  e_closing :: bool
  e_type :: nat
  data_1 :: nat
  data_2 :: nat
  e_mtx :: bool

record posixc_reactor =
  r_mtx :: bool
  r_thread :: thread_id
  r_id :: int
  r_closing :: bool

datatype syscall = Set_Cloexec int | Set_Nonblock int | Set_Nosigpipe int | Shutdown int | Close int

record 'c rworld =
  events :: "addr \<rightharpoonup> posixc_event"
  reactors :: "addr \<rightharpoonup> posixc_reactor"
  lists :: lheap
  syscalls :: "syscall list"
  plat_calls :: "'c list"
  plat_answer :: "nat \<Rightarrow> bool"

text \<open>The platform: the byte offsets of \<open>node\<close> in an event and of \<open>gc_events\<close> in a reactor, and the calls
  for a reactor's native id, an event's address and its fields.\<close>

record 'c plat =
  node_off :: addr
  gc_off :: addr
  plat_create :: "int \<Rightarrow> addr \<Rightarrow> posixc_event \<Rightarrow> 'c option"
  plat_destroy :: "int \<Rightarrow> addr \<Rightarrow> posixc_event \<Rightarrow> 'c option"
  plat_submit :: "int \<Rightarrow> addr \<Rightarrow> posixc_event \<Rightarrow> 'c option"

section \<open>Access\<close>

definition get_event :: "('c, 'z) rworld_scheme \<Rightarrow> addr \<Rightarrow> posixc_event res" where
  "get_event w e = (case events w e of None \<Rightarrow> Inl Bad_Pointer | Some ev \<Rightarrow> Inr ev)"

definition put_event :: "('c, 'z) rworld_scheme \<Rightarrow> addr \<Rightarrow> posixc_event \<Rightarrow> ('c, 'z) rworld_scheme" where
  "put_event w e ev = w\<lparr>events := (events w)(e \<mapsto> ev)\<rparr>"

definition get_reactor :: "('c, 'z) rworld_scheme \<Rightarrow> addr \<Rightarrow> posixc_reactor res" where
  "get_reactor w r = (case reactors w r of None \<Rightarrow> Inl Bad_Pointer | Some rc \<Rightarrow> Inr rc)"

definition put_reactor :: "('c, 'z) rworld_scheme \<Rightarrow> addr \<Rightarrow> posixc_reactor \<Rightarrow> ('c, 'z) rworld_scheme" where
  "put_reactor w r rc = w\<lparr>reactors := (reactors w)(r \<mapsto> rc)\<rparr>"

definition log_sys :: "('c, 'z) rworld_scheme \<Rightarrow> syscall list \<Rightarrow> ('c, 'z) rworld_scheme" where
  "log_sys w cs = w\<lparr>syscalls := syscalls w @ cs\<rparr>"

definition lock_reactor :: "('c, 'z) rworld_scheme \<Rightarrow> addr \<Rightarrow> ('c, 'z) rworld_scheme res" where
  "lock_reactor w r = bindE (get_reactor w r) (\<lambda>rc.
     if r_mtx rc then Inl Deadlock else Inr (put_reactor w r (rc\<lparr>r_mtx := True\<rparr>)))"

definition unlock_reactor :: "('c, 'z) rworld_scheme \<Rightarrow> addr \<Rightarrow> ('c, 'z) rworld_scheme res" where
  "unlock_reactor w r = bindE (get_reactor w r) (\<lambda>rc. Inr (put_reactor w r (rc\<lparr>r_mtx := False\<rparr>)))"

definition lock_event :: "('c, 'z) rworld_scheme \<Rightarrow> addr \<Rightarrow> ('c, 'z) rworld_scheme res" where
  "lock_event w e = bindE (get_event w e) (\<lambda>ev.
     if e_mtx ev then Inl Deadlock else Inr (put_event w e (ev\<lparr>e_mtx := True\<rparr>)))"

definition unlock_event :: "('c, 'z) rworld_scheme \<Rightarrow> addr \<Rightarrow> ('c, 'z) rworld_scheme res" where
  "unlock_event w e = bindE (get_event w e) (\<lambda>ev. Inr (put_event w e (ev\<lparr>e_mtx := False\<rparr>)))"

definition call_kernel :: "('c, 'z) rworld_scheme \<Rightarrow> 'c option \<Rightarrow> ('c, 'z) rworld_scheme \<times> bool" where
  "call_kernel w c = (case c of None \<Rightarrow> (w, False)
     | Some c \<Rightarrow> (w\<lparr>plat_calls := plat_calls w @ [c]\<rparr>, plat_answer w (length (plat_calls w))))"

section \<open>Operations\<close>

definition posixc_preparefd :: "('c, 'z) rworld_scheme \<Rightarrow> int \<Rightarrow> ('c, 'z) rworld_scheme" where
  "posixc_preparefd w fd = log_sys w [Set_Cloexec fd, Set_Nonblock fd, Set_Nosigpipe fd]"

definition posixc_event_init :: "'c plat \<Rightarrow> ('c, 'z) rworld_scheme \<Rightarrow> addr \<Rightarrow> addr \<Rightarrow> int \<Rightarrow> nat option \<Rightarrow>
    addr \<Rightarrow> nat \<Rightarrow> ('c, 'z) rworld_scheme res" where
  "posixc_event_init pl w event reactor fd cb arg type =
     (let w = posixc_preparefd w fd;
          w = put_event w event \<lparr>e_reactor = reactor, e_fd = fd, e_cb = cb, e_arg = arg, evmask = 0,
                e_closing = False, e_type = type, data_1 = 0, data_2 = 0, e_mtx = False\<rparr> in
      bindE (INIT_LIST_HEAD (lists w) (event + node_off pl)) (\<lambda>h. Inr (w\<lparr>lists := h\<rparr>)))"

definition posixc_event_release :: "'c plat \<Rightarrow> ('c, 'z) rworld_scheme \<Rightarrow> addr \<Rightarrow> ('c, 'z) rworld_scheme res" where
  "posixc_event_release pl w event =
     bindE (get_event w event) (\<lambda>ev.
     let w = log_sys w [Close (e_fd ev)] in
     Inr (w\<lparr>events := (events w)(event := None), lists := (lists w)(event + node_off pl := None)\<rparr>))"

text \<open>\<open>mem\<close> is the result of \<open>malloc\<close>; the new memory has a list node with some content.\<close>

definition posixc_event_create :: "'c plat \<Rightarrow> ('c, 'z) rworld_scheme \<Rightarrow> addr option \<Rightarrow> addr \<Rightarrow> int \<Rightarrow>
    nat option \<Rightarrow> addr \<Rightarrow> nat \<Rightarrow> (('c, 'z) rworld_scheme \<times> addr option) res" where
  "posixc_event_create pl w mem reactor fd cb arg type =
     (case mem of None \<Rightarrow> Inr (w, None)
      | Some event \<Rightarrow>
        (let w = w\<lparr>lists := (lists w)(event + node_off pl \<mapsto> \<lparr>lnext = NULL, lprev = NULL\<rparr>)\<rparr> in
         bindE (posixc_event_init pl w event reactor fd cb arg type) (\<lambda>w.
         bindE (get_event w event) (\<lambda>ev. bindE (get_reactor w (e_reactor ev)) (\<lambda>rc.
         let (w, ok) = call_kernel w (plat_create pl (r_id rc) event ev) in
         if ok then Inr (w, Some event)
         else bindE (posixc_event_release pl w event) (\<lambda>w. Inr (w, None)))))))"

definition add_to_gc_list :: "'c plat \<Rightarrow> ('c, 'z) rworld_scheme \<Rightarrow> addr \<Rightarrow> ('c, 'z) rworld_scheme res" where
  "add_to_gc_list pl w e =
     bindE (get_event w e) (\<lambda>ev.
     bindE (lock_reactor w (e_reactor ev)) (\<lambda>w.
     bindE (list_add_tail (lists w) (e + node_off pl) (e_reactor ev + gc_off pl)) (\<lambda>h.
     unlock_reactor (w\<lparr>lists := h\<rparr>) (e_reactor ev))))"

definition posixc_event_destroy ::
    "'c plat \<Rightarrow> thread_id \<Rightarrow> ('c, 'z) rworld_scheme \<Rightarrow> addr \<Rightarrow> ('c, 'z) rworld_scheme res" where
  "posixc_event_destroy pl self w e =
     bindE (get_event w e) (\<lambda>ev. bindE (get_reactor w (e_reactor ev)) (\<lambda>rc.
     let is_reactor = (self = r_thread rc) in
     bindE (if \<not> e_closing ev then
              (let ev = ev\<lparr>e_closing := True\<rparr>;
                   w = put_event w e ev;
                   (w, ok) = call_kernel w (plat_destroy pl (r_id rc) e ev);
                   w = log_sys w [Shutdown (e_fd ev)] in
               if \<not> is_reactor then add_to_gc_list pl w e else Inr w)
            else Inr w) (\<lambda>w.
     if is_reactor then posixc_event_release pl w e else Inr w)))"

text \<open>The part of \<open>posixc_event_submit\<close> that runs under the mutex of the event.\<close>

definition submit_locked :: "'c plat \<Rightarrow> ('c, 'z) rworld_scheme \<Rightarrow> addr \<Rightarrow> 32 word \<Rightarrow>
    (('c, 'z) rworld_scheme \<times> bool) res" where
  "submit_locked pl w e evs =
     bindE (lock_event w e) (\<lambda>w. bindE (get_event w e) (\<lambda>ev.
     let ev = ev\<lparr>evmask := evmask ev OR evs\<rparr>;
         w = put_event w e ev in
     bindE (get_reactor w (e_reactor ev)) (\<lambda>rc.
     let (w, success) = call_kernel w (plat_submit pl (r_id rc) e ev) in
     bindE (unlock_event w e) (\<lambda>w. Inr (w, success)))))"

definition posixc_event_submit :: "'c plat \<Rightarrow> ('c, 'z) rworld_scheme \<Rightarrow> addr \<Rightarrow> 32 word \<Rightarrow>
    (('c, 'z) rworld_scheme \<times> bool) res" where
  "posixc_event_submit pl w e evs =
     bindE (get_event w e) (\<lambda>ev. if e_closing ev then Inr (w, False) else submit_locked pl w e evs)"

definition posixc_event_consume :: "('c, 'z) rworld_scheme \<Rightarrow> addr \<Rightarrow> 32 word \<Rightarrow>
    (('c, 'z) rworld_scheme \<times> nat option \<times> addr) res" where
  "posixc_event_consume w e evmask_to_consume =
     bindE (lock_event w e) (\<lambda>w. bindE (get_event w e) (\<lambda>ev.
     let ev = ev\<lparr>evmask := evmask ev AND NOT evmask_to_consume\<rparr>;
         w = put_event w e ev in
     bindE (unlock_event w e) (\<lambda>w. Inr (w, e_cb ev, e_arg ev))))"

definition posixc_timer_event_set_interval ::
    "('c, 'z) rworld_scheme \<Rightarrow> addr \<Rightarrow> int \<Rightarrow> bool \<Rightarrow> ('c, 'z) rworld_scheme res" where
  "posixc_timer_event_set_interval w e ms_interval is_periodic =
     bindE (get_event w e) (\<lambda>ev. Inr (put_event w e
       (ev\<lparr>data_1 := (if is_periodic then POSIXC_TIMER_PERIODIC else POSIXC_TIMER_ONESHOT),
           data_2 := to_u64 ms_interval\<rparr>)))"

text \<open>The static counters: the value of the counter before and after, and the result. The three
  functions of the source have the same body and a counter each.\<close>

definition posixc_unique_event_id :: "nat \<Rightarrow> nat \<times> int" where
  "posixc_unique_event_id n = (szt_add n 1, to_int32 (int n))"

section \<open>Effects\<close>

named_theorems world_simps \<open>what the operations on the world leave unchanged\<close>

lemma put_event_simps [simp, world_simps]:
  "events (put_event w e ev) = (events w)(e \<mapsto> ev)" "reactors (put_event w e ev) = reactors w"
  "lists (put_event w e ev) = lists w" "syscalls (put_event w e ev) = syscalls w"
  "plat_calls (put_event w e ev) = plat_calls w" "plat_answer (put_event w e ev) = plat_answer w"
  "rworld.more (put_event w e ev) = rworld.more w"
  by (simp_all add: put_event_def)

lemma put_reactor_simps [simp, world_simps]:
  "events (put_reactor w r rc) = events w" "reactors (put_reactor w r rc) = (reactors w)(r \<mapsto> rc)"
  "lists (put_reactor w r rc) = lists w" "syscalls (put_reactor w r rc) = syscalls w"
  "plat_calls (put_reactor w r rc) = plat_calls w" "plat_answer (put_reactor w r rc) = plat_answer w"
  "rworld.more (put_reactor w r rc) = rworld.more w"
  by (simp_all add: put_reactor_def)

lemma log_sys_simps [simp, world_simps]:
  "events (log_sys w cs) = events w" "reactors (log_sys w cs) = reactors w"
  "lists (log_sys w cs) = lists w" "syscalls (log_sys w cs) = syscalls w @ cs"
  "plat_calls (log_sys w cs) = plat_calls w" "plat_answer (log_sys w cs) = plat_answer w"
  "rworld.more (log_sys w cs) = rworld.more w"
  by (simp_all add: log_sys_def)

lemma call_kernel_simps [simp, world_simps]:
  "events (fst (call_kernel w c)) = events w" "reactors (fst (call_kernel w c)) = reactors w"
  "lists (fst (call_kernel w c)) = lists w" "syscalls (fst (call_kernel w c)) = syscalls w"
  "plat_answer (fst (call_kernel w c)) = plat_answer w" "rworld.more (fst (call_kernel w c)) = rworld.more w"
  by (simp_all add: call_kernel_def split: option.splits)

lemma get_event_Some [simp]: "events w e = Some ev \<Longrightarrow> get_event w e = Inr ev"
  by (simp add: get_event_def)

lemma get_reactor_Some [simp]: "reactors w r = Some rc \<Longrightarrow> get_reactor w r = Inr rc"
  by (simp add: get_reactor_def)

lemma release_ok:
  "events w e = Some ev \<Longrightarrow> posixc_event_release pl w e =
     Inr (w\<lparr>syscalls := syscalls w @ [Close (e_fd ev)], events := (events w)(e := None),
            lists := (lists w)(e + node_off pl := None)\<rparr>)"
  by (simp add: posixc_event_release_def log_sys_def)

text \<open>A closing event: a user thread does nothing, the reactor's thread releases it.\<close>

lemma destroy_closing:
  assumes "events w e = Some ev" "e_closing ev" "reactors w (e_reactor ev) = Some rc"
  shows "posixc_event_destroy pl self w e =
    (if self = r_thread rc then posixc_event_release pl w e else Inr w)"
  using assms by (simp add: posixc_event_destroy_def)

end
