(* ===== verification/Reactor.thy ===== *)
theory Reactor
  imports Event
begin

text \<open>
  The reactor (\<open>src/reactor.c\<close>): creation, destruction, and the collection of the events that user
  threads have destroyed. The API of events and reactors is then a labelled step relation, and an
  invariant of its reachable states is proved: the list of a reactor holds exactly the allocated
  events that are closing.
\<close>

section \<open>Operations\<close>

text \<open>\<open>gc_step\<close> is the body of the loop, \<open>tmp\<close> the event.\<close>

definition gc_step ::
    "'c plat \<Rightarrow> thread_id \<Rightarrow> addr \<Rightarrow> ('c, 'z) rworld_scheme \<Rightarrow> ('c, 'z) rworld_scheme res" where
  "gc_step pl self tmp w =
     bindE (list_del (lists w) (tmp + node_off pl)) (\<lambda>h.
     posixc_event_destroy pl self (w\<lparr>lists := h\<rparr>) tmp)"

definition posixc_reactor_gc ::
    "'c plat \<Rightarrow> thread_id \<Rightarrow> ('c, 'z) rworld_scheme \<Rightarrow> addr \<Rightarrow> ('c, 'z) rworld_scheme run" where
  "posixc_reactor_gc pl self w r =
     bindR (Some (lock_reactor w r)) (\<lambda>w.
     bindR (Some (list_empty (lists w) (r + gc_off pl))) (\<lambda>empty.
     if empty then Some (unlock_reactor w r)
     else bindR (list_for_each_entry_safe lists (node_off pl) (gc_step pl self) (r + gc_off pl) w) (\<lambda>w.
          Some (unlock_reactor w r))))"

text \<open>\<open>fd\<close> is the result of \<open>posixc_reactor_plat_create\<close>, \<open>r\<close> that of \<open>malloc\<close> (which the source does not
  test), \<open>thread\<close> the new thread, \<open>None\<close> when \<open>pthread_create\<close> fails.\<close>

definition posixc_reactor_create :: "'c plat \<Rightarrow> ('c, 'z) rworld_scheme \<Rightarrow> int \<Rightarrow> addr option \<Rightarrow> thread_id option \<Rightarrow>
    (('c, 'z) rworld_scheme \<times> addr option) res" where
  "posixc_reactor_create pl w fd mem thread =
     (if fd < 0 then Inr (w, None)
      else case mem of None \<Rightarrow> Inl Bad_Pointer
      | Some r \<Rightarrow>
        (let w = w\<lparr>lists := (lists w)(r + gc_off pl \<mapsto> \<lparr>lnext = NULL, lprev = NULL\<rparr>)\<rparr> in
         bindE (INIT_LIST_HEAD (lists w) (r + gc_off pl)) (\<lambda>h.
         let w = w\<lparr>lists := h\<rparr> in
         case thread of None \<Rightarrow>
             Inr (put_reactor w r \<lparr>r_mtx = False, r_thread = 0, r_id = fd, r_closing = False\<rparr>, None)
         | Some t \<Rightarrow>
             Inr (put_reactor w r \<lparr>r_mtx = False, r_thread = t, r_id = fd, r_closing = False\<rparr>, Some r))))"

text \<open>\<open>join\<close> is what \<open>pthread_join\<close> does: what the reactor's thread does until it ends, \<open>None\<close> when it never
  ends. When a thread joins itself, the call may return at once with an error, which the source
  ignores.\<close>

definition posixc_reactor_destroy :: "'c plat \<Rightarrow> thread_id \<Rightarrow>
    (('c, 'z) rworld_scheme \<Rightarrow> ('c, 'z) rworld_scheme run) \<Rightarrow>
    ('c, 'z) rworld_scheme \<Rightarrow> addr \<Rightarrow> ('c, 'z) rworld_scheme run" where
  "posixc_reactor_destroy pl self join w r =
     bindR (posixc_reactor_gc pl self w r) (\<lambda>w.
     bindR (Some (get_reactor w r)) (\<lambda>rc.
     let w = put_reactor w r (rc\<lparr>r_closing := True\<rparr>) in
     bindR (join w) (\<lambda>w.
     bindR (Some (get_reactor w r)) (\<lambda>rc.
     let w = log_sys w [Close (r_id rc)] in
     Some (Inr (w\<lparr>reactors := (reactors w)(r := None), lists := (lists w)(r + gc_off pl := None)\<rparr>))))))"

section \<open>The garbage list\<close>

definition node_of :: "'c plat \<Rightarrow> addr \<Rightarrow> addr" where
  "node_of pl e = e + node_off pl"

text \<open>\<open>gc_own pl r X w es\<close>: the reactor \<open>r\<close> is allocated and unlocked; its list holds the events \<open>es\<close> in
  order; every allocated event has a list node of its own, belongs to \<open>r\<close>, is unlocked, and is
  closing exactly when it is in the list or in \<open>X\<close>, the events on their way into the list. Between calls
  there are none (\<open>gc_inv\<close>).\<close>

definition event_own :: "'c plat \<Rightarrow> addr \<Rightarrow> addr set \<Rightarrow> ('c, 'z) rworld_scheme \<Rightarrow> addr list \<Rightarrow> bool" where
  "event_own pl r X w es \<longleftrightarrow> set es \<subseteq> dom (events w) \<and>
     (\<forall>e ev. events w e = Some ev \<longrightarrow> e_reactor ev = r \<and> \<not> e_mtx ev \<and> (e_closing ev \<longleftrightarrow> e \<in> set es \<or> e \<in> X) \<and>
        node_of pl e \<in> dom (lists w) \<and> node_of pl e \<noteq> r + gc_off pl)"

definition gc_own :: "'c plat \<Rightarrow> addr \<Rightarrow> addr set \<Rightarrow> ('c, 'z) rworld_scheme \<Rightarrow> addr list \<Rightarrow> bool" where
  "gc_own pl r X w es \<longleftrightarrow> (\<exists>rc. reactors w r = Some rc \<and> \<not> r_mtx rc) \<and>
     dlist (lists w) (r + gc_off pl) (map (node_of pl) es) \<and> event_own pl r X w es"

abbreviation event_inv :: "'c plat \<Rightarrow> addr \<Rightarrow> ('c, 'z) rworld_scheme \<Rightarrow> addr list \<Rightarrow> bool" where
  "event_inv pl r w es \<equiv> event_own pl r {} w es"

abbreviation gc_inv :: "'c plat \<Rightarrow> addr \<Rightarrow> ('c, 'z) rworld_scheme \<Rightarrow> addr list \<Rightarrow> bool" where
  "gc_inv pl r w es \<equiv> gc_own pl r {} w es"

lemma node_of_inj [simp]: "node_of pl e = node_of pl f \<longleftrightarrow> e = f"
  by (simp add: node_of_def)

lemma node_of_mem [simp]: "node_of pl e \<in> node_of pl ` A \<longleftrightarrow> e \<in> A"
  by (auto simp: node_of_def)

lemma gc_invE:
  assumes "gc_own pl r X w es"
  obtains rc where "reactors w r = Some rc" "\<not> r_mtx rc"
    "dlist (lists w) (r + gc_off pl) (map (node_of pl) es)" "event_own pl r X w es"
  using assms by (auto simp: gc_own_def)

lemma event_invD:
  assumes "event_own pl r X w es" "events w e = Some ev"
  shows "e_reactor ev = r" "\<not> e_mtx ev" "e_closing ev \<longleftrightarrow> e \<in> set es \<or> e \<in> X" "node_of pl e \<in> dom (lists w)"
    "node_of pl e \<noteq> r + gc_off pl"
  using assms unfolding event_own_def by blast+

lemma queued_iff:
  assumes "event_inv pl r w es"
  shows "e \<in> set es \<longleftrightarrow> (\<exists>ev. events w e = Some ev \<and> e_closing ev)"
proof
  assume "e \<in> set es"
  moreover from this obtain ev where "events w e = Some ev" using assms by (auto simp: event_own_def)
  ultimately show "\<exists>ev. events w e = Some ev \<and> e_closing ev" using event_invD(3) [OF assms] by blast
next
  assume "\<exists>ev. events w e = Some ev \<and> e_closing ev"
  then show "e \<in> set es" using event_invD(3) [OF assms] by blast
qed

lemma gc_inv_distinct: "gc_own pl r X w es \<Longrightarrow> distinct es"
  using dlist_distinct [of "lists w" "r + gc_off pl" "map (node_of pl) es"]
  by (simp add: gc_own_def distinct_map)

subsection \<open>Destruction by a user thread\<close>

lemma add_to_gc_list_ok:
  assumes "events w e = Some ev" "reactors w (e_reactor ev) = Some rc" "\<not> r_mtx rc"
    and "dlist (lists w) (e_reactor ev + gc_off pl) (map (node_of pl) es)"
    and "node_of pl e \<in> dom (lists w)" "node_of pl e \<noteq> e_reactor ev + gc_off pl" "e \<notin> set es"
  obtains h' where "add_to_gc_list pl w e = Inr (w\<lparr>lists := h'\<rparr>)"
    "dlist h' (e_reactor ev + gc_off pl) (map (node_of pl) (es @ [e]))" "dom h' = dom (lists w)"
proof -
  let ?r = "e_reactor ev"
  obtain h' where h: "list_add_tail (lists w) (node_of pl e) (?r + gc_off pl) = Inr h'"
    "dlist h' (?r + gc_off pl) (map (node_of pl) es @ [node_of pl e])"
    "(\<lambda>p. p \<in> dom h') = (\<lambda>p. p \<in> dom (lists w))"
    using kl.add_tail_law [OF assms(4,5)] assms(6,7) by auto
  have "rc\<lparr>r_mtx := False\<rparr> = rc" using assms(3) by (cases rc) simp
  then have "w\<lparr>reactors := (reactors w)(?r \<mapsto> rc\<lparr>r_mtx := False\<rparr>)\<rparr> = w"
    using assms(2) by (simp add: fun_upd_idem)
  then have "w\<lparr>lists := h', reactors := (reactors w)(?r \<mapsto> rc\<lparr>r_mtx := False\<rparr>)\<rparr> = w\<lparr>lists := h'\<rparr>"
    by (metis rworld.update_convs(3) rworld.update_convs(2) rworld.surjective)
  then have "add_to_gc_list pl w e = Inr (w\<lparr>lists := h'\<rparr>)"
    using assms(1-3) h(1)
    by (simp add: add_to_gc_list_def lock_reactor_def unlock_reactor_def put_reactor_def
        get_reactor_def node_of_def)
  moreover have "dom h' = dom (lists w)" using h(3) by (metis Collect_mem_eq)
  ultimately show ?thesis using that h(2) by simp
qed

lemma destroy_user:
  assumes inv: "gc_own pl r X w es" and e: "events w e = Some ev" "\<not> e_closing ev"
    and user: "reactors w r = Some rc" "self \<noteq> r_thread rc"
  shows "\<exists>w'. posixc_event_destroy pl self w e = Inr w' \<and> gc_own pl r X w' (es @ [e]) \<and>
    events w' = (events w)(e \<mapsto> ev\<lparr>e_closing := True\<rparr>) \<and> reactors w' = reactors w \<and>
    syscalls w' = syscalls w @ [Shutdown (e_fd ev)] \<and> rworld.more w' = rworld.more w"
proof -
  let ?ev = "ev\<lparr>e_closing := True\<rparr>"
  let ?w = "log_sys (fst (call_kernel (put_event w e ?ev) (plat_destroy pl (r_id rc) e ?ev))) [Shutdown (e_fd ev)]"
  have unl: "\<not> r_mtx rc" and d: "dlist (lists w) (r + gc_off pl) (map (node_of pl) es)"
    and ei: "event_own pl r X w es" using inv user(1) by (auto elim: gc_invE)
  note ev = event_invD [OF ei e(1)]
  have "e \<notin> set es" using ev(3) e(2) by simp
  then obtain h' where h: "add_to_gc_list pl ?w e = Inr (?w\<lparr>lists := h'\<rparr>)"
    "dlist h' (r + gc_off pl) (map (node_of pl) (es @ [e]))" "dom h' = dom (lists w)"
    using add_to_gc_list_ok [of ?w e ?ev rc pl es] ev user(1) unl d by auto
  have run: "posixc_event_destroy pl self w e = Inr (?w\<lparr>lists := h'\<rparr>)"
    using e ev(1) user h(1) by (simp add: posixc_event_destroy_def Let_def case_prod_beta)
  have "event_own pl r X (?w\<lparr>lists := h'\<rparr>) (es @ [e])"
    using ei e h(3) ev unfolding event_own_def by auto
  then have "gc_own pl r X (?w\<lparr>lists := h'\<rparr>) (es @ [e])"
    using h(2) user(1) unl by (simp add: gc_own_def)
  then show ?thesis using run by simp
qed

subsection \<open>Release by the reactor's thread\<close>

lemma event_inv_remove:
  assumes "event_own pl r X w es" "e \<notin> set es"
  shows "event_own pl r X (w\<lparr>syscalls := sc, events := (events w)(e := None),
    lists := (lists w)(e + node_off pl := None)\<rparr>) es"
  using assms by (auto simp: event_own_def node_of_def)

lemma dlist_remove:
  assumes "dlist h (r + gc_off pl) (map (node_of pl) es)" "e \<notin> set es" "node_of pl e \<noteq> r + gc_off pl"
  shows "dlist (h(e + node_off pl := None)) (r + gc_off pl) (map (node_of pl) es)"
  using assms(1) by (rule dlist_cong) (use assms(2,3) in \<open>auto simp: node_of_def\<close>)

lemma destroy_reactor:
  assumes inv: "gc_own pl r X w es" and e: "events w e = Some ev" "\<not> e_closing ev"
    and self: "reactors w r = Some rc" "self = r_thread rc"
  shows "\<exists>w'. posixc_event_destroy pl self w e = Inr w' \<and> gc_own pl r X w' es \<and>
    events w' = (events w)(e := None) \<and> reactors w' = reactors w \<and>
    syscalls w' = syscalls w @ [Shutdown (e_fd ev), Close (e_fd ev)] \<and> rworld.more w' = rworld.more w"
proof -
  let ?ev = "ev\<lparr>e_closing := True\<rparr>"
  let ?w = "log_sys (fst (call_kernel (put_event w e ?ev) (plat_destroy pl (r_id rc) e ?ev))) [Shutdown (e_fd ev)]"
  let ?w' = "?w\<lparr>syscalls := syscalls ?w @ [Close (e_fd ev)], events := (events ?w)(e := None),
    lists := (lists ?w)(e + node_off pl := None)\<rparr>"
  have unl: "\<not> r_mtx rc" and d: "dlist (lists w) (r + gc_off pl) (map (node_of pl) es)"
    and ei: "event_own pl r X w es" using inv self(1) by (auto elim: gc_invE)
  note ev = event_invD [OF ei e(1)]
  have ne: "e \<notin> set es" using ev(3) e(2) by simp
  have run: "posixc_event_destroy pl self w e = Inr ?w'"
    using e ev(1) self release_ok [of ?w e ?ev pl]
    by (simp add: posixc_event_destroy_def Let_def case_prod_beta)
  have "event_own pl r X ?w' es" using ei ne unfolding event_own_def by (auto simp: node_of_def)
  then have "gc_own pl r X ?w' es" using dlist_remove [OF d ne ev(5)] self(1) unl by (simp add: gc_own_def)
  then show ?thesis using run by simp
qed

subsection \<open>Collection\<close>

text \<open>The state of the loop, when the events \<open>gone\<close> of the list have been released and \<open>rest\<close> are left.\<close>

definition fd_of :: "('c, 'z) rworld_scheme \<Rightarrow> addr \<Rightarrow> int" where
  "fd_of w e = e_fd (the (events w e))"

definition gc_loop_inv :: "'c plat \<Rightarrow> addr \<Rightarrow> addr set \<Rightarrow> ('c, 'z) rworld_scheme \<Rightarrow> addr list \<Rightarrow>
    ('c, 'z) rworld_scheme \<Rightarrow> addr list \<Rightarrow> bool" where
  "gc_loop_inv pl r X w0 es w ns \<longleftrightarrow> (\<exists>gone rest. es = gone @ rest \<and> ns = map (node_of pl) rest \<and>
     dlist (lists w) (r + gc_off pl) ns \<and> reactors w = reactors w0 \<and>
     events w = (events w0) |` (- set gone) \<and> plat_calls w = plat_calls w0 \<and>
     syscalls w = syscalls w0 @ map (Close \<circ> fd_of w0) gone \<and> event_own pl r X w rest \<and>
     rworld.more w = rworld.more w0)"

lemma gc_step_ok:
  assumes "gc_loop_inv pl r X w0 es w (p # ns)" "reactors w0 r = Some rc" "distinct es"
  shows "\<exists>w'. gc_step pl (r_thread rc) (list_entry p (node_off pl)) w = Inr w' \<and>
    gc_loop_inv pl r X w0 es w' ns"
proof -
  obtain gone e rest where g: "es = gone @ e # rest" "ns = map (node_of pl) rest" "p = node_of pl e"
    "dlist (lists w) (r + gc_off pl) (map (node_of pl) (e # rest))" "reactors w = reactors w0"
    "events w = (events w0) |` (- set gone)" "plat_calls w = plat_calls w0"
    "syscalls w = syscalls w0 @ map (Close \<circ> fd_of w0) gone" "event_own pl r X w (e # rest)"
    "rworld.more w = rworld.more w0"
    using assms(1) unfolding gc_loop_inv_def by (auto simp: Cons_eq_map_conv)
  obtain ev where ev: "events w e = Some ev" using g(9) unfolding event_own_def by auto
  note inv = event_invD [OF g(9) ev]
  have d: "e \<notin> set rest" "e \<notin> set gone" "set gone \<inter> set rest = {}" using assms(3) g(1) by auto
  have fd: "e_fd ev = fd_of w0 e" using ev g(6) d(2) by (simp add: fd_of_def)
  obtain h where h: "list_del (lists w) (node_of pl e) = Inr h"
    "dlist h (r + gc_off pl) (map (node_of pl) rest)" "dom h = dom (lists w)"
    using kl.del_law [of "lists w" "r + gc_off pl" "[]" "node_of pl e" "map (node_of pl) rest"] g(4)
    by (auto simp: fun_eq_iff set_eq_iff)
  let ?w = "w\<lparr>lists := h\<rparr>"
  let ?w' = "?w\<lparr>syscalls := syscalls w @ [Close (e_fd ev)], events := (events w)(e := None),
    lists := h(e + node_off pl := None)\<rparr>"
  have "posixc_event_destroy pl (r_thread rc) ?w e = Inr ?w'"
    using destroy_closing [of ?w e ev rc pl] release_ok [of ?w e ev pl] ev inv(1,3) assms(2) g(5) by simp
  then have run: "gc_step pl (r_thread rc) (list_entry p (node_off pl)) w = Inr ?w'"
    using h(1) g(3) by (simp add: gc_step_def node_of_def)
  have "event_own pl r X ?w' rest" using g(9) d(1) h(3) unfolding event_own_def
    by (auto simp: node_of_def)
  moreover have "dlist (h(e + node_off pl := None)) (r + gc_off pl) (map (node_of pl) rest)"
    using h(2) d(1) inv(5) by (rule dlist_remove)
  moreover have "(events w)(e := None) = (events w0) |` (- set (gone @ [e]))"
    using g(6) by (auto simp: restrict_map_def)
  ultimately have "gc_loop_inv pl r X w0 es ?w' ns" unfolding gc_loop_inv_def using g fd
    by (intro exI [of _ "gone @ [e]"] exI [of _ rest]) simp
  then show ?thesis using run by blast
qed

lemma gc_inv_loop: "gc_own pl r X w es \<Longrightarrow> gc_loop_inv pl r X (put_reactor w r rc) es (put_reactor w r rc)
    (map (node_of pl) es)"
  unfolding gc_loop_inv_def gc_own_def event_own_def
  by (intro exI [of _ "[]"] exI [of _ es]) (auto simp: restrict_map_def)

lemma reactor_gc_ok:
  assumes inv: "gc_own pl r X w es" and rc: "reactors w r = Some rc"
  shows "\<exists>w'. posixc_reactor_gc pl (r_thread rc) w r = Some (Inr w') \<and> gc_own pl r X w' [] \<and>
    events w' = (events w) |` (- set es) \<and> reactors w' = reactors w \<and> plat_calls w' = plat_calls w \<and>
    syscalls w' = syscalls w @ map (Close \<circ> fd_of w) es \<and> rworld.more w' = rworld.more w"
proof -
  let ?rc = "rc\<lparr>r_mtx := True\<rparr>"
  let ?w = "put_reactor w r ?rc"
  have unl: "\<not> r_mtx rc" and d: "dlist (lists w) (r + gc_off pl) (map (node_of pl) es)"
    using inv rc by (auto elim: gc_invE)
  have same: "rc\<lparr>r_mtx := False\<rparr> = rc" using unl by (cases rc) simp
  have lock: "lock_reactor w r = Inr ?w" using rc unl by (simp add: lock_reactor_def)
  have empty: "list_empty (lists ?w) (r + gc_off pl) = Inr (es = [])" using kl.empty_law [OF d] by simp
  have "\<exists>w1. list_for_each_entry_safe lists (node_off pl) (gc_step pl (r_thread rc)) (r + gc_off pl) ?w =
      Some (Inr w1) \<and> gc_loop_inv pl r X ?w es w1 []"
  proof (rule list_for_each_entry_safe_drain [where P = "gc_loop_inv pl r X ?w es"])
    show "gc_loop_inv pl r X ?w es ?w (map (node_of pl) es)" using inv by (rule gc_inv_loop)
    show "dlist (lists s) (r + gc_off pl) ys" if "gc_loop_inv pl r X ?w es s ys" for s ys
      using that by (auto simp: gc_loop_inv_def)
    show "\<exists>s'. gc_step pl (r_thread rc) (list_entry p (node_off pl)) s = Inr s' \<and> gc_loop_inv pl r X ?w es s' ys"
      if "gc_loop_inv pl r X ?w es s (p # ys)" for s p ys
      using gc_step_ok [OF that, of ?rc] gc_inv_distinct [OF inv] by simp
  qed
  then obtain w1 where run: "list_for_each_entry_safe lists (node_off pl) (gc_step pl (r_thread rc))
      (r + gc_off pl) ?w = Some (Inr w1)" and w1: "gc_loop_inv pl r X ?w es w1 []" by blast
  let ?w2 = "if es = [] then ?w else w1"
  have w2: "gc_loop_inv pl r X ?w es ?w2 []" using w1 gc_inv_loop [OF inv, of ?rc] by auto
  have fd: "fd_of ?w = fd_of w" by (simp add: fd_of_def fun_eq_iff)
  have eff: "reactors ?w2 = (reactors w)(r \<mapsto> ?rc)" "events ?w2 = (events w) |` (- set es)"
    "plat_calls ?w2 = plat_calls w" "syscalls ?w2 = syscalls w @ map (Close \<circ> fd_of w) es"
    "dlist (lists ?w2) (r + gc_off pl) []" "event_own pl r X ?w2 []" "rworld.more ?w2 = rworld.more w"
    using w2 unfolding gc_loop_inv_def fd by auto
  have "posixc_reactor_gc pl (r_thread rc) w r = Some (Inr (put_reactor ?w2 r rc))"
    using lock empty run eff(1) same
    by (auto simp: posixc_reactor_gc_def unlock_reactor_def gc_loop_inv_def)
  moreover have "event_own pl r X (put_reactor ?w2 r rc) []" using eff(6) unfolding event_own_def by simp
  then have "gc_own pl r X (put_reactor ?w2 r rc) []" using eff(5) unl by (simp add: gc_own_def)
  moreover have "reactors (put_reactor ?w2 r rc) = reactors w" using eff(1) rc by (simp add: fun_upd_idem)
  ultimately show ?thesis using eff(2-4,7) by (intro exI [of _ "put_reactor ?w2 r rc"]) simp
qed

subsection \<open>Creation, submission, consumption\<close>

definition new_event :: "addr \<Rightarrow> int \<Rightarrow> nat option \<Rightarrow> addr \<Rightarrow> nat \<Rightarrow> posixc_event" where
  "new_event r fd cb arg ty = \<lparr>e_reactor = r, e_fd = fd, e_cb = cb, e_arg = arg, evmask = 0, e_closing = False,
     e_type = ty, data_1 = 0, data_2 = 0, e_mtx = False\<rparr>"

lemma kernel_calls:
  "snd (call_kernel w c) \<longleftrightarrow> c \<noteq> None \<and> plat_answer w (length (plat_calls w))"
  "plat_calls (fst (call_kernel w c)) = plat_calls w @ (case c of None \<Rightarrow> [] | Some c \<Rightarrow> [c])"
  by (simp_all add: call_kernel_def split: option.splits)

lemma event_create_ok:
  assumes inv: "gc_own pl r X w es" and new: "events w e = None" "node_of pl e \<notin> dom (lists w)"
    and rc: "reactors w r = Some rc" and X: "e \<notin> X"
  shows "\<exists>w' res. posixc_event_create pl w (Some e) r fd cb arg ty = Inr (w', res) \<and> gc_own pl r X w' es \<and>
    reactors w' = reactors w \<and> rworld.more w' = rworld.more w \<and> plat_answer w' = plat_answer w \<and>
    plat_calls w' = plat_calls w @ (case plat_create pl (r_id rc) e (new_event r fd cb arg ty) of None \<Rightarrow> [] | Some c \<Rightarrow> [c]) \<and>
    res = (if plat_create pl (r_id rc) e (new_event r fd cb arg ty) \<noteq> None \<and>
      plat_answer w (length (plat_calls w)) then Some e else None) \<and>
    (if res = None then events w' = events w
     else events w' = (events w)(e \<mapsto> new_event r fd cb arg ty) \<and> dom (lists w') = insert (node_of pl e) (dom (lists w)))"
proof -
  let ?n = "node_of pl e" and ?h0 = "(lists w)(node_of pl e \<mapsto> \<lparr>lnext = NULL, lprev = NULL\<rparr>)"
  let ?ev = "\<lparr>e_reactor = r, e_fd = fd, e_cb = cb, e_arg = arg, evmask = 0, e_closing = False,
    e_type = ty, data_1 = 0, data_2 = 0, e_mtx = False\<rparr>"
  have rc: "reactors w r = Some rc" "\<not> r_mtx rc" "dlist (lists w) (r + gc_off pl) (map (node_of pl) es)"
    "event_own pl r X w es" using inv rc by (auto elim: gc_invE)
  obtain h where h: "INIT_LIST_HEAD ?h0 ?n = Inr h" "same_outside {?n} ?h0 h"
    using INIT_LIST_HEAD_ring [of ?n ?h0] by auto
  have out: "p \<noteq> ?n \<Longrightarrow> h p = lists w p" and dom: "dom h = insert ?n (dom (lists w))" for p
    using h(2) by (auto simp: same_outside_def)
  let ?w = "(put_event (posixc_preparefd (w\<lparr>lists := ?h0\<rparr>) fd) e ?ev)\<lparr>lists := h\<rparr>"
  let ?wk = "fst (call_kernel ?w (plat_create pl (r_id rc) e ?ev))"
  have r0: "r + gc_off pl \<in> dom (lists w)" using rc(3) by (rule dlist_head_dom)
  have e: "e \<notin> set es" "?n \<noteq> r + gc_off pl" using rc(4) new r0 unfolding event_own_def by auto
  have d: "dlist h (r + gc_off pl) (map (node_of pl) es)"
    using rc(3) by (rule dlist_cong) (use e in \<open>auto intro!: out\<close>)
  have ei: "event_own pl r X ?wk es" using rc(4) e dom X unfolding event_own_def
    by (auto simp: posixc_preparefd_def)
  have run: "posixc_event_create pl w (Some e) r fd cb arg ty =
      (if snd (call_kernel ?w (plat_create pl (r_id rc) e ?ev)) then Inr (?wk, Some e)
       else bindE (posixc_event_release pl ?wk e) (\<lambda>w. Inr (w, None)))"
    using h(1) rc(1)
    by (simp add: posixc_event_create_def posixc_event_init_def posixc_preparefd_def Let_def node_of_def
        case_prod_beta)
  have calls: "snd (call_kernel ?w c) \<longleftrightarrow> c \<noteq> None \<and> plat_answer w (length (plat_calls w))"
    "plat_calls (fst (call_kernel ?w c)) = plat_calls w @ (case c of None \<Rightarrow> [] | Some c \<Rightarrow> [c])" for c
    using kernel_calls [of ?w c] by (simp_all add: posixc_preparefd_def)
  show ?thesis
  proof (cases "snd (call_kernel ?w (plat_create pl (r_id rc) e ?ev))")
    case True
    have "gc_own pl r X ?wk es" using ei d rc(1,2) by (simp add: gc_own_def posixc_preparefd_def)
    then show ?thesis using run True calls dom
      by (intro exI [of _ ?wk] exI [of _ "Some e"]) (simp add: posixc_preparefd_def new_event_def)
  next
    case False
    let ?w' = "?wk\<lparr>syscalls := syscalls ?wk @ [Close fd], events := (events ?wk)(e := None),
      lists := (lists ?wk)(e + node_off pl := None)\<rparr>"
    have "posixc_event_release pl ?wk e = Inr ?w'" by (subst release_ok [of _ _ ?ev]) simp_all
    moreover have "gc_own pl r X ?w' es" using event_inv_remove [OF ei e(1)] dlist_remove [OF d e(1,2)] rc(1,2)
      by (simp add: gc_own_def posixc_preparefd_def)
    ultimately show ?thesis using run False new(1) calls
      by (intro exI [of _ ?w'] exI [of _ None]) (simp add: posixc_preparefd_def new_event_def fun_upd_idem)
  qed
qed

text \<open>Updates of an event that keep its reactor, its state and its mutex keep the invariant.\<close>

lemma gc_inv_update:
  assumes "gc_own pl r X w es" "events w e = Some ev"
    and "events w' = (events w)(e \<mapsto> ev')" "reactors w' = reactors w" "lists w' = lists w"
    and "e_reactor ev' = e_reactor ev" "e_closing ev' = e_closing ev" "e_mtx ev' = e_mtx ev"
  shows "gc_own pl r X w' es"
  using assms unfolding gc_own_def event_own_def by auto

lemma submit_locked_ok:
  assumes inv: "gc_own pl r X w es" and e: "events w e = Some ev" and rc: "reactors w r = Some rc"
  shows "\<exists>w' ok. submit_locked pl w e evs = Inr (w', ok) \<and> gc_own pl r X w' es \<and>
    reactors w' = reactors w \<and> rworld.more w' = rworld.more w \<and>
    events w' = (events w)(e \<mapsto> ev\<lparr>evmask := evmask ev OR evs\<rparr>) \<and>
    plat_calls w' = plat_calls w @ (case plat_submit pl (r_id rc) e (ev\<lparr>e_mtx := True,
      evmask := evmask ev OR evs\<rparr>) of None \<Rightarrow> [] | Some c \<Rightarrow> [c])"
proof -
  have "event_own pl r X w es" using inv by (simp add: gc_own_def)
  note ei = event_invD [OF this e]
  have upd: "ev\<lparr>evmask := x, e_mtx := False\<rparr> = ev\<lparr>evmask := x\<rparr>" for x using ei(2) by (cases ev) simp
  let ?ev = "ev\<lparr>e_mtx := True, evmask := evmask ev OR evs\<rparr>"
  let ?w = "put_event (put_event w e (ev\<lparr>e_mtx := True\<rparr>)) e ?ev"
  let ?k = "call_kernel ?w (plat_submit pl (r_id rc) e ?ev)"
  let ?w' = "put_event (fst ?k) e (ev\<lparr>evmask := evmask ev OR evs\<rparr>)"
  have "submit_locked pl w e evs = Inr (?w', snd ?k)"
    using e ei(1,2) rc
    by (simp add: upd submit_locked_def lock_event_def unlock_event_def Let_def case_prod_beta)
  moreover have "gc_own pl r X ?w' es"
    by (rule gc_inv_update [OF inv e, where ev' = "ev\<lparr>evmask := evmask ev OR evs\<rparr>"]) simp_all
  ultimately show ?thesis
    by (intro exI [of _ ?w'] exI [of _ "snd ?k"]) (simp add: call_kernel_def split: option.splits)
qed

lemma event_submit_ok:
  assumes inv: "gc_own pl r X w es" and e: "events w e = Some ev" and rc: "reactors w r = Some rc"
  shows "\<exists>w' ok. posixc_event_submit pl w e evs = Inr (w', ok) \<and> gc_own pl r X w' es \<and>
    reactors w' = reactors w \<and> rworld.more w' = rworld.more w \<and> events w' = (events w)(e \<mapsto>
      ev\<lparr>evmask := if e_closing ev then evmask ev else evmask ev OR evs\<rparr>) \<and>
    (if e_closing ev then w' = w \<and> \<not> ok
     else plat_calls w' = plat_calls w @ (case plat_submit pl (r_id rc) e (ev\<lparr>e_mtx := True,
       evmask := evmask ev OR evs\<rparr>) of None \<Rightarrow> [] | Some c \<Rightarrow> [c]))"
proof (cases "e_closing ev")
  case True
  then show ?thesis using e inv by (simp add: posixc_event_submit_def fun_upd_idem exI [of _ False])
next
  case False
  then show ?thesis using submit_locked_ok [OF assms, of evs] e by (simp add: posixc_event_submit_def)
qed

lemma event_consume_ok:
  assumes inv: "gc_own pl r X w es" and e: "events w e = Some ev"
  shows "\<exists>w'. posixc_event_consume w e evs = Inr (w', e_cb ev, e_arg ev) \<and> gc_own pl r X w' es \<and>
    reactors w' = reactors w \<and> events w' = (events w)(e \<mapsto> ev\<lparr>evmask := evmask ev AND NOT evs\<rparr>) \<and>
    plat_calls w' = plat_calls w \<and> rworld.more w' = rworld.more w"
proof -
  have "event_own pl r X w es" using inv by (simp add: gc_own_def)
  note ei = event_invD [OF this e]
  have upd: "ev\<lparr>evmask := x, e_mtx := False\<rparr> = ev\<lparr>evmask := x\<rparr>" for x using ei(2) by (cases ev) simp
  let ?w = "put_event w e (ev\<lparr>e_mtx := True\<rparr>)"
  let ?w' = "put_event (put_event ?w e (ev\<lparr>e_mtx := True, evmask := evmask ev AND NOT evs\<rparr>)) e
    (ev\<lparr>evmask := evmask ev AND NOT evs\<rparr>)"
  have "posixc_event_consume w e evs = Inr (?w', e_cb ev, e_arg ev)"
    using e ei(2) by (simp add: upd posixc_event_consume_def lock_event_def unlock_event_def Let_def)
  moreover have "gc_own pl r X ?w' es"
    by (rule gc_inv_update [OF inv e, where ev' = "ev\<lparr>evmask := evmask ev AND NOT evs\<rparr>"]) simp_all
  ultimately show ?thesis by simp
qed

lemma set_interval_ok:
  assumes "gc_own pl r X w es" "events w e = Some ev"
  shows "\<exists>w'. posixc_timer_event_set_interval w e ms periodic = Inr w' \<and> gc_own pl r X w' es \<and>
    reactors w' = reactors w \<and> rworld.more w' = rworld.more w \<and> plat_calls w' = plat_calls w \<and>
    events w' = (events w)(e \<mapsto> ev\<lparr>data_1 := (if periodic then POSIXC_TIMER_PERIODIC
      else POSIXC_TIMER_ONESHOT), data_2 := to_u64 ms\<rparr>)"
proof -
  let ?ev = "ev\<lparr>data_1 := (if periodic then POSIXC_TIMER_PERIODIC else POSIXC_TIMER_ONESHOT), data_2 := to_u64 ms\<rparr>"
  have "gc_own pl r X (put_event w e ?ev) es" 
    by (rule gc_inv_update [OF assms, where ev' = ?ev]) simp_all
  then show ?thesis using assms(2) by (simp add: posixc_timer_event_set_interval_def)
qed

subsection \<open>Collection by a user thread\<close>

text \<open>\<open>posixc_reactor_destroy\<close> starts with a collection in the calling thread. There every queued event is
  taken out of the list, and none is released.\<close>

lemma gc_user_step:
  assumes "dlist (lists w) (r + gc_off pl) (map (node_of pl) (e # rest))" "events w e = Some ev"
    "e_closing ev" "reactors w (e_reactor ev) = Some rc" "self \<noteq> r_thread rc"
  shows "\<exists>h. gc_step pl self e w = Inr (w\<lparr>lists := h\<rparr>) \<and> dlist h (r + gc_off pl) (map (node_of pl) rest)"
proof -
  obtain h where h: "list_del (lists w) (node_of pl e) = Inr h"
    "dlist h (r + gc_off pl) (map (node_of pl) rest)"
    using kl.del_law [of "lists w" "r + gc_off pl" "[]" "node_of pl e" "map (node_of pl) rest"] assms(1)
    by auto
  then show ?thesis using destroy_closing [of "w\<lparr>lists := h\<rparr>" e ev rc pl self] assms(2-5)
    by (intro exI [of _ h]) (simp add: gc_step_def node_of_def)
qed

lemma reactor_gc_user:
  assumes inv: "gc_inv pl r w es" and rc: "reactors w r = Some rc" "self \<noteq> r_thread rc"
  shows "\<exists>w'. posixc_reactor_gc pl self w r = Some (Inr w') \<and> dlist (lists w') (r + gc_off pl) [] \<and>
    events w' = events w \<and> syscalls w' = syscalls w"
proof -
  let ?w = "put_reactor w r (rc\<lparr>r_mtx := True\<rparr>)"
  let ?P = "\<lambda>s ns. \<exists>rest. set rest \<subseteq> set es \<and> ns = map (node_of pl) rest \<and>
    dlist (lists s) (r + gc_off pl) ns \<and> (\<exists>h. s = ?w\<lparr>lists := h\<rparr>)"
  have unl: "\<not> r_mtx rc" and d: "dlist (lists w) (r + gc_off pl) (map (node_of pl) es)"
    and ei: "event_inv pl r w es" using inv rc(1) by (auto elim: gc_invE)
  have lock: "lock_reactor w r = Inr ?w" using rc(1) unl by (simp add: lock_reactor_def)
  have empty: "list_empty (lists ?w) (r + gc_off pl) = Inr (es = [])" using kl.empty_law [OF d] by simp
  have "\<exists>w1. list_for_each_entry_safe lists (node_off pl) (gc_step pl self) (r + gc_off pl) ?w =
      Some (Inr w1) \<and> ?P w1 []"
  proof (rule list_for_each_entry_safe_drain [where P = ?P])
    have "?w = ?w\<lparr>lists := lists ?w\<rparr>" by simp
    then show "?P ?w (map (node_of pl) es)" using d by (intro exI [of _ es] conjI exI [of _ "lists ?w"]) simp_all
    show "dlist (lists s) (r + gc_off pl) ys" if "?P s ys" for s ys using that by auto
    show "\<exists>s'. gc_step pl self (list_entry p (node_off pl)) s = Inr s' \<and> ?P s' ys" if "?P s (p # ys)" for s p ys
    proof -
      obtain e rest h where s: "set (e # rest) \<subseteq> set es" "p = node_of pl e" "ys = map (node_of pl) rest"
        "dlist (lists s) (r + gc_off pl) (map (node_of pl) (e # rest))" "s = ?w\<lparr>lists := h\<rparr>"
        using \<open>?P s (p # ys)\<close> by (auto simp: Cons_eq_map_conv)
      obtain ev where ev: "events w e = Some ev" "e_closing ev" using s(1) queued_iff [OF ei, of e] by auto
      obtain h' where "gc_step pl self e s = Inr (s\<lparr>lists := h'\<rparr>)" "dlist h' (r + gc_off pl) ys"
        using gc_user_step [OF s(4), of ev "rc\<lparr>r_mtx := True\<rparr>" self] ev event_invD(1) [OF ei ev(1)] rc(2) s(3,5)
        by auto
      then show ?thesis using s by (auto simp: node_of_def)
    qed
  qed
  then obtain w1 h where run: "list_for_each_entry_safe lists (node_off pl) (gc_step pl self)
      (r + gc_off pl) ?w = Some (Inr w1)" and w1: "w1 = ?w\<lparr>lists := h\<rparr>" "dlist h (r + gc_off pl) []" by auto
  show ?thesis using lock empty run w1 d by (cases "es = []")
      (auto simp: posixc_reactor_gc_def unlock_reactor_def)
qed

section \<open>The API as a step relation\<close>

text \<open>The calls that threads make on one reactor \<open>r\<close>. \<open>allowed\<close> is what the library asks of its callers: a
  new event gets new memory, an event that is passed is still allocated, and the reactor's thread
  neither destroys an event that is already queued nor leaves the collection to others.\<close>

datatype call =
    Create "addr option" int "nat option" addr nat
  | Submit addr "32 word"
  | Consume addr "32 word"
  | Set_Interval addr int bool
  | Destroy thread_id addr
  | Collect thread_id

definition allowed :: "'c plat \<Rightarrow> addr \<Rightarrow> 'c rworld \<Rightarrow> call \<Rightarrow> bool" where
  "allowed pl r w c = (case c of
     Create mem fd cb arg ty \<Rightarrow>
       (case mem of None \<Rightarrow> True | Some e \<Rightarrow> events w e = None \<and> lists w (node_of pl e) = None)
   | Submit e evs \<Rightarrow> events w e \<noteq> None
   | Consume e evs \<Rightarrow> events w e \<noteq> None
   | Set_Interval e ms periodic \<Rightarrow> events w e \<noteq> None
   | Destroy self e \<Rightarrow> (case events w e of None \<Rightarrow> False
       | Some ev \<Rightarrow> (case reactors w r of None \<Rightarrow> False | Some rc \<Rightarrow> self = r_thread rc \<longrightarrow> \<not> e_closing ev))
   | Collect self \<Rightarrow> (case reactors w r of None \<Rightarrow> False | Some rc \<Rightarrow> self = r_thread rc))"

definition perform :: "'c plat \<Rightarrow> addr \<Rightarrow> 'c rworld \<Rightarrow> call \<Rightarrow> 'c rworld run" where
  "perform pl r w c = (case c of
     Create mem fd cb arg ty \<Rightarrow>
       Some (bindE (posixc_event_create pl w mem r fd cb arg ty) (\<lambda>(w, e). Inr w))
   | Submit e evs \<Rightarrow> Some (bindE (posixc_event_submit pl w e evs) (\<lambda>(w, ok). Inr w))
   | Consume e evs \<Rightarrow> Some (bindE (posixc_event_consume w e evs) (\<lambda>(w, cb, arg). Inr w))
   | Set_Interval e ms periodic \<Rightarrow> Some (posixc_timer_event_set_interval w e ms periodic)
   | Destroy self e \<Rightarrow> Some (posixc_event_destroy pl self w e)
   | Collect self \<Rightarrow> posixc_reactor_gc pl self w r)"

inductive reachable :: "'c plat \<Rightarrow> addr \<Rightarrow> 'c rworld \<Rightarrow> 'c rworld \<Rightarrow> bool" for pl r w0 where
  start: "reachable pl r w0 w0"
| call: "reachable pl r w0 w \<Longrightarrow> allowed pl r w c \<Longrightarrow> perform pl r w c = Some (Inr w') \<Longrightarrow>
    reachable pl r w0 w'"

text \<open>The same executions with the calls made so far, and the queue that they determine: an event is queued by
  its first destruction by a user thread, behind those that are queued already, and a collection
  empties the queue. A destruction by the reactor's thread \<open>t\<close> releases the event at once.\<close>

inductive history :: "'c plat \<Rightarrow> addr \<Rightarrow> 'c rworld \<Rightarrow> call list \<Rightarrow> 'c rworld \<Rightarrow> bool" for pl r w0 where
  start: "history pl r w0 [] w0"
| call: "history pl r w0 cs w \<Longrightarrow> allowed pl r w c \<Longrightarrow> perform pl r w c = Some (Inr w') \<Longrightarrow>
    history pl r w0 (cs @ [c]) w'"

definition enqueue :: "thread_id \<Rightarrow> addr list \<Rightarrow> call \<Rightarrow> addr list" where
  "enqueue t q c = (case c of
     Destroy self e \<Rightarrow> if self = t \<or> e \<in> set q then q else q @ [e]
   | Collect self \<Rightarrow> []
   | _ \<Rightarrow> q)"

definition destroyed_in_order :: "thread_id \<Rightarrow> call list \<Rightarrow> addr list" where
  "destroyed_in_order t cs = foldl (enqueue t) [] cs"

lemma perform_queue:
  assumes inv: "gc_inv pl r w es" and ok: "allowed pl r w c" and rc: "reactors w r = Some rc"
  shows "\<exists>w'. perform pl r w c = Some (Inr w') \<and> gc_inv pl r w' (enqueue (r_thread rc) es c) \<and>
    reactors w' = reactors w"
proof (cases c)
  case (Create mem fd cb arg ty)
  show ?thesis
  proof (cases mem)
    case None
    then show ?thesis using Create inv by (simp add: perform_def posixc_event_create_def enqueue_def)
  next
    case (Some e)
    then show ?thesis using event_create_ok [OF inv _ _ rc, of e fd cb arg ty] Create ok
      by (fastforce simp: allowed_def perform_def enqueue_def)
  qed
next
  case (Submit e evs)
  then obtain ev where "events w e = Some ev" using ok by (auto simp: allowed_def)
  from event_submit_ok [OF inv this rc, of evs]
  show ?thesis using Submit by (auto simp: perform_def enqueue_def)
next
  case (Consume e evs)
  then obtain ev where "events w e = Some ev" using ok by (auto simp: allowed_def)
  from event_consume_ok [OF inv this, of evs]
  show ?thesis using Consume by (auto simp: perform_def enqueue_def)
next
  case (Set_Interval e ms periodic)
  then obtain ev where "events w e = Some ev" using ok by (auto simp: allowed_def)
  from set_interval_ok [OF inv this, of ms periodic]
  show ?thesis using Set_Interval by (auto simp: perform_def enqueue_def)
next
  case (Destroy self e)
  then obtain ev where ev: "events w e = Some ev" "self = r_thread rc \<longrightarrow> \<not> e_closing ev"
    using ok rc by (auto simp: allowed_def split: option.splits)
  have ei: "event_inv pl r w es" using inv by (simp add: gc_own_def)
  note evD = event_invD [OF ei ev(1)]
  show ?thesis using destroy_user [OF inv ev(1) _ rc, of self] destroy_reactor [OF inv ev(1) _ rc, of self]
      destroy_closing [of w e ev rc pl self] inv ev rc evD(1,3) Destroy
    by (cases "e_closing ev"; cases "self = r_thread rc") (auto simp: perform_def enqueue_def)
next
  case (Collect self)
  then show ?thesis using reactor_gc_ok [OF inv rc] ok rc by (auto simp: allowed_def perform_def enqueue_def)
qed

lemma perform_ok:
  assumes inv: "gc_inv pl r w es" and ok: "allowed pl r w c"
  shows "\<exists>w' es'. perform pl r w c = Some (Inr w') \<and> gc_inv pl r w' es'"
proof -
  obtain rc where "reactors w r = Some rc" using inv by (rule gc_invE)
  then show ?thesis using perform_queue [OF inv ok] by blast
qed

lemma reachable_inv:
  assumes "reachable pl r w0 w" "gc_inv pl r w0 es0"
  shows "\<exists>es. gc_inv pl r w es"
  using assms
proof (induction rule: reachable.induct)
  case (call w c w')
  then show ?case using perform_ok by (metis option.inject sum.inject(2))
qed blast

lemma history_queue:
  assumes "history pl r w0 cs w" "gc_inv pl r w0 []" "reactors w0 r = Some rc"
  shows "gc_inv pl r w (destroyed_in_order (r_thread rc) cs) \<and> reactors w = reactors w0"
  using assms
proof (induction rule: history.induct)
  case (call cs w c w')
  then show ?case using perform_queue [of pl r w "destroyed_in_order (r_thread rc) cs" c rc]
    by (simp add: destroyed_in_order_def)
qed (simp add: destroyed_in_order_def)

lemma reactor_create_returns:
  assumes "0 \<le> fd"
  shows "\<exists>w0. posixc_reactor_create pl w fd (Some r) (Some t) = Inr (w0, Some r) \<and>
    reactors w0 = (reactors w)(r \<mapsto> \<lparr>r_mtx = False, r_thread = t, r_id = fd, r_closing = False\<rparr>) \<and>
    events w0 = events w \<and> ring (lists w0) [r + gc_off pl] \<and> dom (lists w0) = insert (r + gc_off pl) (dom (lists w)) \<and>
    plat_calls w0 = plat_calls w \<and> plat_answer w0 = plat_answer w \<and> rworld.more w0 = rworld.more w"
proof -
  let ?h0 = "(lists w)(r + gc_off pl \<mapsto> \<lparr>lnext = NULL, lprev = NULL\<rparr>)"
  obtain h where h: "INIT_LIST_HEAD ?h0 (r + gc_off pl) = Inr h" "ring h [r + gc_off pl]"
    "same_outside {r + gc_off pl} ?h0 h"
    using INIT_LIST_HEAD_ring [of "r + gc_off pl" ?h0] by auto
  have "dom h = insert (r + gc_off pl) (dom (lists w))" using h(3) by (auto simp: same_outside_def)
  then show ?thesis using assms h(1,2) by (auto simp: posixc_reactor_create_def Let_def)
qed

lemma reactor_create_ok:
  assumes "posixc_reactor_create pl w fd (Some r) (Some t) = Inr (w0, Some r')" "events w = Map.empty"
  shows "gc_inv pl r w0 [] \<and> r' = r \<and> (\<exists>rc. reactors w0 r = Some rc \<and> r_thread rc = t)"
proof -
  have "0 \<le> fd" using assms(1) by (auto simp: posixc_reactor_create_def split: if_splits)
  from reactor_create_returns [OF this, of pl w r t] show ?thesis using assms
    by (auto simp: gc_own_def event_own_def dlist_def)
qed

section \<open>The contract of a platform\<close>

text \<open>\<open>armed c\<close> are the conditions that a call asks the kernel to report, as bits of \<open>evmask\<close>, \<open>target c\<close> the
  native id of the reactor it is for; \<open>supported ty\<close> are the bits a type of event can wait for.\<close>

locale event_platform =
  fixes pl :: "'c plat"
    and target :: "'c \<Rightarrow> int"
    and armed :: "'c \<Rightarrow> 32 word"
    and supported :: "nat \<Rightarrow> 32 word"
  assumes submit_call: "plat_submit pl rid e ev = Some c \<Longrightarrow>
      target c = rid \<and> armed c = evmask ev AND supported (e_type ev)"
    and submit_none: "plat_submit pl rid e ev = None \<Longrightarrow> evmask ev AND supported (e_type ev) = 0"
    and create_call: "supported (e_type ev) \<noteq> 0 \<Longrightarrow>
      \<exists>c. plat_create pl rid e ev = Some c \<and> target c = rid \<and> armed c = 0"
    and destroy_call: "supported (e_type ev) \<noteq> 0 \<Longrightarrow>
      \<exists>c. plat_destroy pl rid e ev = Some c \<and> target c = rid \<and> armed c = 0"
begin

lemma submit_arms:
  assumes inv: "gc_inv pl r w es" and e: "events w e = Some ev" "\<not> e_closing ev"
    and rc: "reactors w r = Some rc" and some: "(evmask ev OR evs) AND supported (e_type ev) \<noteq> 0"
  shows "\<exists>w' ok c. posixc_event_submit pl w e evs = Inr (w', ok) \<and> plat_calls w' = plat_calls w @ [c] \<and>
    target c = r_id rc \<and> armed c = (evmask ev OR evs) AND supported (e_type ev) \<and>
    events w' = (events w)(e \<mapsto> ev\<lparr>evmask := evmask ev OR evs\<rparr>)"
proof -
  let ?ev = "ev\<lparr>e_mtx := True, evmask := evmask ev OR evs\<rparr>"
  obtain w' ok where w': "posixc_event_submit pl w e evs = Inr (w', ok)"
    "events w' = (events w)(e \<mapsto> ev\<lparr>evmask := evmask ev OR evs\<rparr>)"
    "plat_calls w' = plat_calls w @ (case plat_submit pl (r_id rc) e ?ev of None \<Rightarrow> [] | Some c \<Rightarrow> [c])"
    using event_submit_ok [OF inv e(1) rc, of evs] e(2) by auto
  obtain c where "plat_submit pl (r_id rc) e ?ev = Some c"
    using submit_none [of "r_id rc" e ?ev] some by (cases "plat_submit pl (r_id rc) e ?ev") auto
  then show ?thesis using w' submit_call [of "r_id rc" e ?ev c] by auto
qed

text \<open>An event that was consumed reports nothing until it is submitted again, and then what it reported
  before.\<close>

lemma resubmit_arms:
  assumes inv: "gc_inv pl r w es" and e: "events w e = Some ev" "\<not> e_closing ev"
    and rc: "reactors w r = Some rc" and some: "evs AND supported (e_type ev) \<noteq> 0"
    and consumed: "evmask ev AND NOT evs = 0"
  shows "\<exists>w1 w2 ok c. posixc_event_consume w e evs = Inr (w1, e_cb ev, e_arg ev) \<and>
    plat_calls w1 = plat_calls w \<and> posixc_event_submit pl w1 e evs = Inr (w2, ok) \<and>
    plat_calls w2 = plat_calls w @ [c] \<and> target c = r_id rc \<and> armed c = evs AND supported (e_type ev)"
proof -
  obtain w1 where w1: "posixc_event_consume w e evs = Inr (w1, e_cb ev, e_arg ev)" "gc_inv pl r w1 es"
    "reactors w1 = reactors w" "events w1 = (events w)(e \<mapsto> ev\<lparr>evmask := 0\<rparr>)" "plat_calls w1 = plat_calls w"
    using event_consume_ok [OF inv e(1), of evs] consumed by auto
  show ?thesis using submit_arms [OF w1(2), of e "ev\<lparr>evmask := 0\<rparr>" rc evs] w1 e(2) rc some by auto
qed

end

section \<open>Properties\<close>

text \<open>For the witnesses: a platform whose calls always succeed, a reactor at address 1000 with thread 7,
  and an event at address 100, created and then destroyed by thread 1.\<close>

definition demo_plat :: "unit plat" where
  "demo_plat = \<lparr>node_off = 8, gc_off = 16, plat_create = (\<lambda>rid e ev. Some ()),
     plat_destroy = (\<lambda>rid e ev. Some ()), plat_submit = (\<lambda>rid e ev. Some ())\<rparr>"

definition no_events :: "unit rworld" where
  "no_events = \<lparr>events = Map.empty, reactors = Map.empty, lists = Map.empty, syscalls = [],
     plat_calls = [], plat_answer = (\<lambda>n. True)\<rparr>"

definition demo_reactor :: "unit rworld" where
  "demo_reactor = no_events\<lparr>lists := [1016 \<mapsto> \<lparr>lnext = 1016, lprev = 1016\<rparr>],
     reactors := [1000 \<mapsto> \<lparr>r_mtx = False, r_thread = 7, r_id = 5, r_closing = False\<rparr>]\<rparr>"

definition demo_event :: posixc_event where
  "demo_event = \<lparr>e_reactor = 1000, e_fd = 9, e_cb = None, e_arg = 0, evmask = 0, e_closing = True,
     e_type = SOCK_EV, data_1 = 0, data_2 = 0, e_mtx = False\<rparr>"

definition demo_created :: "unit rworld" where
  "demo_created = demo_reactor\<lparr>events := [100 \<mapsto> demo_event\<lparr>e_closing := False\<rparr>],
    lists := [1016 \<mapsto> \<lparr>lnext = 1016, lprev = 1016\<rparr>, 108 \<mapsto> \<lparr>lnext = 108, lprev = 108\<rparr>],
    syscalls := [Set_Cloexec 9, Set_Nonblock 9, Set_Nosigpipe 9], plat_calls := [()]\<rparr>"

definition demo_queued :: "unit rworld" where
  "demo_queued = demo_reactor\<lparr>events := [100 \<mapsto> demo_event],
    lists := [108 \<mapsto> \<lparr>lnext = 1016, lprev = 1016\<rparr>, 1016 \<mapsto> \<lparr>lnext = 108, lprev = 108\<rparr>],
    syscalls := [Set_Cloexec 9, Set_Nonblock 9, Set_Nosigpipe 9, Shutdown 9], plat_calls := [(), ()]\<rparr>"

lemmas demo_defs = demo_plat_def no_events_def demo_reactor_def demo_event_def demo_created_def
  demo_queued_def

lemma demo_create:
  "posixc_reactor_create demo_plat no_events 5 (Some 1000) (Some 7) = Inr (demo_reactor, Some 1000)"
  by (simp add: posixc_reactor_create_def demo_defs INIT_LIST_HEAD_def set_next_def set_prev_def load_def
      put_reactor_def)

lemma demo_no_events [simp]: "events no_events = Map.empty"
  by (simp add: no_events_def)

lemma demo_create_event:
  "perform demo_plat 1000 demo_reactor (Create (Some 100) 9 None 0 SOCK_EV) = Some (Inr demo_created)"
  by (simp add: perform_def posixc_event_create_def posixc_event_init_def posixc_preparefd_def log_sys_def
      put_event_def INIT_LIST_HEAD_def set_next_def set_prev_def load_def get_event_def get_reactor_def
      call_kernel_def demo_defs)

lemma demo_destroy_event:
  "perform demo_plat 1000 demo_created (Destroy 1 100) = Some (Inr demo_queued)"
  by (simp add: perform_def posixc_event_destroy_def add_to_gc_list_def lock_reactor_def unlock_reactor_def
      log_sys_def put_event_def put_reactor_def list_add_tail_def u_list_add_def get_prev_def set_next_def
      set_prev_def load_def get_event_def get_reactor_def call_kernel_def demo_defs Let_def)

lemma demo_reachable: "reachable demo_plat 1000 demo_reactor demo_queued"
proof -
  have "allowed demo_plat 1000 demo_reactor (Create (Some 100) 9 None 0 SOCK_EV)"
    "allowed demo_plat 1000 demo_created (Destroy 1 100)"
    by (simp_all add: allowed_def demo_defs node_of_def)
  then show ?thesis using demo_create_event demo_destroy_event
    by (blast intro: reachable.start reachable.call)
qed

lemma demo_inv: "gc_inv demo_plat 1000 demo_queued [100]"
proof -
  have "ring (lists demo_queued) [1016, 108]"
    by (simp add: ring_def cyc_def nx_def pv_def demo_defs)
  then show ?thesis
    by (simp add: gc_own_def event_own_def dlist_def node_of_def demo_defs)
qed

text \<open>Two events at the addresses 100 and 200, on the descriptors 9 and 6. The first is destroyed last, after
  a second destruction of the other one.\<close>

definition demo_calls :: "call list" where
  "demo_calls = [Create (Some 100) 9 None 0 SOCK_EV, Create (Some 200) 6 None 0 SOCK_EV,
     Destroy 1 200, Destroy 2 200, Destroy 1 100]"

lemma demo_history:
  "\<exists>w1. history demo_plat 1000 demo_reactor demo_calls w1 \<and> dom (events w1) = {100, 200} \<and>
    e_fd (the (events w1 100)) = 9 \<and> e_fd (the (events w1 200)) = 6"
proof -
  let ?rc = "\<lparr>r_mtx = False, r_thread = 7, r_id = 5, r_closing = False\<rparr>"
  let ?ev1 = "new_event 1000 9 None 0 SOCK_EV" and ?ev2 = "new_event 1000 6 None 0 SOCK_EV"
  have rc0: "reactors demo_reactor 1000 = Some ?rc" by (simp add: demo_defs)
  have al1: "allowed demo_plat 1000 demo_reactor (demo_calls ! 0)"
    and al2: "allowed demo_plat 1000 demo_created (demo_calls ! 1)"
    by (simp_all add: allowed_def demo_calls_def demo_defs node_of_def)
  have h1: "history demo_plat 1000 demo_reactor ([] @ [demo_calls ! 0]) demo_created"
    using al1 by (rule history.call [OF history.start]) (simp add: demo_calls_def demo_create_event)
  have "gc_inv demo_plat 1000 demo_reactor []" using reactor_create_ok [OF demo_create demo_no_events] by simp
  then have inv1: "gc_inv demo_plat 1000 demo_created []" and rc1: "reactors demo_created 1000 = Some ?rc"
    using history_queue [OF h1 _ rc0] rc0 by (simp_all add: destroyed_in_order_def enqueue_def demo_calls_def)
  have ev1: "events demo_created = [100 \<mapsto> ?ev1]" by (simp add: demo_defs new_event_def)
  obtain w2 where w2: "perform demo_plat 1000 demo_created (demo_calls ! 1) = Some (Inr w2)"
    "gc_inv demo_plat 1000 w2 []" "reactors w2 1000 = Some ?rc" "events w2 = [100 \<mapsto> ?ev1, 200 \<mapsto> ?ev2]"
    using event_create_ok [OF inv1 _ _ rc1, of 200 6 None 0 SOCK_EV] rc1
    by (auto simp: perform_def demo_calls_def demo_defs node_of_def new_event_def)
  obtain w3 where w3: "perform demo_plat 1000 w2 (Destroy 1 200) = Some (Inr w3)" "gc_inv demo_plat 1000 w3 [200]"
    "reactors w3 1000 = Some ?rc" "events w3 = [100 \<mapsto> ?ev1, 200 \<mapsto> ?ev2\<lparr>e_closing := True\<rparr>]"
    using destroy_user [OF w2(2) _ _ w2(3), of 200 ?ev2 1] w2 by (auto simp: perform_def new_event_def)
  have same: "perform demo_plat 1000 w3 (Destroy 2 200) = Some (Inr w3)"
    using destroy_closing [of w3 200 "?ev2\<lparr>e_closing := True\<rparr>" ?rc demo_plat 2] w3
    by (simp add: perform_def new_event_def)
  obtain w4 where w4: "perform demo_plat 1000 w3 (Destroy 1 100) = Some (Inr w4)"
    "events w4 = [100 \<mapsto> ?ev1\<lparr>e_closing := True\<rparr>, 200 \<mapsto> ?ev2\<lparr>e_closing := True\<rparr>]"
    using destroy_user [OF w3(2) _ _ w3(3), of 100 ?ev1 1] w3
    by (auto simp: perform_def new_event_def fun_upd_twist)
  have "history demo_plat 1000 demo_reactor
      (((([] @ [demo_calls ! 0]) @ [demo_calls ! 1]) @ [Destroy 1 200]) @ [Destroy 2 200] @ [Destroy 1 100]) w4"
    using history.call [OF history.call [OF history.call [OF history.call [OF h1 al2 w2(1)] _ w3(1)] _ same] _ w4(1)]
      w2(3,4) w3(3,4) by (simp add: allowed_def new_event_def)
  then show ?thesis using w4(2) by (intro exI [of _ w4]) (auto simp: demo_calls_def new_event_def)
qed

text \<open>C4: whatever calls the user threads and the reactor's thread make on a new reactor, in any order,
  as long as each is allowed: the next allowed call returns, without an access to freed memory, a
  corrupt list or a mutex that is locked twice.\<close>

theorem reactor_api_safe:
  assumes "posixc_reactor_create pl w fd (Some r) (Some t) = Inr (w0, Some r')" "events w = Map.empty"
    and "reachable pl r w0 w1" "allowed pl r w1 c"
  shows "\<exists>w2. perform pl r w1 c = Some (Inr w2)"
  using reactor_create_ok [OF assms(1,2)] reachable_inv [OF assms(3)] perform_ok assms(4) by blast

theorem reactor_api_safe_witness:
  "\<exists>w2. perform demo_plat 1000 demo_queued (Collect 7) = Some (Inr w2)"
proof (rule reactor_api_safe [OF demo_create demo_no_events demo_reachable])
  show "allowed demo_plat 1000 demo_queued (Collect 7)" by (simp add: allowed_def demo_defs)
qed

text \<open>C8: after any sequence of allowed calls on a new reactor, a collection by the reactor's thread frees
  exactly the events that are closing, closes their descriptors, each once and in the order in which
  user threads destroyed the events since the last collection, and leaves the list empty.\<close>

theorem reactor_gc_collects:
  assumes "posixc_reactor_create pl w fd (Some r) (Some t) = Inr (w0, Some r')" "events w = Map.empty"
    and "history pl r w0 cs w1"
  shows "\<exists>w2. posixc_reactor_gc pl t w1 r = Some (Inr w2) \<and>
    syscalls w2 = syscalls w1 @ map (\<lambda>e. Close (e_fd (the (events w1 e)))) (destroyed_in_order t cs) \<and>
    distinct (destroyed_in_order t cs) \<and>
    (\<forall>e. e \<in> set (destroyed_in_order t cs) \<longleftrightarrow> (\<exists>ev. events w1 e = Some ev \<and> e_closing ev)) \<and>
    events w2 = (events w1) |` (- set (destroyed_in_order t cs)) \<and>
    list_empty (lists w2) (r + gc_off pl) = Inr True"
proof -
  let ?es = "destroyed_in_order t cs"
  obtain rc where rc: "reactors w0 r = Some rc" "r_thread rc = t" and "gc_inv pl r w0 []"
    using reactor_create_ok [OF assms(1,2)] by blast
  then have inv: "gc_inv pl r w1 ?es" and rc1: "reactors w1 r = Some rc"
    using history_queue [OF assms(3)] by auto
  obtain w2 where w2: "posixc_reactor_gc pl t w1 r = Some (Inr w2)" "gc_inv pl r w2 []"
    "events w2 = (events w1) |` (- set ?es)" "syscalls w2 = syscalls w1 @ map (Close \<circ> fd_of w1) ?es"
    using reactor_gc_ok [OF inv rc1] rc(2) by blast
  have "list_empty (lists w2) (r + gc_off pl) = Inr True"
    using w2(2) kl.empty_law [of "lists w2" "r + gc_off pl" "[]"] by (simp add: gc_own_def)
  moreover have "\<forall>e. e \<in> set ?es \<longleftrightarrow> (\<exists>ev. events w1 e = Some ev \<and> e_closing ev)"
    using inv queued_iff [of pl r w1 ?es] by (simp add: gc_own_def)
  ultimately show ?thesis using w2 gc_inv_distinct [OF inv]
    by (intro exI [of _ w2]) (simp add: fd_of_def comp_def)
qed

text \<open>Two events, destroyed in the other order than they were created in: the second descriptor is closed
  first.\<close>

theorem reactor_gc_collects_witness:
  "\<exists>w1 w2. history demo_plat 1000 demo_reactor demo_calls w1 \<and>
    posixc_reactor_gc demo_plat 7 w1 1000 = Some (Inr w2) \<and> events w2 = Map.empty \<and>
    syscalls w2 = syscalls w1 @ [Close 6, Close 9]"
proof -
  obtain w1 where w1: "history demo_plat 1000 demo_reactor demo_calls w1"
    "dom (events w1) = {100, 200}" "e_fd (the (events w1 100)) = 9" "e_fd (the (events w1 200)) = 6"
    using demo_history by blast
  have order: "destroyed_in_order 7 demo_calls = [200, 100]"
    by (simp add: destroyed_in_order_def enqueue_def demo_calls_def)
  obtain w2 where w2: "posixc_reactor_gc demo_plat 7 w1 1000 = Some (Inr w2)"
    "syscalls w2 = syscalls w1 @ [Close 6, Close 9]" "events w2 = (events w1) |` (- {200, 100})"
    using reactor_gc_collects [OF demo_create demo_no_events w1(1)] w1(3,4) unfolding order by auto
  have "events w2 = Map.empty" using w1(2) w2(3) by (auto simp: restrict_map_def fun_eq_iff)
  then show ?thesis using w1(1) w2 by blast
qed

text \<open>C38: a collection by another thread, such as the one \<open>posixc_reactor_destroy\<close> starts with, empties the
  list but releases no event: all of them stay allocated and open, and no later collection finds
  them.\<close>

theorem reactor_gc_user_leaks:
  assumes "gc_inv pl r w es" "reactors w r = Some rc" "self \<noteq> r_thread rc"
  shows "\<exists>w'. posixc_reactor_gc pl self w r = Some (Inr w') \<and> events w' = events w \<and>
    syscalls w' = syscalls w \<and> list_empty (lists w') (r + gc_off pl) = Inr True"
proof -
  obtain w' where w': "posixc_reactor_gc pl self w r = Some (Inr w')" "dlist (lists w') (r + gc_off pl) []"
    "events w' = events w" "syscalls w' = syscalls w" using reactor_gc_user [OF assms] by blast
  then show ?thesis using kl.empty_law [OF w'(2)] by simp
qed

theorem reactor_gc_user_leaks_witness:
  "\<exists>w'. posixc_reactor_gc demo_plat 1 demo_queued 1000 = Some (Inr w') \<and> events w' = [100 \<mapsto> demo_event] \<and>
    list_empty (lists w') 1016 = Inr True"
proof -
  have "reactors demo_queued 1000 = Some \<lparr>r_mtx = False, r_thread = 7, r_id = 5, r_closing = False\<rparr>"
    by (simp add: demo_defs)
  from reactor_gc_user_leaks [OF demo_inv this, of 1] show ?thesis by (auto simp: demo_defs)
qed

text \<open>When the reactor's thread destroys an event that a user thread has queued before, the event is
  freed inside the list and the next collection reads freed memory.\<close>

lemma double_destroy_use_after_free:
  assumes "gc_inv pl r w [e]" "reactors w r = Some rc"
  shows "\<exists>w'. posixc_event_destroy pl (r_thread rc) w e = Inr w' \<and>
    posixc_reactor_gc pl (r_thread rc) w' r = Some (Inl Bad_Pointer)"
proof -
  note rc = assms(2)
  have unl: "\<not> r_mtx rc" and d: "dlist (lists w) (r + gc_off pl) [node_of pl e]"
    and ei: "event_inv pl r w [e]" using assms by (auto elim: gc_invE)
  obtain ev where ev: "events w e = Some ev" "e_closing ev" using queued_iff [OF ei, of e] by auto
  note nd = event_invD [OF ei ev(1)]
  let ?w = "w\<lparr>syscalls := syscalls w @ [Close (e_fd ev)], events := (events w)(e := None),
    lists := (lists w)(e + node_off pl := None)\<rparr>"
  have "posixc_event_destroy pl (r_thread rc) w e = Inr ?w"
    using destroy_closing [OF ev] nd(1) rc release_ok [OF ev(1)] by simp
  moreover have next_head: "get_next (lists ?w) (r + gc_off pl) = Inr (node_of pl e)"
    using dlist_next_head [OF d] nd(5) by (simp add: get_next_def load_def node_of_def)
  moreover have "get_next (lists ?w) (node_of pl e) = Inl Bad_Pointer"
    by (simp add: get_next_def load_def node_of_def)
  ultimately show ?thesis using rc unl nd(5)
    by (simp add: posixc_reactor_gc_def lock_reactor_def list_empty_def list_for_each_entry_safe_def
        node_of_def)
qed

lemma double_destroy_use_after_free_example:
  "\<exists>w'. posixc_event_destroy demo_plat 7 demo_queued 100 = Inr w' \<and>
    posixc_reactor_gc demo_plat 7 w' 1000 = Some (Inl Bad_Pointer)"
proof -
  have "reactors demo_queued 1000 = Some \<lparr>r_mtx = False, r_thread = 7, r_id = 5, r_closing = False\<rparr>"
    by (simp add: demo_defs)
  from double_destroy_use_after_free [OF demo_inv this] show ?thesis by simp
qed

end
