(* ===== verification/Kqueue.thy ===== *)
theory Kqueue
  imports Reactor
begin

text \<open>
  The platform of \<open>src/mac/event_kq.c\<close> and \<open>src/mac/reactor_kq.c\<close>: the change lists that are given to
  \<open>kevent\<close>, and the thread of a reactor. What \<open>kevent\<close> answers is a parameter: \<open>plat_answer\<close> for the
  change lists, a list of answers for the waiting thread. While the thread waits, other threads run
  (\<open>others\<close>); when the list of answers ends, the thread waits for ever. Callbacks are a parameter as
  well.
\<close>

section \<open>Change lists\<close>

datatype kfilter = EVFILT_READ | EVFILT_WRITE | EVFILT_TIMER | EVFILT_SIGNAL | EVFILT_USER | EVFILT_OTHER

datatype kflag = EV_ADD | EV_DELETE | EV_ENABLE | EV_DISABLE | EV_ONESHOT | EV_CLEAR | EV_DISPATCH | EV_ERROR

record kevent =
  kident :: nat
  kfilter :: kfilter
  kflags :: "kflag set"
  kdata :: nat
  udata :: addr

definition EV_SET :: "nat \<Rightarrow> kfilter \<Rightarrow> kflag set \<Rightarrow> nat \<Rightarrow> addr \<Rightarrow> kevent" where
  "EV_SET ident f fl dat ud = \<lparr>kident = ident, kfilter = f, kflags = fl, kdata = dat, udata = ud\<rparr>"

definition ev_newly_add :: "kflag set" where
  "ev_newly_add = {EV_ADD, EV_DISABLE, EV_CLEAR}"

definition ev_submit :: "kflag set" where
  "ev_submit = {EV_ENABLE, EV_DISPATCH, EV_CLEAR}"

definition register_write :: "addr \<Rightarrow> posixc_event \<Rightarrow> kevent" where
  "register_write e ev = EV_SET (to_u64 (e_fd ev)) EVFILT_WRITE ev_newly_add 0 e"

definition register_read :: "addr \<Rightarrow> posixc_event \<Rightarrow> kevent" where
  "register_read e ev = EV_SET (to_u64 (e_fd ev)) EVFILT_READ ev_newly_add 0 e"

definition register_timer :: "addr \<Rightarrow> posixc_event \<Rightarrow> kevent" where
  "register_timer e ev = EV_SET (to_u64 (e_fd ev)) EVFILT_TIMER ev_newly_add (data_2 ev) e"

definition register_user :: "addr \<Rightarrow> posixc_event \<Rightarrow> kevent" where
  "register_user e ev = EV_SET (to_u64 (e_fd ev)) EVFILT_USER ev_newly_add 0 e"

definition register_sig :: "addr \<Rightarrow> posixc_event \<Rightarrow> kevent" where
  "register_sig e ev = EV_SET (to_u64 (e_fd ev)) EVFILT_SIGNAL ev_newly_add 0 e"

definition del_write :: "addr \<Rightarrow> posixc_event \<Rightarrow> kevent" where
  "del_write e ev = EV_SET (to_u64 (e_fd ev)) EVFILT_WRITE {EV_DELETE} 0 e"

definition del_read :: "addr \<Rightarrow> posixc_event \<Rightarrow> kevent" where
  "del_read e ev = EV_SET (to_u64 (e_fd ev)) EVFILT_READ {EV_DELETE} 0 e"

definition del_timer :: "addr \<Rightarrow> posixc_event \<Rightarrow> kevent" where
  "del_timer e ev = EV_SET (to_u64 (e_fd ev)) EVFILT_TIMER {EV_DELETE} (data_2 ev) e"

definition del_sig :: "addr \<Rightarrow> posixc_event \<Rightarrow> kevent" where
  "del_sig e ev = EV_SET (to_u64 (e_fd ev)) EVFILT_SIGNAL {EV_DELETE} 0 e"

definition del_user :: "addr \<Rightarrow> posixc_event \<Rightarrow> kevent" where
  "del_user e ev = EV_SET (to_u64 (e_fd ev)) EVFILT_USER {EV_DELETE} 0 e"

definition submit_read :: "addr \<Rightarrow> posixc_event \<Rightarrow> kevent" where
  "submit_read e ev = EV_SET (to_u64 (e_fd ev)) EVFILT_READ ev_submit 0 e"

definition submit_write :: "addr \<Rightarrow> posixc_event \<Rightarrow> kevent" where
  "submit_write e ev = EV_SET (to_u64 (e_fd ev)) EVFILT_WRITE ev_submit 0 e"

definition submit_sig :: "addr \<Rightarrow> posixc_event \<Rightarrow> kevent" where
  "submit_sig e ev = EV_SET (to_u64 (e_fd ev)) EVFILT_SIGNAL {EV_ENABLE, EV_CLEAR} 0 e"

definition submit_timer :: "addr \<Rightarrow> posixc_event \<Rightarrow> kevent" where
  "submit_timer e ev =
     (let flag = {EV_ENABLE, EV_CLEAR};
          flag = (if data_1 ev = 1 then insert EV_ONESHOT flag else flag) in
      EV_SET (to_u64 (e_fd ev)) EVFILT_TIMER flag (data_2 ev) e)"

definition submit_user :: "addr \<Rightarrow> posixc_event \<Rightarrow> kevent" where
  "submit_user e ev = EV_SET (to_u64 (e_fd ev)) EVFILT_USER ev_submit 0 e"

lemmas kevent_defs = EV_SET_def ev_newly_add_def ev_submit_def register_write_def register_read_def
  register_timer_def register_user_def register_sig_def del_write_def del_read_def del_timer_def
  del_sig_def del_user_def submit_read_def submit_write_def submit_sig_def submit_timer_def submit_user_def

text \<open>\<open>kevent_set\<close>: the call for a kqueue and a change list.\<close>

type_synonym kcall = "int \<times> kevent list"

definition kq_plat_create :: "int \<Rightarrow> addr \<Rightarrow> posixc_event \<Rightarrow> kcall option" where
  "kq_plat_create rid e ev =
     (if e_type ev = SOCK_EV then Some (rid, [register_read e ev, register_write e ev])
      else if e_type ev = SIG_EV then Some (rid, [register_sig e ev])
      else if e_type ev = USER_EV then Some (rid, [register_user e ev])
      else if e_type ev = TIMER_EV then Some (rid, [register_timer e ev])
      else None)"

definition kq_plat_destroy :: "int \<Rightarrow> addr \<Rightarrow> posixc_event \<Rightarrow> kcall option" where
  "kq_plat_destroy rid e ev =
     (if e_type ev = SOCK_EV then Some (rid, [del_read e ev, del_write e ev])
      else if e_type ev = SIG_EV then Some (rid, [del_sig e ev])
      else if e_type ev = USER_EV then Some (rid, [del_user e ev])
      else if e_type ev = TIMER_EV then Some (rid, [del_timer e ev])
      else None)"

definition kq_plat_submit :: "int \<Rightarrow> addr \<Rightarrow> posixc_event \<Rightarrow> kcall option" where
  "kq_plat_submit rid e ev =
     (let has = (\<lambda>bit. evmask ev AND bit \<noteq> 0);
          evs = (if e_type ev = SOCK_EV then
                   (if has POSIXC_EVENT_IN then [submit_read e ev] else []) @
                   (if has POSIXC_EVENT_OUT then [submit_write e ev] else [])
                 else if e_type ev = SIG_EV then (if has POSIXC_EVENT_SIG then [submit_sig e ev] else [])
                 else if e_type ev = USER_EV then (if has POSIXC_EVENT_USER then [submit_user e ev] else [])
                 else if e_type ev = TIMER_EV then (if has POSIXC_EVENT_TIMER then [submit_timer e ev] else [])
                 else []) in
      if evs = [] then None else Some (rid, evs))"

definition kq_plat :: "kcall plat" where
  "kq_plat = \<lparr>node_off = 120, gc_off = 80, plat_create = kq_plat_create, plat_destroy = kq_plat_destroy,
     plat_submit = kq_plat_submit\<rparr>"

section \<open>The reactor's thread\<close>

type_synonym ('c, 'z) callbacks =
  "nat \<Rightarrow> addr \<Rightarrow> 32 word \<Rightarrow> addr \<Rightarrow> ('c, 'z) rworld_scheme \<Rightarrow> ('c, 'z) rworld_scheme run"

text \<open>The bits of a filter; \<open>None\<close> for a filter the code does not know.\<close>

definition bits_of_filter :: "kfilter \<Rightarrow> 32 word option" where
  "bits_of_filter f = (case f of EVFILT_READ \<Rightarrow> Some POSIXC_EVENT_IN | EVFILT_WRITE \<Rightarrow> Some POSIXC_EVENT_OUT
     | EVFILT_SIGNAL \<Rightarrow> Some POSIXC_EVENT_SIG | EVFILT_TIMER \<Rightarrow> Some 0 | EVFILT_USER \<Rightarrow> Some POSIXC_EVENT_USER
     | EVFILT_OTHER \<Rightarrow> None)"

definition consume_ev ::
    "('c, 'z) callbacks \<Rightarrow> ('c, 'z) rworld_scheme \<Rightarrow> kevent \<Rightarrow> ('c, 'z) rworld_scheme run" where
  "consume_ev cbs w ke =
     (case bits_of_filter (kfilter ke) of None \<Rightarrow> Some (Inr w)
      | Some bits \<Rightarrow>
        (let bits = (if EV_ERROR \<in> kflags ke then bits OR POSIXC_EVENT_ERR else bits) in
         bindR (Some (posixc_event_consume w (udata ke) bits)) (\<lambda>(w, cb, arg).
         case cb of None \<Rightarrow> Some (Inr w) | Some c \<Rightarrow> cbs c (udata ke) bits arg w)))"

fun consume_evs ::
    "('c, 'z) callbacks \<Rightarrow> kevent list \<Rightarrow> ('c, 'z) rworld_scheme \<Rightarrow> ('c, 'z) rworld_scheme run" where
  "consume_evs cbs [] w = Some (Inr w)"
| "consume_evs cbs (ke # kes) w = bindR (consume_ev cbs w ke) (consume_evs cbs kes)"

datatype 'e wait_answer = Ready "'e list" | Wait_EBADF | Wait_Failed

record ('w, 'e) wait =
  others :: "'w \<Rightarrow> 'w"
  answer :: "'e wait_answer"

definition loops_per_gc :: nat where
  "loops_per_gc = 2"

text \<open>The loop, \<open>i\<close> is the \<open>unsigned\<close> counter.\<close>

fun kq_thread_loop :: "'c plat \<Rightarrow> ('c, 'z) callbacks \<Rightarrow> thread_id \<Rightarrow> addr \<Rightarrow> nat \<Rightarrow>
    (('c, 'z) rworld_scheme, kevent) wait list \<Rightarrow> ('c, 'z) rworld_scheme \<Rightarrow> ('c, 'z) rworld_scheme run" where
  "kq_thread_loop pl cbs self r i waits w =
     bindR (Some (get_reactor w r)) (\<lambda>rc.
     if r_closing rc then posixc_reactor_gc pl self w r
     else (case waits of [] \<Rightarrow> None
       | wt # waits \<Rightarrow>
         (let w = others wt w in
          case answer wt of Wait_EBADF \<Rightarrow> Some (Inr w)
          | ans \<Rightarrow>
            bindR (case ans of Ready kes \<Rightarrow> consume_evs cbs kes w | _ \<Rightarrow> Some (Inr w)) (\<lambda>w.
            bindR (if i mod loops_per_gc = 0 then posixc_reactor_gc pl self w r else Some (Inr w)) (\<lambda>w.
            kq_thread_loop pl cbs self r ((i + 1) mod 2 ^ 32) waits w)))))"

definition kq_reactor_plat_threadfn where
  "kq_reactor_plat_threadfn pl cbs self r waits w = kq_thread_loop pl cbs self r 0 waits w"

section \<open>The contract\<close>

definition arm_bits :: "kfilter \<Rightarrow> 32 word" where
  "arm_bits f = (case f of EVFILT_READ \<Rightarrow> POSIXC_EVENT_IN | EVFILT_WRITE \<Rightarrow> POSIXC_EVENT_OUT
     | EVFILT_SIGNAL \<Rightarrow> POSIXC_EVENT_SIG | EVFILT_TIMER \<Rightarrow> POSIXC_EVENT_TIMER
     | EVFILT_USER \<Rightarrow> POSIXC_EVENT_USER | EVFILT_OTHER \<Rightarrow> 0)"

definition kq_armed :: "kcall \<Rightarrow> 32 word" where
  "kq_armed c = foldr (\<lambda>ke m. (if EV_ENABLE \<in> kflags ke then arm_bits (kfilter ke) else 0) OR m) (snd c) 0"

definition kq_supported :: "nat \<Rightarrow> 32 word" where
  "kq_supported ty = (if ty = SOCK_EV then POSIXC_EVENT_IN OR POSIXC_EVENT_OUT
     else if ty = SIG_EV then POSIXC_EVENT_SIG else if ty = USER_EV then POSIXC_EVENT_USER
     else if ty = TIMER_EV then POSIXC_EVENT_TIMER else 0)"

lemma and_single_bit: "b = push_bit n 1 \<Longrightarrow> x AND b = (if x AND b \<noteq> 0 then b else 0)"
  for x b :: "32 word"
proof -
  assume b: "b = push_bit n 1"
  have "x AND b = 0 \<or> x AND b = b"
  proof (cases "bit x n")
    case True
    then have "x AND b = b" unfolding b by (intro bit_word_eqI) (auto simp: bit_simps)
    then show ?thesis by simp
  next
    case False
    then have "x AND b = 0" unfolding b by (intro bit_word_eqI) (auto simp: bit_simps)
    then show ?thesis by simp
  qed
  then show ?thesis by auto
qed

lemma and_event_bit:
  "x AND POSIXC_EVENT_IN = (if x AND POSIXC_EVENT_IN \<noteq> 0 then POSIXC_EVENT_IN else 0)"
  "x AND POSIXC_EVENT_OUT = (if x AND POSIXC_EVENT_OUT \<noteq> 0 then POSIXC_EVENT_OUT else 0)"
  "x AND POSIXC_EVENT_SIG = (if x AND POSIXC_EVENT_SIG \<noteq> 0 then POSIXC_EVENT_SIG else 0)"
  "x AND POSIXC_EVENT_USER = (if x AND POSIXC_EVENT_USER \<noteq> 0 then POSIXC_EVENT_USER else 0)"
  "x AND POSIXC_EVENT_TIMER = (if x AND POSIXC_EVENT_TIMER \<noteq> 0 then POSIXC_EVENT_TIMER else 0)"
  by (rule and_single_bit [of _ 0] and_single_bit [of _ 2] and_single_bit [of _ 10]
      and_single_bit [of _ 3] and_single_bit [of _ 8], simp add: event_bits)+

interpretation kqp: event_platform kq_plat fst kq_armed kq_supported
proof
  fix rid e ev c
  show "fst c = rid \<and> kq_armed c = evmask ev AND kq_supported (e_type ev)"
    if "plat_submit kq_plat rid e ev = Some c"
    using that and_event_bit [of "evmask ev"]
    by (auto simp: kq_plat_def kq_plat_submit_def kq_armed_def kq_supported_def arm_bits_def kevent_defs
        event_types bit.conj_disj_distrib Let_def split: if_splits)
  show "evmask ev AND kq_supported (e_type ev) = 0" if "plat_submit kq_plat rid e ev = None"
    using that
    by (auto simp: kq_plat_def kq_plat_submit_def kq_supported_def event_types bit.conj_disj_distrib
        Let_def split: if_splits)
  show "\<exists>c. plat_create kq_plat rid e ev = Some c \<and> fst c = rid \<and> kq_armed c = 0"
    if "kq_supported (e_type ev) \<noteq> 0"
    using that
    by (auto simp: kq_plat_def kq_plat_create_def kq_armed_def kq_supported_def kevent_defs split: if_splits)
  show "\<exists>c. plat_destroy kq_plat rid e ev = Some c \<and> fst c = rid \<and> kq_armed c = 0"
    if "kq_supported (e_type ev) \<noteq> 0"
    using that
    by (auto simp: kq_plat_def kq_plat_destroy_def kq_armed_def kq_supported_def kevent_defs split: if_splits)
qed

section \<open>The thread keeps the invariant\<close>

text \<open>\<open>thread_inv pl r t w\<close>: the reactor's list is consistent and its thread is \<open>t\<close>. \<open>well_behaved\<close>: what happens
  around one wait keeps that, and the callbacks return.\<close>

definition thread_inv :: "'c plat \<Rightarrow> addr \<Rightarrow> thread_id \<Rightarrow> ('c, 'z) rworld_scheme \<Rightarrow> bool" where
  "thread_inv pl r t w \<longleftrightarrow> (\<exists>es rc. gc_inv pl r w es \<and> reactors w r = Some rc \<and> r_thread rc = t)"

definition well_behaved :: "'c plat \<Rightarrow> addr \<Rightarrow> thread_id \<Rightarrow> ('c, 'z) callbacks \<Rightarrow>
    (('c, 'z) rworld_scheme, kevent) wait \<Rightarrow> bool" where
  "well_behaved pl r t cbs wt \<longleftrightarrow> (\<forall>w. thread_inv pl r t w \<longrightarrow> thread_inv pl r t (others wt w) \<and>
     (\<forall>kes. answer wt = Ready kes \<longrightarrow>
       (\<exists>w'. consume_evs cbs kes (others wt w) = Some (Inr w') \<and> thread_inv pl r t w')))"

declare kq_thread_loop.simps [simp del]

lemma thread_gc:
  assumes "thread_inv pl r t w"
  obtains w' where "posixc_reactor_gc pl t w r = Some (Inr w')" "thread_inv pl r t w'"
    "gc_inv pl r w' []" "reactors w' = reactors w"
proof -
  obtain es rc where "gc_inv pl r w es" "reactors w r = Some rc" "r_thread rc = t"
    using assms by (auto simp: thread_inv_def)
  then show ?thesis using reactor_gc_ok that unfolding thread_inv_def by metis
qed

text \<open>How the loop can end: after a request to close, with the list collected, or at the first wait that the
  kernel answers with \<open>EBADF\<close>, where it leaves the world as it is.\<close>

definition ended_clean :: "'c plat \<Rightarrow> addr \<Rightarrow> ('c, 'z) rworld_scheme \<Rightarrow> bool" where
  "ended_clean pl r w \<longleftrightarrow> gc_inv pl r w [] \<and> (\<exists>rc. reactors w r = Some rc \<and> r_closing rc)"

definition ended_ebadf ::
    "addr \<Rightarrow> (('c, 'z) rworld_scheme, kevent) wait list \<Rightarrow> ('c, 'z) rworld_scheme \<Rightarrow> bool" where
  "ended_ebadf r waits w \<longleftrightarrow> (\<exists>pre wt post v rc. waits = pre @ wt # post \<and> (\<forall>x\<in>set pre. answer x \<noteq> Wait_EBADF) \<and>
     answer wt = Wait_EBADF \<and> reactors v r = Some rc \<and> \<not> r_closing rc \<and> w = others wt v)"

lemma ended_ebadf_Cons: "ended_ebadf r waits w \<Longrightarrow> answer wt \<noteq> Wait_EBADF \<Longrightarrow> ended_ebadf r (wt # waits) w"
  unfolding ended_ebadf_def by (elim exE conjE) (rule exI [of _ "wt # _"], auto)

lemma ended_ebadf_now: "answer wt = Wait_EBADF \<Longrightarrow> reactors v r = Some rc \<Longrightarrow> \<not> r_closing rc \<Longrightarrow>
    ended_ebadf r (wt # waits) (others wt v)"
  unfolding ended_ebadf_def by (rule exI [of _ "[]"]) auto

lemma last_collection:
  assumes "thread_inv pl r t w" "reactors w r = Some rc" "r_closing rc" "posixc_reactor_gc pl t w r = Some res"
  shows "\<exists>w'. res = Inr w' \<and> ended_clean pl r w'"
proof -
  obtain w' where "posixc_reactor_gc pl t w r = Some (Inr w')" "gc_inv pl r w' []" "reactors w' = reactors w"
    using thread_gc [OF assms(1)] by metis
  then show ?thesis using assms(2-4) by (simp add: ended_clean_def)
qed

lemma thread_loop_ends:
  assumes "thread_inv pl r t w" "\<forall>wt\<in>set waits. well_behaved pl r t cbs wt"
    and "kq_thread_loop pl cbs t r i waits w = Some res"
  shows "\<exists>w'. res = Inr w' \<and> (ended_clean pl r w' \<or> ended_ebadf r waits w')"
  using assms
proof (induction waits arbitrary: w i)
  case Nil
  obtain rc where rc: "reactors w r = Some rc" using Nil.prems(1) by (auto simp: thread_inv_def)
  then have "r_closing rc" "posixc_reactor_gc pl t w r = Some res"
    using Nil.prems(3) by (simp_all add: kq_thread_loop.simps split: if_splits)
  then show ?case using last_collection [OF Nil.prems(1) rc] by blast
next
  case (Cons wt waits)
  obtain rc where rc: "reactors w r = Some rc" using Cons.prems(1) by (auto simp: thread_inv_def)
  let ?o = "others wt w"
  consider (closing) "r_closing rc" | (ebadf) "\<not> r_closing rc" "answer wt = Wait_EBADF"
    | (round) "\<not> r_closing rc" "answer wt \<noteq> Wait_EBADF" by blast
  then show ?case
  proof cases
    case closing
    then have "posixc_reactor_gc pl t w r = Some res"
      using Cons.prems(3) rc by (simp add: kq_thread_loop.simps)
    then show ?thesis using last_collection [OF Cons.prems(1) rc closing] by blast
  next
    case ebadf
    then have "res = Inr ?o" using Cons.prems(3) rc by (simp add: kq_thread_loop.simps)
    then show ?thesis using ended_ebadf_now [OF ebadf(2) rc ebadf(1)] by blast
  next
    case round
    have wt: "thread_inv pl r t ?o"
      "\<And>kes. answer wt = Ready kes \<Longrightarrow> \<exists>w'. consume_evs cbs kes ?o = Some (Inr w') \<and> thread_inv pl r t w'"
      using Cons.prems(1,2) by (auto simp: well_behaved_def)
    obtain w1 where w1: "(case answer wt of Ready kes \<Rightarrow> consume_evs cbs kes ?o | _ \<Rightarrow> Some (Inr ?o)) = Some (Inr w1)"
      "thread_inv pl r t w1" using wt round(2) by (cases "answer wt") auto
    obtain w2 where w2: "(if i mod loops_per_gc = 0 then posixc_reactor_gc pl t w1 r else Some (Inr w1)) = Some (Inr w2)"
      "thread_inv pl r t w2" using w1(2) by (cases "i mod loops_per_gc = 0") (auto elim: thread_gc)
    have "kq_thread_loop pl cbs t r i (wt # waits) w = kq_thread_loop pl cbs t r ((i + 1) mod 2 ^ 32) waits w2"
      using rc round w1(1) w2(1)
      by (subst kq_thread_loop.simps) (auto simp: Let_def split: wait_answer.splits)
    then have rest: "kq_thread_loop pl cbs t r ((i + 1) mod 2 ^ 32) waits w2 = Some res" using Cons.prems(3) by simp
    have "\<forall>wt\<in>set waits. well_behaved pl r t cbs wt" using Cons.prems(2) by simp
    from Cons.IH [OF w2(2) this rest] obtain w' where
      "res = Inr w'" "ended_clean pl r w' \<or> ended_ebadf r waits w'" by blast
    then show ?thesis using ended_ebadf_Cons [of r waits w' wt] round(2) by blast
  qed
qed

section \<open>What a program gives the loop\<close>

text \<open>The program that owns the callbacks: \<open>inv\<close> holds between two reports, \<open>good\<close> are the reports that can come, and
  \<open>rel\<close> relates the states before and after what the thread does.\<close>

locale loop_client =
  fixes pl :: "'c plat" and r :: addr and self :: thread_id and cbs :: "('c, 'z) callbacks"
    and inv :: "('c, 'z) rworld_scheme \<Rightarrow> bool" and good :: "kevent \<Rightarrow> bool"
    and rel :: "('c, 'z) rworld_scheme \<Rightarrow> ('c, 'z) rworld_scheme \<Rightarrow> bool"
  assumes report_law: "inv w \<Longrightarrow> good ke \<Longrightarrow> \<exists>w'. consume_ev cbs w ke = Some (Inr w') \<and> inv w' \<and> rel w w'"
    and collect_law: "inv w \<Longrightarrow> \<exists>w'. posixc_reactor_gc pl self w r = Some (Inr w') \<and> inv w' \<and> rel w w'"
    and rel_refl: "rel w w"
    and rel_trans: "rel w w' \<Longrightarrow> rel w' w'' \<Longrightarrow> rel w w''"
begin

lemma batch:
  assumes "inv w" "\<forall>ke \<in> set kes. good ke"
  shows "\<exists>w'. consume_evs cbs kes w = Some (Inr w') \<and> inv w' \<and> rel w w'"
  using assms
proof (induction kes arbitrary: w)
  case Nil
  then show ?case using rel_refl by auto
next
  case (Cons ke kes)
  obtain w1 where w1: "consume_ev cbs w ke = Some (Inr w1)" "inv w1" "rel w w1"
    using report_law [OF Cons.prems(1)] Cons.prems(2) by auto
  obtain w2 where w2: "consume_evs cbs kes w1 = Some (Inr w2)" "inv w2" "rel w1 w2"
    using Cons.IH [OF w1(2)] Cons.prems(2) by auto
  then show ?case using w1 rel_trans [OF w1(3) w2(3)] by auto
qed

text \<open>One iteration of the loop when the reactor is not closing.\<close>

lemma iteration:
  assumes "reactors w r = Some rc" "\<not> r_closing rc" "inv (others wt w)" "answer wt = Ready kes" "\<forall>ke \<in> set kes. good ke"
  shows "\<exists>w'. kq_thread_loop pl cbs self r i (wt # waits) w = kq_thread_loop pl cbs self r ((i + 1) mod 2 ^ 32) waits w' \<and>
    inv w' \<and> rel (others wt w) w'"
proof -
  obtain w1 where w1: "consume_evs cbs kes (others wt w) = Some (Inr w1)" "inv w1" "rel (others wt w) w1"
    using batch [OF assms(3,5)] by blast
  obtain w2 where w2: "(if i mod loops_per_gc = 0 then posixc_reactor_gc pl self w1 r else Some (Inr w1)) = Some (Inr w2)"
    "inv w2" "rel w1 w2" using collect_law [OF w1(2)] w1(2) rel_refl by (cases "i mod loops_per_gc = 0") auto
  have "kq_thread_loop pl cbs self r i (wt # waits) w = kq_thread_loop pl cbs self r ((i + 1) mod 2 ^ 32) waits w2"
    using assms(1,2,4) w1(1) w2(1) by (simp add: kq_thread_loop.simps [of _ _ _ _ i])
  then show ?thesis using w2(2) rel_trans [OF w1(3) w2(3)] by blast
qed

lemma last_iteration:
  assumes "reactors w r = Some rc" "r_closing rc" "inv w"
  shows "\<exists>w'. kq_thread_loop pl cbs self r i waits w = Some (Inr w') \<and> inv w' \<and> rel w w'"
  using collect_law [OF assms(3)] assms(1,2) by (simp add: kq_thread_loop.simps [of _ _ _ _ i])

end

section \<open>Properties\<close>

text \<open>C17: submitting an event with the kqueue platform gives the kernel one change list, for the right
  kqueue, that enables exactly the conditions asked for now or before and not consumed since, as far
  as the event's type has them.\<close>

theorem kq_submit_arms:
  assumes "gc_inv kq_plat r w es" "events w e = Some ev" "\<not> e_closing ev" "reactors w r = Some rc"
    "(evmask ev OR evs) AND kq_supported (e_type ev) \<noteq> 0"
  shows "\<exists>w' ok c. posixc_event_submit kq_plat w e evs = Inr (w', ok) \<and> plat_calls w' = plat_calls w @ [c] \<and>
    fst c = r_id rc \<and> kq_armed c = (evmask ev OR evs) AND kq_supported (e_type ev)"
  using kqp.submit_arms [OF assms] by blast

definition kq_world :: "kcall rworld" where
  "kq_world = \<lparr>events = [100 \<mapsto> demo_event\<lparr>e_closing := False\<rparr>],
     reactors = [1000 \<mapsto> \<lparr>r_mtx = False, r_thread = 7, r_id = 5, r_closing = False\<rparr>],
     lists = [1080 \<mapsto> \<lparr>lnext = 1080, lprev = 1080\<rparr>, 220 \<mapsto> \<lparr>lnext = 220, lprev = 220\<rparr>],
     syscalls = [], plat_calls = [], plat_answer = (\<lambda>n. True)\<rparr>"

lemma kq_world_inv: "gc_inv kq_plat 1000 kq_world []"
proof -
  have "ring (lists kq_world) [1080]" by (simp add: ring_def cyc_def nx_def pv_def kq_world_def)
  then show ?thesis
    by (simp add: gc_own_def event_own_def dlist_def node_of_def kq_world_def demo_event_def kq_plat_def)
qed

theorem kq_submit_arms_witness:
  "\<exists>w' ok c. posixc_event_submit kq_plat kq_world 100 POSIXC_EVENT_IN = Inr (w', ok) \<and>
    plat_calls w' = [c] \<and> fst c = 5 \<and> kq_armed c = POSIXC_EVENT_IN"
proof -
  have "reactors kq_world 1000 = Some \<lparr>r_mtx = False, r_thread = 7, r_id = 5, r_closing = False\<rparr>"
    "events kq_world 100 = Some (demo_event\<lparr>e_closing := False\<rparr>)" "plat_calls kq_world = []"
    by (simp_all add: kq_world_def)
  then show ?thesis
    using kq_submit_arms [OF kq_world_inv, of 100 "demo_event\<lparr>e_closing := False\<rparr>" _ POSIXC_EVENT_IN]
    by (simp add: demo_event_def kq_supported_def event_types event_bits)
qed

text \<open>C20: as long as the other threads and the callbacks are well behaved (they keep the reactor and its list
  consistent, and the callbacks return): when the thread of a kqueue reactor ends, it has either been
  asked to close, and its last collection has left no destroyed event behind, or, before it was asked,
  the kernel has answered a wait with \<open>EBADF\<close>, the first such answer, and the thread has returned from it
  at once, without a collection.\<close>

theorem kq_thread_ends_clean:
  assumes "gc_inv pl r w es" "reactors w r = Some rc"
    and "\<forall>wt\<in>set waits. well_behaved pl r (r_thread rc) cbs wt"
    and "kq_reactor_plat_threadfn pl cbs (r_thread rc) r waits w = Some res"
  shows "\<exists>w'. res = Inr w' \<and>
    ((\<exists>rc'. reactors w' r = Some rc' \<and> r_closing rc') \<and> (\<forall>e ev. events w' e = Some ev \<longrightarrow> \<not> e_closing ev) \<or>
     (\<exists>pre wt post v rcv. waits = pre @ wt # post \<and> (\<forall>x\<in>set pre. answer x \<noteq> Wait_EBADF) \<and>
       answer wt = Wait_EBADF \<and> reactors v r = Some rcv \<and> \<not> r_closing rcv \<and> w' = others wt v))"
proof -
  have "thread_inv pl r (r_thread rc) w" using assms(1,2) by (auto simp: thread_inv_def)
  from thread_loop_ends [OF this assms(3) assms(4) [unfolded kq_reactor_plat_threadfn_def]]
  obtain w' where w': "res = Inr w'" "ended_clean pl r w' \<or> ended_ebadf r waits w'" by blast
  have "\<forall>e ev. events w' e = Some ev \<longrightarrow> \<not> e_closing ev" if "ended_clean pl r w'"
  proof -
    have "event_inv pl r w' []" using that by (simp add: ended_clean_def gc_own_def)
    from queued_iff [OF this] show ?thesis by auto
  qed
  then show ?thesis using w' unfolding ended_clean_def ended_ebadf_def by blast
qed

text \<open>Another thread asks the reactor at address 1000 to close while it waits.\<close>

definition shut :: "unit rworld \<Rightarrow> unit rworld" where
  "shut w = w\<lparr>reactors := (reactors w)(1000 := map_option (\<lambda>rc. rc\<lparr>r_closing := True\<rparr>) (reactors w 1000))\<rparr>"

lemma shut_inv: "thread_inv demo_plat 1000 7 w \<Longrightarrow> thread_inv demo_plat 1000 7 (shut w)"
  unfolding thread_inv_def gc_own_def event_own_def shut_def by fastforce

theorem kq_thread_ends_clean_witness:
  "\<exists>w'. kq_reactor_plat_threadfn demo_plat (\<lambda>c e b a w. Some (Inr w)) 7 1000
      [\<lparr>others = shut, answer = Ready []\<rparr>] demo_queued = Some (Inr w') \<and>
    (\<forall>e ev. events w' e = Some ev \<longrightarrow> \<not> e_closing ev)"
proof -
  let ?cbs = "\<lambda>c e b a (w :: unit rworld). Some (Inr w)"
  let ?wt = "\<lparr>others = shut, answer = Ready ([] :: kevent list)\<rparr>"
  have rc: "reactors demo_queued 1000 = Some \<lparr>r_mtx = False, r_thread = 7, r_id = 5, r_closing = False\<rparr>"
    by (simp add: demo_defs)
  have "thread_inv demo_plat 1000 7 demo_queued"
    unfolding thread_inv_def using demo_inv rc by (intro exI conjI) (assumption, assumption, simp)
  then have "thread_inv demo_plat 1000 7 (shut demo_queued)" by (rule shut_inv)
  then obtain w1 where w1: "posixc_reactor_gc demo_plat 7 (shut demo_queued) 1000 = Some (Inr w1)"
    "thread_inv demo_plat 1000 7 w1" "reactors w1 = reactors (shut demo_queued)" by (rule thread_gc)
  obtain w2 where w2: "posixc_reactor_gc demo_plat 7 w1 1000 = Some (Inr w2)" using w1(2) by (rule thread_gc)
  have "reactors w1 1000 = Some \<lparr>r_mtx = False, r_thread = 7, r_id = 5, r_closing = True\<rparr>"
    using w1(3) rc by (simp add: shut_def)
  then have run: "kq_reactor_plat_threadfn demo_plat ?cbs 7 1000 [?wt] demo_queued = Some (Inr w2)"
    using rc w1(1) w2
    by (simp add: kq_reactor_plat_threadfn_def kq_thread_loop.simps [of _ _ _ _ 0]
        kq_thread_loop.simps [of _ _ _ _ "Suc 0"])
  have "well_behaved demo_plat 1000 7 ?cbs ?wt" by (simp add: well_behaved_def shut_inv)
  then show ?thesis using kq_thread_ends_clean [OF demo_inv rc, of "[?wt]" ?cbs "Inr w2"] run
    by (auto simp: Cons_eq_append_conv)
qed

text \<open>When the kqueue was closed first, the thread ends and the queued event stays.\<close>

lemma kq_thread_ebadf_leaves:
  "kq_reactor_plat_threadfn demo_plat (\<lambda>c e b a w. Some (Inr w)) 7 1000 [\<lparr>others = id, answer = Wait_EBADF\<rparr>]
     demo_queued = Some (Inr demo_queued) \<and> (\<exists>ev. events demo_queued 100 = Some ev \<and> e_closing ev)"
  by (simp add: kq_reactor_plat_threadfn_def kq_thread_loop.simps get_reactor_def) (simp add: demo_defs)

end
