(* ===== verification/Threads.thy ===== *)
theory Threads
  imports Kqueue
begin

text \<open>
  The threads of a program that uses one reactor, interleaved. Where the other theories run a function
  of \<open>event.c\<close> as one step, here \<open>posixc_event_destroy\<close>, \<open>posixc_event_submit\<close> and the loop of the reactor's thread
  (\<open>posixc_reactor_plat_threadfn\<close> of \<open>mac/reactor_kq.c\<close>) are sequences of steps, between which every other thread
  may run. A step is one statement that reads or writes shared memory, or a section under a mutex,
  which other threads cannot observe in the middle: \<open>add_to_gc_list\<close>, \<open>posixc_reactor_gc\<close>, \<open>posixc_event_consume\<close>, and
  \<open>submit_locked\<close>.

  The kernel is the set of the events that are registered with it: creation adds an event, \<open>Destroy_Plat\<close>
  removes it, and a wait reports registered events only.
\<close>

section \<open>Locations\<close>

text \<open>Where a call returns to: a user thread to its program, the reactor's thread to the callback, with
  the counter of its loop and the rest of the reports.\<close>

datatype after = Return | Callback nat "(addr \<times> 32 word) list"

text \<open>The flag is the local variable \<open>is_reactor\<close>.\<close>

datatype location =
    Idle
  | Destroy_Enter addr after
  | Destroy_Test addr bool after
  | Destroy_Mark addr bool after
  | Destroy_Plat addr bool after
  | Destroy_Shutdown addr bool after
  | Destroy_Queue addr after
  | Destroy_Release addr after
  | Submit_Test addr "32 word" after
  | Submit_Locked addr "32 word" after
  | Loop_Check nat
  | Loop_Wait nat
  | Loop_Batch nat "(addr \<times> 32 word) list"
  | In_Callback nat "(addr \<times> 32 word) list"
  | Loop_Gc nat
  | Last_Gc
  | Ended

record 'c cworld = "'c rworld" +
  registered :: "addr set"
  at :: "thread_id \<Rightarrow> location"

fun resume :: "after \<Rightarrow> location" where
  "resume Return = Idle"
| "resume (Callback i ks) = In_Callback i ks"

section \<open>Steps\<close>

text \<open>The step of thread \<open>self\<close> at a location: the new memory and location, or an error. \<open>None\<close>: the thread
  has no step of its own.\<close>

fun destroy_step :: "'c plat \<Rightarrow> thread_id \<Rightarrow> location \<Rightarrow> 'c cworld \<Rightarrow> ('c cworld \<times> location) run" where
  "destroy_step pl self (Destroy_Enter e k) w = Some (
     bindE (get_event w e) (\<lambda>ev. bindE (get_reactor w (e_reactor ev)) (\<lambda>rc.
     Inr (w, Destroy_Test e (self = r_thread rc) k))))"
| "destroy_step pl self (Destroy_Test e is_reactor k) w = Some (
     bindE (get_event w e) (\<lambda>ev.
     Inr (w, if \<not> e_closing ev then Destroy_Mark e is_reactor k
             else if is_reactor then Destroy_Release e k else resume k)))"
| "destroy_step pl self (Destroy_Mark e is_reactor k) w = Some (
     bindE (get_event w e) (\<lambda>ev.
     Inr (put_event w e (ev\<lparr>e_closing := True\<rparr>), Destroy_Plat e is_reactor k)))"
| "destroy_step pl self (Destroy_Plat e is_reactor k) w = Some (
     bindE (get_event w e) (\<lambda>ev. bindE (get_reactor w (e_reactor ev)) (\<lambda>rc.
     let (w, ok) = call_kernel w (plat_destroy pl (r_id rc) e ev) in
     Inr (w\<lparr>registered := registered w - {e}\<rparr>, Destroy_Shutdown e is_reactor k))))"
| "destroy_step pl self (Destroy_Shutdown e is_reactor k) w = Some (
     bindE (get_event w e) (\<lambda>ev.
     Inr (log_sys w [Shutdown (e_fd ev)], if \<not> is_reactor then Destroy_Queue e k else Destroy_Release e k)))"
| "destroy_step pl self (Destroy_Queue e k) w = Some (bindE (add_to_gc_list pl w e) (\<lambda>w. Inr (w, resume k)))"
| "destroy_step pl self (Destroy_Release e k) w = Some (bindE (posixc_event_release pl w e) (\<lambda>w. Inr (w, resume k)))"
| "destroy_step pl self _ w = None"

fun submit_step :: "'c plat \<Rightarrow> location \<Rightarrow> 'c cworld \<Rightarrow> ('c cworld \<times> location) run" where
  "submit_step pl (Submit_Test e evs k) w = Some (
     bindE (get_event w e) (\<lambda>ev. Inr (w, if e_closing ev then resume k else Submit_Locked e evs k)))"
| "submit_step pl (Submit_Locked e evs k) w = Some (
     bindE (submit_locked pl w e evs) (\<lambda>(w, ok). Inr (w, resume k)))"
| "submit_step pl _ w = None"

text \<open>The reactor's thread. A report for an event whose callback is not \<open>NULL\<close> enters the callback, and the
  callback returns.\<close>

fun loop_step :: "'c plat \<Rightarrow> thread_id \<Rightarrow> addr \<Rightarrow> location \<Rightarrow> 'c cworld \<Rightarrow> ('c cworld \<times> location) run" where
  "loop_step pl self r (Loop_Check i) w = Some (
     bindE (get_reactor w r) (\<lambda>rc. Inr (w, if r_closing rc then Last_Gc else Loop_Wait i)))"
| "loop_step pl self r (Loop_Batch i []) w =
     Some (Inr (w, if i mod loops_per_gc = 0 then Loop_Gc i else Loop_Check ((i + 1) mod 2 ^ 32)))"
| "loop_step pl self r (Loop_Batch i ((e, bits) # ks)) w = Some (
     bindE (posixc_event_consume w e bits) (\<lambda>(w, cb, arg).
     Inr (w, if cb = None then Loop_Batch i ks else In_Callback i ks)))"
| "loop_step pl self r (In_Callback i ks) w = Some (Inr (w, Loop_Batch i ks))"
| "loop_step pl self r (Loop_Gc i) w =
     bindR (posixc_reactor_gc pl self w r) (\<lambda>w. Some (Inr (w, Loop_Check ((i + 1) mod 2 ^ 32))))"
| "loop_step pl self r Last_Gc w = bindR (posixc_reactor_gc pl self w r) (\<lambda>w. Some (Inr (w, Ended)))"
| "loop_step pl self r _ w = None"

definition thread_step :: "'c plat \<Rightarrow> addr \<Rightarrow> thread_id \<Rightarrow> 'c cworld \<Rightarrow> ('c cworld \<times> location) run" where
  "thread_step pl r t w =
     (case destroy_step pl t (at w t) w of Some res \<Rightarrow> Some res
      | None \<Rightarrow> (case submit_step pl (at w t) w of Some res \<Rightarrow> Some res
        | None \<Rightarrow> loop_step pl t r (at w t) w))"

section \<open>The program\<close>

text \<open>The event of the call a thread is in, of a \<open>posixc_event_destroy\<close> it is in, and of one that has set the flag;
  the event that it has removed from the kernel; and the reports that it has still to look at.\<close>

fun uses :: "location \<Rightarrow> addr option" where
  "uses (Destroy_Enter e k) = Some e"
| "uses (Destroy_Test e b k) = Some e"
| "uses (Destroy_Mark e b k) = Some e"
| "uses (Destroy_Plat e b k) = Some e"
| "uses (Destroy_Shutdown e b k) = Some e"
| "uses (Destroy_Queue e k) = Some e"
| "uses (Destroy_Release e k) = Some e"
| "uses (Submit_Test e m k) = Some e"
| "uses (Submit_Locked e m k) = Some e"
| "uses _ = None"

fun destroys :: "location \<Rightarrow> addr option" where
  "destroys (Submit_Test e m k) = None"
| "destroys (Submit_Locked e m k) = None"
| "destroys p = uses p"

fun marked :: "location \<Rightarrow> addr option" where
  "marked (Destroy_Plat e b k) = Some e"
| "marked (Destroy_Shutdown e b k) = Some e"
| "marked (Destroy_Queue e k) = Some e"
| "marked (Destroy_Release e k) = Some e"
| "marked _ = None"

fun unregistered :: "location \<Rightarrow> addr option" where
  "unregistered (Destroy_Plat e b k) = None"
| "unregistered p = marked p"

fun rest :: "after \<Rightarrow> addr set" where
  "rest Return = {}"
| "rest (Callback i ks) = fst ` set ks"

fun pending :: "location \<Rightarrow> addr set" where
  "pending (Destroy_Enter e k) = rest k"
| "pending (Destroy_Test e b k) = rest k"
| "pending (Destroy_Mark e b k) = rest k"
| "pending (Destroy_Plat e b k) = rest k"
| "pending (Destroy_Shutdown e b k) = rest k"
| "pending (Destroy_Queue e k) = rest k"
| "pending (Destroy_Release e k) = rest k"
| "pending (Submit_Test e m k) = rest k"
| "pending (Submit_Locked e m k) = rest k"
| "pending (Loop_Batch i ks) = fst ` set ks"
| "pending (In_Callback i ks) = fst ` set ks"
| "pending _ = {}"

text \<open>What a program has to observe: an event that is passed is allocated and open; no thread destroys an
  event while another uses it.\<close>

definition may_submit :: "'c cworld \<Rightarrow> addr \<Rightarrow> bool" where
  "may_submit w e \<longleftrightarrow> (\<exists>ev. events w e = Some ev \<and> \<not> e_closing ev) \<and> (\<forall>t. destroys (at w t) \<noteq> Some e)"

definition may_destroy :: "'c cworld \<Rightarrow> addr \<Rightarrow> bool" where
  "may_destroy w e \<longleftrightarrow> (\<exists>ev. events w e = Some ev \<and> \<not> e_closing ev) \<and> (\<forall>t. uses (at w t) \<noteq> Some e)"

definition move :: "'c cworld \<Rightarrow> thread_id \<Rightarrow> location \<Rightarrow> 'c cworld" where
  "move w t p = w\<lparr>at := (at w)(t := p)\<rparr>"

text \<open>Where a call would return to, when the thread is in code of the program.\<close>

fun caller :: "location \<Rightarrow> after option" where
  "caller Idle = Some Return"
| "caller (In_Callback i ks) = Some (Callback i ks)"
| "caller _ = None"

text \<open>The steps of a program with the reactor \<open>r\<close>, whose thread is \<open>t0\<close>. A user thread or a callback creates an
  event, sets the interval of one, or starts a call; a callback must not destroy an event with a report it has not yet seen. A
  thread inside a call or in the loop continues. The kernel reports, or its descriptor is closed. A thread asks the
  reactor to close. The label of a creation is the descriptor it is passed, with whether \<open>malloc\<close> had memory for the
  event; the other steps have none.\<close>

inductive lstep :: "'c plat \<Rightarrow> addr \<Rightarrow> thread_id \<Rightarrow> 'c cworld \<Rightarrow> (int \<times> bool) list \<Rightarrow> 'c cworld \<Rightarrow> bool" for pl r t0 where
  create: "caller (at w t) = Some k \<Longrightarrow> events w e = None \<Longrightarrow> node_of pl e \<notin> dom (lists w) \<Longrightarrow>
    posixc_event_create pl w (Some e) r fd cb arg ty = Inr (w', res) \<Longrightarrow>
    lstep pl r t0 w [(fd, True)] (w'\<lparr>registered := (if res = None then registered w' else insert e (registered w'))\<rparr>)"
| no_memory: "caller (at w t) = Some k \<Longrightarrow> posixc_event_create pl w None r fd cb arg ty = Inr (w', res) \<Longrightarrow>
    lstep pl r t0 w [(fd, False)] w'"
| destroy: "caller (at w t) = Some k \<Longrightarrow> may_destroy w e \<Longrightarrow> e \<notin> rest k \<Longrightarrow>
    lstep pl r t0 w [] (move w t (Destroy_Enter e k))"
| submit: "caller (at w t) = Some k \<Longrightarrow> may_submit w e \<Longrightarrow> lstep pl r t0 w [] (move w t (Submit_Test e evs k))"
| set_interval: "caller (at w t) = Some k \<Longrightarrow> may_submit w e \<Longrightarrow>
    posixc_timer_event_set_interval w e ms is_periodic = Inr w' \<Longrightarrow> lstep pl r t0 w [] w'"
| continue: "thread_step pl r t w = Some (Inr (w', p)) \<Longrightarrow> lstep pl r t0 w [] (move w' t p)"
| wait: "at w t0 = Loop_Wait i \<Longrightarrow> fst ` set ks \<subseteq> registered w \<Longrightarrow> lstep pl r t0 w [] (move w t0 (Loop_Batch i ks))"
| badfd: "at w t0 = Loop_Wait i \<Longrightarrow> lstep pl r t0 w [] (move w t0 Ended)"
| close: "reactors w r = Some rc \<Longrightarrow>
    lstep pl r t0 w [] (w\<lparr>reactors := (reactors w)(r \<mapsto> rc\<lparr>r_closing := True\<rparr>)\<rparr>)"

definition cstep :: "'c plat \<Rightarrow> addr \<Rightarrow> thread_id \<Rightarrow> 'c cworld \<Rightarrow> 'c cworld \<Rightarrow> bool" where
  "cstep pl r t0 w w' \<longleftrightarrow> (\<exists>hs. lstep pl r t0 w hs w')"

lemma cstepI: "lstep pl r t0 w hs w' \<Longrightarrow> cstep pl r t0 w w'"
  by (auto simp: cstep_def)

lemma create_no_memory: "posixc_event_create pl w None r fd cb arg ty = Inr (w', res) \<Longrightarrow> w' = w \<and> res = None"
  by (simp add: posixc_event_create_def)

section \<open>The invariant\<close>

fun user_after :: "after \<Rightarrow> bool" where
  "user_after Return = True"
| "user_after (Callback i ks) = False"

text \<open>The locations of a user thread (\<open>u\<close>) and of the reactor's thread (\<open>\<not> u\<close>).\<close>

fun side :: "bool \<Rightarrow> location \<Rightarrow> bool" where
  "side u Idle = u"
| "side u (Destroy_Enter e k) = (user_after k = u)"
| "side u (Destroy_Test e b k) = (user_after k = u \<and> b \<noteq> u)"
| "side u (Destroy_Mark e b k) = (user_after k = u \<and> b \<noteq> u)"
| "side u (Destroy_Plat e b k) = (user_after k = u \<and> b \<noteq> u)"
| "side u (Destroy_Shutdown e b k) = (user_after k = u \<and> b \<noteq> u)"
| "side u (Destroy_Queue e k) = (user_after k = u \<and> u)"
| "side u (Destroy_Release e k) = (user_after k = u \<and> \<not> u)"
| "side u (Submit_Test e m k) = (user_after k = u)"
| "side u (Submit_Locked e m k) = (user_after k = u)"
| "side u _ = (\<not> u)"

text \<open>A thread at a location, when \<open>D\<close> are the allocated events, \<open>R\<close> the registered ones, and \<open>es\<close> those in the list of
  the reactor.\<close>

definition location_ok :: "addr set \<Rightarrow> addr set \<Rightarrow> addr list \<Rightarrow> bool \<Rightarrow> location \<Rightarrow> bool" where
  "location_ok D R es u p \<longleftrightarrow> side u p \<and> pending p \<subseteq> D \<and>
     (\<forall>e. uses p = Some e \<longrightarrow> e \<in> D \<and> e \<notin> set es) \<and> (\<forall>e. destroys p = Some e \<longrightarrow> e \<notin> pending p) \<and>
     (\<forall>e. unregistered p = Some e \<longrightarrow> e \<notin> R)"

definition exclusive :: "(thread_id \<Rightarrow> location) \<Rightarrow> bool" where
  "exclusive A \<longleftrightarrow> (\<forall>t t' e. destroys (A t) = Some e \<longrightarrow> uses (A t') = Some e \<longrightarrow> t = t')"

definition marks :: "(thread_id \<Rightarrow> location) \<Rightarrow> addr set" where
  "marks A = {e. \<exists>t. marked (A t) = Some e}"

definition threads_ok :: "thread_id \<Rightarrow> addr set \<Rightarrow> addr set \<Rightarrow> addr list \<Rightarrow> (thread_id \<Rightarrow> location) \<Rightarrow> bool" where
  "threads_ok t0 D R es A \<longleftrightarrow> R \<subseteq> D - set es \<and> (\<forall>t. location_ok D R es (t \<noteq> t0) (A t)) \<and> exclusive A"

definition conc_inv :: "'c plat \<Rightarrow> addr \<Rightarrow> thread_id \<Rightarrow> 'c cworld \<Rightarrow> addr list \<Rightarrow> bool" where
  "conc_inv pl r t0 w es \<longleftrightarrow> gc_own pl r (marks (at w)) w es \<and> (\<exists>rc. reactors w r = Some rc \<and> r_thread rc = t0) \<and>
     threads_ok t0 (dom (events w)) (registered w) es (at w)"

subsection \<open>Locations change\<close>

lemma marked_destroys: "marked p = Some e \<Longrightarrow> destroys p = Some e"
  by (cases p) auto

lemma destroys_uses: "destroys p = Some e \<Longrightarrow> uses p = Some e"
  by (cases p) auto

lemma exclusiveD: "exclusive A \<Longrightarrow> destroys (A t) = Some e \<Longrightarrow> uses (A t') = Some e \<Longrightarrow> t = t'"
  unfolding exclusive_def by blast

lemma marks_iff: "e \<in> marks (A(t := p)) \<longleftrightarrow> marked p = Some e \<or> (\<exists>t'. t' \<noteq> t \<and> marked (A t') = Some e)"
  unfolding marks_def fun_upd_apply by (simp split: if_split) metis

lemma marks_same: "marked p = marked (A t) \<Longrightarrow> marks (A(t := p)) = marks A"
  using marks_iff [of _ A t p] marks_iff [of _ A t "A t"] by auto

lemma marks_set: "marked p = Some e \<Longrightarrow> marked (A t) = None \<Longrightarrow> marks (A(t := p)) = insert e (marks A)"
  using marks_iff [of _ A t p] marks_iff [of _ A t "A t"] by auto

lemma marks_clear:
  assumes "exclusive A" "marked (A t) = Some e" "marked p = None"
  shows "marks (A(t := p)) = marks A - {e}"
proof -
  have "t' = t" if "marked (A t') = Some e" for t'
    using exclusiveD [OF assms(1) marked_destroys [OF assms(2)] destroys_uses [OF marked_destroys [OF that]]] ..
  then have no: "\<not> (\<exists>t'. t' \<noteq> t \<and> marked (A t') = Some e)" by metis
  have "x \<in> marks (A(t := p)) \<longleftrightarrow> x \<in> marks A - {e}" for x
    using marks_iff [of x A t p] marks_iff [of x A t "A t"] no assms(2,3) by (cases "x = e") simp_all
  then show ?thesis by blast
qed

lemma uses_resume [simp]: "uses (resume k) = None" "destroys (resume k) = None" "marked (resume k) = None"
  "unregistered (resume k) = None" "pending (resume k) = rest k" "side u (resume k) = (user_after k = u)"
  by (cases k; auto)+

text \<open>A step inside a call: the thread still uses the same event, or none.\<close>

lemma exclusive_move:
  assumes "exclusive A" "uses p = None \<or> uses p = uses (A t)" "destroys p = None \<or> destroys p = destroys (A t)"
  shows "exclusive (A(t := p))"
  unfolding exclusive_def
proof (intro allI impI)
  fix x y e assume "destroys ((A(t := p)) x) = Some e" "uses ((A(t := p)) y) = Some e"
  then have "destroys (A x) = Some e" "uses (A y) = Some e" using assms(2,3) by (auto split: if_splits)
  then show "x = y" by (rule exclusiveD [OF assms(1)])
qed

lemma threads_move:
  assumes "threads_ok t0 D R es A" "location_ok D R es (t \<noteq> t0) p"
    and "uses p = None \<or> uses p = uses (A t)" "destroys p = None \<or> destroys p = destroys (A t)"
  shows "threads_ok t0 D R es (A(t := p))"
  using assms exclusive_move unfolding threads_ok_def by (auto split: if_splits)

lemma threads_okD:
  assumes "threads_ok t0 D R es A"
  shows "R \<subseteq> D - set es" "location_ok D R es (t \<noteq> t0) (A t)" "exclusive A"
  using assms by (auto simp: threads_ok_def)

lemma pending_user: "side True p \<Longrightarrow> pending p = {}"
proof -
  have "user_after k \<Longrightarrow> rest k = {}" for k by (cases k) auto
  then show "side True p \<Longrightarrow> pending p = {}" by (cases p) auto
qed

text \<open>What the steps do to the sets: the kernel forgets events; an event enters the list; an event is
  released; the list is emptied.\<close>

lemma threads_shrink: "threads_ok t0 D R es A \<Longrightarrow> R' \<subseteq> R \<Longrightarrow> threads_ok t0 D R' es A"
  unfolding threads_ok_def location_ok_def by blast

lemma threads_sets:
  assumes ok: "threads_ok t0 D R es B" and e: "\<And>x. uses (B x) \<noteq> Some e" "e \<notin> R"
  shows "threads_ok t0 D R (es @ [e]) B"
    and "(\<And>x. e \<notin> pending (B x)) \<Longrightarrow> threads_ok t0 (D - {e}) R es B"
  using assms unfolding threads_ok_def location_ok_def by auto

lemma threads_queue:
  assumes ok: "threads_ok t0 D R es A" and t: "destroys (A t) = Some e" "unregistered (A t) = Some e"
    and p: "uses p = None" "location_ok D R es (t \<noteq> t0) p"
  shows "threads_ok t0 D R (es @ [e]) (A(t := p))"
proof -
  have "destroys p = None" using p(1) destroys_uses [of p] by (cases "destroys p") auto
  then have ok': "threads_ok t0 D R es (A(t := p))" using threads_move [OF ok p(2)] p(1) by simp
  have "uses ((A(t := p)) x) \<noteq> Some e" for x
    using exclusiveD [OF threads_okD(3) [OF ok] t(1), of x] p(1) by auto
  moreover have "e \<notin> R" using threads_okD(2) [OF ok, of t] t(2) by (simp add: location_ok_def)
  ultimately show ?thesis by (rule threads_sets(1) [OF ok'])
qed

lemma threads_release:
  assumes ok: "threads_ok t0 D R es A" and t: "destroys (A t0) = Some e" "unregistered (A t0) = Some e"
    and p: "uses p = None" "pending p = pending (A t0)" "location_ok D R es False p"
  shows "threads_ok t0 (D - {e}) R es (A(t0 := p))"
proof -
  note at = threads_okD(2) [OF ok, unfolded location_ok_def]
  have d: "destroys p = None" using p(1) destroys_uses [of p] by (cases "destroys p") auto
  then have ok': "threads_ok t0 D R es (A(t0 := p))" using threads_move [OF ok, of t0 p] p(1,3) by simp
  have us: "uses ((A(t0 := p)) x) \<noteq> Some e" for x
    using exclusiveD [OF threads_okD(3) [OF ok] t(1), of x] p(1) by auto
  have pe: "e \<notin> pending ((A(t0 := p)) x)" for x
    using pending_user [of "A x"] at [of x] at [of t0] t(1) p(2) by (cases "x = t0") auto
  have "e \<notin> R" using at [of t0] t(2) by simp
  show ?thesis by (rule threads_sets(2) [OF ok' us \<open>e \<notin> R\<close> pe])
qed

lemma threads_gc:
  assumes ok: "threads_ok t0 D R es A" and t: "pending (A t0) = {}"
  shows "threads_ok t0 (D - set es) R [] A"
proof -
  note at = threads_okD(2) [OF ok, unfolded location_ok_def]
  have "pending (A x) = {}" for x using pending_user [of "A x"] at [of x] t by (cases "x = t0") auto
  then show ?thesis using ok unfolding threads_ok_def location_ok_def by auto
qed

text \<open>A thread starts a call.\<close>

lemma threads_call:
  assumes ok: "threads_ok t0 D R es A" and p: "location_ok D R es (t \<noteq> t0) p" "uses p = Some e"
    and free: "if destroys p = None then \<forall>x. destroys (A x) \<noteq> Some e else \<forall>x. uses (A x) \<noteq> Some e"
  shows "threads_ok t0 D R es (A(t := p))"
proof -
  have d: "destroys p = None \<or> destroys p = Some e" using p(2) destroys_uses [of p] by (cases "destroys p") auto
  have "exclusive (A(t := p))" unfolding exclusive_def
  proof (intro allI impI)
    fix x y f assume f: "destroys ((A(t := p)) x) = Some f" "uses ((A(t := p)) y) = Some f"
    show "x = y"
    proof (cases "x = t \<or> y = t")
      case True
      then show ?thesis using f d p(2) free destroys_uses [of "A x" f] by (auto split: if_splits)
    next
      case False
      then show ?thesis using f exclusiveD [OF threads_okD(3) [OF ok]] by simp
    qed
  qed
  then show ?thesis using ok p(1) unfolding threads_ok_def by auto
qed

subsection \<open>Memory changes\<close>

lemma conc_frame:
  fixes w w' :: "'c cworld"
  assumes "rworld.more w' = rworld.more w"
  shows "registered w' = registered w" "at w' = at w"
  using assms by (cases w; cases w'; simp)+

lemma move_simps [simp]:
  "events (move w t p) = events w" "reactors (move w t p) = reactors w" "lists (move w t p) = lists w"
  "registered (move w t p) = registered w" "at (move w t p) = (at w)(t := p)"
  by (simp_all add: move_def)

lemma gc_own_conc [simp]:
  fixes w :: "'c cworld"
  shows "gc_own pl r X (move w t p) es \<longleftrightarrow> gc_own pl r X w es"
    and "gc_own pl r X (w\<lparr>registered := R\<rparr>) es \<longleftrightarrow> gc_own pl r X w es"
  by (simp_all add: gc_own_def event_own_def)

lemma gc_own_frame:
  assumes "gc_own pl r X w es" "events w' = events w" "reactors w' = reactors w" "lists w' = lists w"
  shows "gc_own pl r X w' es"
  using assms unfolding gc_own_def event_own_def by simp

lemma conc_moveI:
  assumes "gc_own pl r (marks ((at w)(t := p))) w es" "reactors w r = Some rc" "r_thread rc = t0"
    and "threads_ok t0 (dom (events w)) (registered w) es ((at w)(t := p))"
  shows "conc_inv pl r t0 (move w t p) es"
  using assms by (simp add: conc_inv_def)

lemma conc_invE:
  assumes "conc_inv pl r t0 w es"
  obtains rc where "gc_own pl r (marks (at w)) w es" "reactors w r = Some rc" "r_thread rc = t0"
    "threads_ok t0 (dom (events w)) (registered w) es (at w)"
  using assms by (auto simp: conc_inv_def)

text \<open>The event of a call is allocated; until its thread has marked it, it is open.\<close>

lemma call_event:
  assumes "conc_inv pl r t0 w es" "uses (at w t) = Some e"
  obtains ev where "events w e = Some ev" "e_reactor ev = r" "e \<notin> set es"
    "marked (at w t) \<noteq> Some e \<Longrightarrow> \<not> e_closing ev"
proof -
  obtain rc where inv: "gc_own pl r (marks (at w)) w es" "threads_ok t0 (dom (events w)) (registered w) es (at w)"
    using assms(1) by (rule conc_invE)
  have loc: "e \<in> dom (events w)" "e \<notin> set es"
    using threads_okD(2) [OF inv(2), of t] assms(2) by (auto simp: location_ok_def)
  then obtain ev where ev: "events w e = Some ev" by auto
  have "event_own pl r (marks (at w)) w es" using inv(1) by (simp add: gc_own_def)
  note own = event_invD [OF this ev]
  have "marked (at w t) = Some e" if m: "e \<in> marks (at w)"
  proof -
    obtain x where x: "marked (at w x) = Some e" using m by (auto simp: marks_def)
    then have "x = t" using exclusiveD [OF threads_okD(3) [OF inv(2)] marked_destroys assms(2)] by simp
    then show ?thesis using x by simp
  qed
  then show ?thesis using that [OF ev own(1) loc(2)] own(3) loc(2) by blast
qed

lemma mark_own:
  assumes "gc_own pl r X w es" "events w e = Some ev"
  shows "gc_own pl r (insert e X) (put_event w e (ev\<lparr>e_closing := True\<rparr>)) es"
  using assms unfolding gc_own_def event_own_def by auto

lemma queue_own:
  assumes inv: "gc_own pl r X w es" and e: "events w e = Some ev" "e \<notin> set es" "e \<in> X"
  obtains h where "add_to_gc_list pl w e = Inr (w\<lparr>lists := h\<rparr>)"
    "gc_own pl r (X - {e}) (w\<lparr>lists := h\<rparr>) (es @ [e])"
proof -
  obtain rc where rc: "reactors w r = Some rc" "\<not> r_mtx rc"
    "dlist (lists w) (r + gc_off pl) (map (node_of pl) es)" "event_own pl r X w es"
    using inv by (rule gc_invE)
  note ev = event_invD [OF rc(4) e(1)]
  obtain h where h: "add_to_gc_list pl w e = Inr (w\<lparr>lists := h\<rparr>)"
    "dlist h (r + gc_off pl) (map (node_of pl) (es @ [e]))" "dom h = dom (lists w)"
    using add_to_gc_list_ok [of w e ev rc pl es] e rc ev by auto
  have "event_own pl r (X - {e}) (w\<lparr>lists := h\<rparr>) (es @ [e])"
    using rc(4) e h(3) unfolding event_own_def by auto
  then show ?thesis using that h(1,2) rc(1,2) by (simp add: gc_own_def)
qed

lemma release_own:
  assumes inv: "gc_own pl r X w es" and e: "events w e = Some ev" "e \<notin> set es"
  obtains w' where "posixc_event_release pl w e = Inr w'" "gc_own pl r (X - {e}) w' es"
    "events w' = (events w)(e := None)" "reactors w' = reactors w" "rworld.more w' = rworld.more w"
proof -
  let ?w = "w\<lparr>syscalls := syscalls w @ [Close (e_fd ev)], events := (events w)(e := None),
    lists := (lists w)(e + node_off pl := None)\<rparr>"
  obtain rc where rc: "reactors w r = Some rc" "\<not> r_mtx rc"
    "dlist (lists w) (r + gc_off pl) (map (node_of pl) es)" "event_own pl r X w es"
    using inv by (rule gc_invE)
  have "event_own pl r (X - {e}) ?w es" using event_inv_remove [OF rc(4) e(2)] unfolding event_own_def by auto
  then have "gc_own pl r (X - {e}) ?w es"
    using dlist_remove [OF rc(3) e(2) event_invD(5) [OF rc(4) e(1)]] rc(1,2) by (simp add: gc_own_def)
  then show ?thesis using that [of ?w] release_ok [OF e(1)] by simp
qed

subsection \<open>Every step keeps the invariant\<close>

lemma location_stay:
  assumes "location_ok D R es u q" "side u p" "pending p \<subseteq> pending q" "uses p = None \<or> uses p = uses q"
    "destroys p = None \<or> destroys p = destroys q" "unregistered p = None \<or> unregistered p = unregistered q"
  shows "location_ok D R es u p"
proof -
  have "uses p = Some e \<Longrightarrow> uses q = Some e" "destroys p = Some e \<Longrightarrow> destroys q = Some e"
    "unregistered p = Some e \<Longrightarrow> unregistered q = Some e" for e using assms(4-6) by auto
  then show ?thesis using assms(1-3) unfolding location_ok_def by blast
qed

text \<open>A step that changes no set: the fields of an event at most.\<close>

lemma conc_stay:
  assumes inv: "conc_inv pl r t0 w es"
    and w': "gc_own pl r (marks (at w)) w' es" "dom (events w') = dom (events w)" "reactors w' = reactors w"
      "rworld.more w' = rworld.more w"
    and p: "side (t \<noteq> t0) p" "pending p \<subseteq> pending (at w t)" "uses p = None \<or> uses p = uses (at w t)"
      "destroys p = None \<or> destroys p = destroys (at w t)" "marked p = marked (at w t)"
      "unregistered p = None \<or> unregistered p = unregistered (at w t)"
  shows "conc_inv pl r t0 (move w' t p) es"
proof -
  obtain rc where rc: "reactors w r = Some rc" "r_thread rc = t0"
    and ok: "threads_ok t0 (dom (events w)) (registered w) es (at w)" using inv by (rule conc_invE)
  have "location_ok (dom (events w)) (registered w) es (t \<noteq> t0) p"
    using location_stay [OF threads_okD(2) [OF ok] p(1-4,6)] .
  from threads_move [OF ok this p(3,4)] show ?thesis
    using w' rc marks_same [of p "at w" t, OF p(5)] conc_frame [OF w'(4)] by (intro conc_moveI [where rc = rc]) simp_all
qed

lemma conc_same:
  assumes inv: "conc_inv pl r t0 w es"
    and p: "side (t \<noteq> t0) p" "pending p \<subseteq> pending (at w t)" "uses p = None \<or> uses p = uses (at w t)"
      "destroys p = None \<or> destroys p = destroys (at w t)" "marked p = marked (at w t)"
      "unregistered p = None \<or> unregistered p = unregistered (at w t)"
  shows "conc_inv pl r t0 (move w t p) es"
  using conc_stay [OF inv _ refl refl refl p] inv by (blast elim: conc_invE)

lemma destroy_mark_ok:
  assumes inv: "conc_inv pl r t0 w es" and t: "at w t = Destroy_Mark e b k" and ev: "events w e = Some ev"
  shows "conc_inv pl r t0 (move (put_event w e (ev\<lparr>e_closing := True\<rparr>)) t (Destroy_Plat e b k)) es"
proof -
  obtain rc where own: "gc_own pl r (marks (at w)) w es" and rc: "reactors w r = Some rc" "r_thread rc = t0"
    and ok: "threads_ok t0 (dom (events w)) (registered w) es (at w)" using inv by (rule conc_invE)
  let ?w = "put_event w e (ev\<lparr>e_closing := True\<rparr>)" and ?p = "Destroy_Plat e b k"
  have "location_ok (dom (events w)) (registered w) es (t \<noteq> t0) ?p"
    using threads_okD(2) [OF ok, of t] t by (simp add: location_ok_def)
  then have "threads_ok t0 (dom (events w)) (registered w) es ((at w)(t := ?p))"
    using threads_move [OF ok, of t ?p] t by simp
  moreover have "marks ((at w)(t := ?p)) = insert e (marks (at w))" by (rule marks_set) (simp_all add: t)
  moreover have "dom (events ?w) = dom (events w)" using ev by auto
  ultimately show ?thesis using mark_own [OF own ev] rc conc_frame [of ?w w]
    by (intro conc_moveI [where rc = rc]) simp_all
qed

lemma destroy_plat_ok:
  assumes inv: "conc_inv pl r t0 w es" and t: "at w t = Destroy_Plat e b k"
  shows "conc_inv pl r t0 (move ((fst (call_kernel w c))\<lparr>registered := registered w - {e}\<rparr>) t (Destroy_Shutdown e b k)) es"
proof -
  obtain rc where own: "gc_own pl r (marks (at w)) w es" and rc: "reactors w r = Some rc" "r_thread rc = t0"
    and ok: "threads_ok t0 (dom (events w)) (registered w) es (at w)" using inv by (rule conc_invE)
  let ?k = "fst (call_kernel w c)" and ?p = "Destroy_Shutdown e b k"
  have ok': "threads_ok t0 (dom (events w)) (registered w - {e}) es (at w)" using ok by (rule threads_shrink) blast
  then have "location_ok (dom (events w)) (registered w - {e}) es (t \<noteq> t0) ?p"
    using threads_okD(2) [OF ok', of t] t by (simp add: location_ok_def)
  then have "threads_ok t0 (dom (events w)) (registered w - {e}) es ((at w)(t := ?p))"
    using threads_move [OF ok', of t ?p] t by simp
  moreover have "marks ((at w)(t := ?p)) = marks (at w)" by (rule marks_same) (simp add: t)
  moreover have "gc_own pl r (marks (at w)) ?k es" using own by (rule gc_own_frame) simp_all
  ultimately show ?thesis using rc conc_frame(2) [of ?k w] by (intro conc_moveI [where rc = rc]) simp_all
qed

lemma destroy_queue_ok:
  assumes inv: "conc_inv pl r t0 w es" and t: "at w t = Destroy_Queue e k"
  shows "\<exists>w'. add_to_gc_list pl w e = Inr w' \<and> conc_inv pl r t0 (move w' t (resume k)) (es @ [e])"
proof -
  obtain rc where own: "gc_own pl r (marks (at w)) w es" and rc: "reactors w r = Some rc" "r_thread rc = t0"
    and ok: "threads_ok t0 (dom (events w)) (registered w) es (at w)" using inv by (rule conc_invE)
  obtain ev where ev: "events w e = Some ev" "e \<notin> set es" using call_event [OF inv, of t e] t by auto
  have "marked (at w t) = Some e" using t by simp
  then have "e \<in> marks (at w)" unfolding marks_def by blast
  then obtain h where h: "add_to_gc_list pl w e = Inr (w\<lparr>lists := h\<rparr>)"
    "gc_own pl r (marks (at w) - {e}) (w\<lparr>lists := h\<rparr>) (es @ [e])" using queue_own [OF own ev] by blast
  have "location_ok (dom (events w)) (registered w) es (t \<noteq> t0) (resume k)"
    using threads_okD(2) [OF ok, of t] t by (simp add: location_ok_def)
  then have "threads_ok t0 (dom (events w)) (registered w) (es @ [e]) ((at w)(t := resume k))"
    using threads_queue [OF ok, of t e] t by simp
  moreover have "marks ((at w)(t := resume k)) = marks (at w) - {e}"
    by (rule marks_clear [OF threads_okD(3) [OF ok]]) (simp_all add: t)
  ultimately have "conc_inv pl r t0 (move (w\<lparr>lists := h\<rparr>) t (resume k)) (es @ [e])"
    using h(2) rc by (intro conc_moveI [where rc = rc]) simp_all
  then show ?thesis using h(1) by blast
qed

lemma destroy_release_ok:
  assumes inv: "conc_inv pl r t0 w es" and t: "at w t = Destroy_Release e k"
  shows "\<exists>w'. posixc_event_release pl w e = Inr w' \<and> conc_inv pl r t0 (move w' t (resume k)) es"
proof -
  obtain rc where own: "gc_own pl r (marks (at w)) w es" and rc: "reactors w r = Some rc" "r_thread rc = t0"
    and ok: "threads_ok t0 (dom (events w)) (registered w) es (at w)" using inv by (rule conc_invE)
  note loc = threads_okD(2) [OF ok, of t, unfolded location_ok_def]
  have t0: "t = t0" using loc t by simp
  obtain ev where ev: "events w e = Some ev" "e \<notin> set es" using call_event [OF inv, of t e] t by auto
  obtain w' where w': "posixc_event_release pl w e = Inr w'" "gc_own pl r (marks (at w) - {e}) w' es"
    "events w' = (events w)(e := None)" "reactors w' = reactors w" "rworld.more w' = rworld.more w"
    using release_own [OF own ev] by blast
  have "location_ok (dom (events w)) (registered w) es False (resume k)" using loc t t0 by (simp add: location_ok_def)
  then have "threads_ok t0 (dom (events w) - {e}) (registered w) es ((at w)(t0 := resume k))"
    using threads_release [OF ok, of e "resume k"] t t0 by simp
  moreover have "marks ((at w)(t := resume k)) = marks (at w) - {e}"
    by (rule marks_clear [OF threads_okD(3) [OF ok]]) (simp_all add: t)
  ultimately have "conc_inv pl r t0 (move w' t (resume k)) es"
    using w'(2-4) rc conc_frame [OF w'(5)] t0 by (intro conc_moveI [where rc = rc]) simp_all
  then show ?thesis using w'(1) by blast
qed

lemma conc_thread: "conc_inv pl r t0 w es \<Longrightarrow> location_ok (dom (events w)) (registered w) es (t \<noteq> t0) (at w t)"
  by (elim conc_invE) (rule threads_okD(2))

lemma conc_side: "conc_inv pl r t0 w es \<Longrightarrow> side (t \<noteq> t0) (at w t)"
  using conc_thread unfolding location_ok_def by blast

lemma conc_pending: "conc_inv pl r t0 w es \<Longrightarrow> e \<in> pending (at w t) \<Longrightarrow> \<exists>ev. events w e = Some ev"
  using conc_thread [of pl r t0 w es t] unfolding location_ok_def by blast

lemma submit_locked_step_ok:
  assumes inv: "conc_inv pl r t0 w es" and t: "at w t = Submit_Locked e evs k"
  shows "\<exists>w' ok. submit_locked pl w e evs = Inr (w', ok) \<and> conc_inv pl r t0 (move w' t (resume k)) es"
proof -
  obtain rc where own: "gc_own pl r (marks (at w)) w es" and rc: "reactors w r = Some rc"
    using inv by (rule conc_invE)
  obtain ev where ev: "events w e = Some ev" using call_event [OF inv, of t e] t by auto
  obtain w' ok where w': "submit_locked pl w e evs = Inr (w', ok)" "gc_own pl r (marks (at w)) w' es"
    "reactors w' = reactors w" "rworld.more w' = rworld.more w"
    "events w' = (events w)(e \<mapsto> ev\<lparr>evmask := evmask ev OR evs\<rparr>)" using submit_locked_ok [OF own ev rc] by blast
  have "conc_inv pl r t0 (move w' t (resume k)) es"
    by (rule conc_stay [OF inv w'(2) _ w'(3,4)]) (use conc_side [OF inv, of t] ev w'(5) t in auto)
  then show ?thesis using w'(1) by blast
qed

lemma consume_step_ok:
  assumes inv: "conc_inv pl r t0 w es" and t: "at w t = Loop_Batch i ((e, bits) # ks)"
  shows "\<exists>w' cb arg. posixc_event_consume w e bits = Inr (w', cb, arg) \<and>
    conc_inv pl r t0 (move w' t (if cb = None then Loop_Batch i ks else In_Callback i ks)) es"
proof -
  obtain rc where own: "gc_own pl r (marks (at w)) w es" using inv by (rule conc_invE)
  obtain ev where ev: "events w e = Some ev" using conc_pending [OF inv, of e t] t by auto
  obtain w' where w': "posixc_event_consume w e bits = Inr (w', e_cb ev, e_arg ev)" "gc_own pl r (marks (at w)) w' es"
    "reactors w' = reactors w" "rworld.more w' = rworld.more w"
    "events w' = (events w)(e \<mapsto> ev\<lparr>evmask := evmask ev AND NOT bits\<rparr>)" using event_consume_ok [OF own ev] by blast
  have "conc_inv pl r t0 (move w' t (if e_cb ev = None then Loop_Batch i ks else In_Callback i ks)) es"
    by (rule conc_stay [OF inv w'(2) _ w'(3,4)]) (use conc_side [OF inv, of t] ev w'(5) t in auto)
  then show ?thesis using w'(1) by blast
qed

lemma gc_step_conc:
  assumes inv: "conc_inv pl r t0 w es" and p: "pending (at w t0) = {}" "side False q" "pending q = {}"
    "uses q = None" "uses (at w t0) = None"
  shows "\<exists>w'. posixc_reactor_gc pl t0 w r = Some (Inr w') \<and> conc_inv pl r t0 (move w' t0 q) []"
proof -
  obtain rc where own: "gc_own pl r (marks (at w)) w es" and rc: "reactors w r = Some rc" "r_thread rc = t0"
    and ok: "threads_ok t0 (dom (events w)) (registered w) es (at w)" using inv by (rule conc_invE)
  obtain w' where w': "posixc_reactor_gc pl t0 w r = Some (Inr w')" "gc_own pl r (marks (at w)) w' []"
    "events w' = (events w) |` (- set es)" "reactors w' = reactors w" "rworld.more w' = rworld.more w"
    using reactor_gc_ok [OF own rc(1)] rc(2) by blast
  have none: "destroys x = None" "marked x = None" "unregistered x = None" if "uses x = None" for x
    using that by (cases x; simp)+
  have D: "dom (events w') = dom (events w) - set es" using w'(3) by auto
  have ok': "threads_ok t0 (dom (events w')) (registered w') [] (at w')"
    using threads_gc [OF ok p(1)] D conc_frame [OF w'(5)] by simp
  have "conc_inv pl r t0 w' []" using w'(2,4) rc ok' conc_frame [OF w'(5)] by (simp add: conc_inv_def)
  then have "conc_inv pl r t0 (move w' t0 q) []"
    by (rule conc_same) (use p none conc_frame [OF w'(5)] in auto)
  then show ?thesis using w'(1) by blast
qed

text \<open>A thread that neither waits nor is outside the library has a step, and the step keeps the invariant.\<close>

fun waits :: "location \<Rightarrow> bool" where
  "waits Idle = True"
| "waits (Loop_Wait i) = True"
| "waits Ended = True"
| "waits _ = False"

text \<open>The list of the reactor after the step of a thread at a location.\<close>

fun queue_after :: "location \<Rightarrow> addr list \<Rightarrow> addr list" where
  "queue_after (Destroy_Queue e k) es = es @ [e]"
| "queue_after (Loop_Gc i) es = []"
| "queue_after Last_Gc es = []"
| "queue_after p es = es"

lemma destroy_enter_ok:
  assumes inv: "conc_inv pl r t0 w es" and t: "at w t = Destroy_Enter e k"
  shows "\<exists>ev rc. events w e = Some ev \<and> reactors w (e_reactor ev) = Some rc \<and>
    conc_inv pl r t0 (move w t (Destroy_Test e (t = r_thread rc) k)) es"
proof -
  obtain rc where rc: "reactors w r = Some rc" "r_thread rc = t0" using inv by (rule conc_invE)
  obtain ev where ev: "events w e = Some ev" "e_reactor ev = r" using call_event [OF inv, of t e] t by auto
  have "conc_inv pl r t0 (move w t (Destroy_Test e (t = r_thread rc) k)) es"
    by (rule conc_same [OF inv]) (use conc_side [OF inv, of t] t rc(2) in auto)
  then show ?thesis using ev rc by blast
qed

lemma destroy_step_ok:
  assumes inv: "conc_inv pl r t0 w es" and t: "destroys (at w t) = Some e"
  shows "\<exists>w' p. destroy_step pl t (at w t) w = Some (Inr (w', p)) \<and> conc_inv pl r t0 (move w' t p) (queue_after (at w t) es)"
proof -
  obtain ev where ev: "events w e = Some ev" "e_reactor ev = r" "marked (at w t) \<noteq> Some e \<Longrightarrow> \<not> e_closing ev"
    using call_event [OF inv destroys_uses [OF t]] by blast
  obtain rc where rc: "reactors w r = Some rc" using inv by (rule conc_invE)
  note side = conc_side [OF inv, of t]
  show ?thesis
  proof (cases "at w t")
    case (Destroy_Enter x k)
    then show ?thesis using destroy_enter_ok [OF inv, of t x k] by auto
  next
    case (Destroy_Test x b k)
    have "conc_inv pl r t0 (move w t (Destroy_Mark e b k)) es"
      by (rule conc_same [OF inv]) (use side t Destroy_Test in auto)
    then show ?thesis using Destroy_Test t ev by auto
  next
    case (Destroy_Mark x b k)
    then show ?thesis using destroy_mark_ok [OF inv, of t e b k ev] t ev by auto
  next
    case (Destroy_Plat x b k)
    let ?c = "plat_destroy pl (r_id rc) e ev"
    have "registered (fst (call_kernel w ?c)) = registered w" by (rule conc_frame(1)) simp
    then have "destroy_step pl t (at w t) w =
        Some (Inr ((fst (call_kernel w ?c))\<lparr>registered := registered w - {e}\<rparr>, Destroy_Shutdown e b k))"
      using Destroy_Plat t ev(1,2) rc by (simp add: case_prod_beta)
    then show ?thesis using destroy_plat_ok [OF inv, of t e b k ?c] Destroy_Plat t by auto
  next
    case (Destroy_Shutdown x b k)
    have own: "gc_own pl r (marks (at w)) w es" using inv by (auto elim: conc_invE)
    have "conc_inv pl r t0 (move (log_sys w [Shutdown (e_fd ev)]) t
        (if \<not> b then Destroy_Queue e k else Destroy_Release e k)) es"
      by (rule conc_stay [OF inv gc_own_frame [OF own]]) (use side t Destroy_Shutdown in auto)
    then show ?thesis using Destroy_Shutdown t ev by auto
  next
    case (Destroy_Queue x k)
    then show ?thesis using destroy_queue_ok [OF inv, of t x k] by auto
  next
    case (Destroy_Release x k)
    then show ?thesis using destroy_release_ok [OF inv, of t x k] by auto
  qed (use t in auto)
qed

lemma submit_step_ok:
  assumes inv: "conc_inv pl r t0 w es" and t: "uses (at w t) = Some e" "destroys (at w t) = None"
  shows "\<exists>w' p. submit_step pl (at w t) w = Some (Inr (w', p)) \<and> conc_inv pl r t0 (move w' t p) (queue_after (at w t) es)"
proof -
  obtain ev where ev: "events w e = Some ev" "\<not> e_closing ev"
    using call_event [OF inv t(1)] t(2) marked_destroys [of "at w t" e] by force
  show ?thesis
  proof (cases "at w t")
    case (Submit_Test x evs k)
    have "conc_inv pl r t0 (move w t (Submit_Locked e evs k)) es"
      by (rule conc_same [OF inv]) (use conc_side [OF inv, of t] t Submit_Test in auto)
    then show ?thesis using Submit_Test t ev by auto
  next
    case (Submit_Locked x evs k)
    then show ?thesis using submit_locked_step_ok [OF inv, of t x evs k] by auto
  qed (use t in auto)
qed

lemma loop_step_ok:
  assumes inv: "conc_inv pl r t0 w es" and t: "uses (at w t) = None" "\<not> waits (at w t)"
  shows "\<exists>w' p. loop_step pl t r (at w t) w = Some (Inr (w', p)) \<and> conc_inv pl r t0 (move w' t p) (queue_after (at w t) es)"
proof -
  have t0: "t = t0" using conc_side [OF inv, of t] t by (cases "at w t") auto
  obtain rc where rc: "reactors w r = Some rc" using inv by (rule conc_invE)
  show ?thesis
  proof (cases "at w t")
    case (Loop_Check i)
    have "conc_inv pl r t0 (move w t (if r_closing rc then Last_Gc else Loop_Wait i)) es"
      by (rule conc_same [OF inv]) (use t0 Loop_Check in auto)
    then show ?thesis using Loop_Check rc by auto
  next
    case (Loop_Batch i ks)
    show ?thesis
    proof (cases ks)
      case Nil
      have "conc_inv pl r t0 (move w t (if i mod loops_per_gc = 0 then Loop_Gc i else Loop_Check ((i + 1) mod 2 ^ 32))) es"
        by (rule conc_same [OF inv]) (use t0 Loop_Batch in auto)
      then show ?thesis using Loop_Batch Nil by auto
    next
      case (Cons k ks')
      obtain x bits where k: "k = (x, bits)" by (cases k)
      obtain w' cb arg where "posixc_event_consume w x bits = Inr (w', cb, arg)"
        "conc_inv pl r t0 (move w' t (if cb = None then Loop_Batch i ks' else In_Callback i ks')) es"
        using consume_step_ok [OF inv, of t i x bits ks'] Loop_Batch Cons k by blast
      then show ?thesis using Loop_Batch Cons k by auto
    qed
  next
    case (In_Callback i ks)
    have "conc_inv pl r t0 (move w t (Loop_Batch i ks)) es"
      by (rule conc_same [OF inv]) (use t0 In_Callback in auto)
    then show ?thesis using In_Callback by auto
  next
    case (Loop_Gc i)
    then show ?thesis using gc_step_conc [OF inv, of "Loop_Check ((i + 1) mod 2 ^ 32)"] t0 by auto
  next
    case Last_Gc
    then show ?thesis using gc_step_conc [OF inv, of Ended] t0 by auto
  qed (use t in auto)
qed

lemma step_none:
  "destroys p = None \<Longrightarrow> destroy_step pl t p w = None" "uses p = None \<Longrightarrow> submit_step pl p w = None"
  by (cases p; simp)+

lemma thread_step_ok:
  assumes inv: "conc_inv pl r t0 w es" and t: "\<not> waits (at w t)"
  shows "\<exists>w' p. thread_step pl r t w = Some (Inr (w', p)) \<and> conc_inv pl r t0 (move w' t p) (queue_after (at w t) es)"
proof (cases "destroys (at w t)")
  case (Some e)
  then show ?thesis using destroy_step_ok [OF inv, of t] by (auto simp: thread_step_def)
next
  case None
  note d = step_none(1) [OF None]
  show ?thesis
  proof (cases "uses (at w t)")
    case (Some e)
    then show ?thesis using submit_step_ok [OF inv Some None] d [of pl t w] by (auto simp: thread_step_def)
  next
    case None
    then show ?thesis using loop_step_ok [OF inv None t] d [of pl t w] step_none(2) [OF None, of pl w] by (auto simp: thread_step_def)
  qed
qed

section \<open>Reachable states\<close>

lemma unregistered_uses: "unregistered p = Some e \<Longrightarrow> uses p = Some e"
  by (cases p) auto

lemma threads_grow:
  assumes "threads_ok t0 D R es A" "e \<notin> D" "e \<notin> set es"
  shows "threads_ok t0 (insert e D) (insert e R) es A"
proof -
  have "location_ok (insert e D) (insert e R) es u p" if p: "location_ok D R es u p" for u p
  proof -
    have "unregistered p \<noteq> Some e" using p assms(2) unregistered_uses [of p e] by (auto simp: location_ok_def)
    then show ?thesis using p unfolding location_ok_def by blast
  qed
  then show ?thesis using assms unfolding threads_ok_def by blast
qed

lemma create_conc:
  assumes inv: "conc_inv pl r t0 w es" and new: "events w e = None" "node_of pl e \<notin> dom (lists w)"
    and c: "posixc_event_create pl w (Some e) r fd cb arg ty = Inr (w', res)"
  shows "conc_inv pl r t0 (w'\<lparr>registered := (if res = None then registered w' else insert e (registered w'))\<rparr>) es"
proof -
  obtain rc where own: "gc_own pl r (marks (at w)) w es" and rc: "reactors w r = Some rc" "r_thread rc = t0"
    and ok: "threads_ok t0 (dom (events w)) (registered w) es (at w)" using inv by (rule conc_invE)
  have "e \<notin> marks (at w)"
  proof
    assume "e \<in> marks (at w)"
    then obtain t where "marked (at w t) = Some e" by (auto simp: marks_def)
    then have "uses (at w t) = Some e" by (intro destroys_uses marked_destroys)
    from call_event [OF inv this] show False using new(1) by simp
  qed
  note created = event_create_ok [OF own new rc(1) this, of fd cb arg ty]
  have w': "gc_own pl r (marks (at w)) w' es" "reactors w' = reactors w" "rworld.more w' = rworld.more w"
    and ev: "if res = None then events w' = events w else dom (events w') = insert e (dom (events w))"
    using created c by (auto split: if_splits)
  have "e \<notin> set es" using own new(1) by (auto simp: gc_own_def event_own_def)
  then have "threads_ok t0 (dom (events w')) (if res = None then registered w' else insert e (registered w')) es (at w')"
    using threads_grow [OF ok, of e] ok ev new(1) conc_frame [OF w'(3)] by (auto split: if_splits)
  then show ?thesis using w' rc conc_frame [OF w'(3)] by (simp add: conc_inv_def)
qed

text \<open>A program that starts a call of its own.\<close>

lemma start_conc:
  assumes inv: "conc_inv pl r t0 w es" and e: "events w e = Some ev" "\<not> e_closing ev"
    and p: "uses p = Some e" "side (t \<noteq> t0) p" "pending p \<subseteq> pending (at w t)" "marked p = None"
      "destroys p = Some e \<Longrightarrow> e \<notin> pending p"
    and free: "if destroys p = None then \<forall>x. destroys (at w x) \<noteq> Some e else \<forall>x. uses (at w x) \<noteq> Some e"
    and t: "marked (at w t) = None"
  shows "conc_inv pl r t0 (move w t p) es"
proof -
  obtain rc where own: "gc_own pl r (marks (at w)) w es" and rc: "reactors w r = Some rc" "r_thread rc = t0"
    and ok: "threads_ok t0 (dom (events w)) (registered w) es (at w)" using inv by (rule conc_invE)
  have "event_own pl r (marks (at w)) w es" using own by (simp add: gc_own_def)
  note ow = event_invD [OF this e(1)]
  have "e \<notin> set es" using ow(3) e(2) by blast
  moreover have "unregistered p = None" using p(4) by (cases p) auto
  moreover have "destroys p = None \<or> destroys p = Some e" using p(1) destroys_uses [of p] by (cases "destroys p") auto
  ultimately have "location_ok (dom (events w)) (registered w) es (t \<noteq> t0) p"
    using conc_thread [OF inv, of t] p e(1) unfolding location_ok_def by auto
  then have "threads_ok t0 (dom (events w)) (registered w) es ((at w)(t := p))"
    using threads_call [OF ok _ p(1)] free by blast
  moreover have "marks ((at w)(t := p)) = marks (at w)" by (rule marks_same) (simp add: p(4) t)
  ultimately show ?thesis using own rc by (intro conc_moveI [where rc = rc]) simp_all
qed

lemma caller_simps:
  assumes "caller p = Some k"
  shows "pending p = rest k" "marked p = None" "side u p \<longleftrightarrow> user_after k = u"
  by (rule caller.elims [OF assms]; simp)+

lemma wait_conc:
  assumes inv: "conc_inv pl r t0 w es" and t: "at w t0 = Loop_Wait i" and ks: "fst ` set ks \<subseteq> registered w"
  shows "conc_inv pl r t0 (move w t0 (Loop_Batch i ks)) es"
proof -
  obtain rc where own: "gc_own pl r (marks (at w)) w es" and rc: "reactors w r = Some rc" "r_thread rc = t0"
    and ok: "threads_ok t0 (dom (events w)) (registered w) es (at w)" using inv by (rule conc_invE)
  have "location_ok (dom (events w)) (registered w) es False (Loop_Batch i ks)"
    using ks threads_okD(1) [OF ok] by (auto simp: location_ok_def)
  then have "threads_ok t0 (dom (events w)) (registered w) es ((at w)(t0 := Loop_Batch i ks))"
    using threads_move [OF ok, of t0 "Loop_Batch i ks"] by simp
  moreover have "marks ((at w)(t0 := Loop_Batch i ks)) = marks (at w)" by (rule marks_same) (simp add: t)
  ultimately show ?thesis using own rc by (intro conc_moveI [where rc = rc]) simp_all
qed

lemma close_conc:
  assumes inv: "conc_inv pl r t0 w es" and rc: "reactors w r = Some rc"
  shows "conc_inv pl r t0 (w\<lparr>reactors := (reactors w)(r \<mapsto> rc\<lparr>r_closing := True\<rparr>)\<rparr>) es"
  using assms unfolding conc_inv_def gc_own_def event_own_def by simp

lemma interval_conc:
  assumes inv: "conc_inv pl r t0 w es" and e: "may_submit w e"
    and run: "posixc_timer_event_set_interval w e ms is_periodic = Inr w'"
  shows "conc_inv pl r t0 w' es"
proof -
  obtain rc where own: "gc_own pl r (marks (at w)) w es" and rc: "reactors w r = Some rc" "r_thread rc = t0"
    and ok: "threads_ok t0 (dom (events w)) (registered w) es (at w)" using inv by (rule conc_invE)
  obtain ev where ev: "events w e = Some ev" using e by (auto simp: may_submit_def)
  have w': "gc_own pl r (marks (at w)) w' es" "reactors w' = reactors w" "rworld.more w' = rworld.more w"
    "dom (events w') = dom (events w)" using set_interval_ok [OF own ev, of ms is_periodic] run ev by auto
  then show ?thesis using rc ok conc_frame [OF w'(3)] by (simp add: conc_inv_def)
qed

lemma destroy_conc:
  assumes inv: "conc_inv pl r t0 w es" and t: "caller (at w t) = Some k" and e: "may_destroy w e" "e \<notin> rest k"
  shows "conc_inv pl r t0 (move w t (Destroy_Enter e k)) es"
proof -
  obtain ev where ev: "events w e = Some ev" "\<not> e_closing ev" "\<forall>x. uses (at w x) \<noteq> Some e"
    using e(1) by (auto simp: may_destroy_def)
  show ?thesis
    by (rule start_conc [OF inv ev(1,2)]) (use e(2) caller_simps [OF t] ev(3) conc_side [OF inv, of t] in auto)
qed

lemma submit_conc:
  assumes inv: "conc_inv pl r t0 w es" and t: "caller (at w t) = Some k" and e: "may_submit w e"
  shows "conc_inv pl r t0 (move w t (Submit_Test e evs k)) es"
proof -
  obtain ev where ev: "events w e = Some ev" "\<not> e_closing ev" "\<forall>x. destroys (at w x) \<noteq> Some e"
    using e by (auto simp: may_submit_def)
  show ?thesis
    by (rule start_conc [OF inv ev(1,2)]) (use caller_simps [OF t] ev(3) conc_side [OF inv, of t] in auto)
qed

lemma badfd_conc: "conc_inv pl r t0 w es \<Longrightarrow> at w t0 = Loop_Wait i \<Longrightarrow> conc_inv pl r t0 (move w t0 Ended) es"
  by (rule conc_same) simp_all

lemma step_waits: "waits p \<Longrightarrow> destroy_step pl t p w = None \<and> submit_step pl p w = None \<and> loop_step pl t r p w = None"
  by (cases p) simp_all

lemma lstep_ok:
  assumes "lstep pl r t0 w hs w'" "conc_inv pl r t0 w es"
  shows "\<exists>es'. conc_inv pl r t0 w' es'"
  using assms
proof (induction rule: lstep.induct)
  case (create w t k e fd cb arg ty w' res)
  show ?case using create_conc [OF create(5,2-4)] ..
next
  case (no_memory w t k fd cb arg ty w' res)
  then show ?case using create_no_memory by blast
next
  case (destroy w t k e)
  show ?case using destroy_conc [OF destroy(4,1-3)] ..
next
  case (submit w t k e evs)
  show ?case using submit_conc [OF submit(3,1,2)] ..
next
  case (set_interval w t k e ms is_periodic w')
  then show ?case using interval_conc by blast
next
  case (continue t w w' p)
  have "\<not> waits (at w t)" using continue(1) step_waits [of "at w t" pl t w r] by (auto simp: thread_step_def)
  from thread_step_ok [OF continue(2) this] show ?case using continue(1) by auto
next
  case (wait w i ks)
  show ?case using wait_conc [OF wait(3,1,2)] ..
next
  case (badfd w i)
  show ?case using badfd_conc [OF badfd(2,1)] ..
next
  case (close w rc)
  show ?case using close_conc [OF close(2,1)] ..
qed

lemma cstep_ok: "cstep pl r t0 w w' \<Longrightarrow> conc_inv pl r t0 w es \<Longrightarrow> \<exists>es'. conc_inv pl r t0 w' es'"
  unfolding cstep_def using lstep_ok by blast

lemma csteps_ok: "(cstep pl r t0)\<^sup>*\<^sup>* w w' \<Longrightarrow> conc_inv pl r t0 w es \<Longrightarrow> \<exists>es'. conc_inv pl r t0 w' es'"
  by (induction rule: rtranclp_induct) (blast dest: cstep_ok)+

text \<open>When \<open>posixc_reactor_create\<close> returns, its thread is at the head of its loop and every other thread is in
  its program.\<close>

definition started :: "thread_id \<Rightarrow> 'c rworld \<Rightarrow> 'c cworld" where
  "started t0 w = rworld.extend w \<lparr>registered = {}, at = (\<lambda>t. if t = t0 then Loop_Check 0 else Idle)\<rparr>"

lemma started_ok:
  assumes "gc_inv pl r w []" "reactors w r = Some rc" "r_thread rc = t0" "events w = Map.empty"
  shows "conc_inv pl r t0 (started t0 w) []"
  using assms unfolding conc_inv_def started_def threads_ok_def location_ok_def exclusive_def marks_def
  by (simp add: gc_own_def event_own_def rworld.defs)

end
