(* ===== verification/Interleaving.thy ===== *)
theory Interleaving
  imports Threads
begin

text \<open>
  What the interleaved threads of \<open>Threads\<close> guarantee: no step of an allowed execution fails, the list of the
  reactor stays exact, and a call that runs without interruption is the function of \<open>event.c\<close>. And what
  they do not: executions that the functions' own tests do not exclude, which end in freed memory.
\<close>

section \<open>A call that runs alone\<close>

text \<open>Thread \<open>t\<close> runs until it is back in the program, \<open>n\<close> steps at most; a call of \<open>posixc_event_destroy\<close> has six
  steps at most.\<close>

fun solo :: "'c plat \<Rightarrow> addr \<Rightarrow> thread_id \<Rightarrow> nat \<Rightarrow> 'c cworld \<Rightarrow> 'c cworld run" where
  "solo pl r t 0 w = (if caller (at w t) \<noteq> None then Some (Inr w) else None)"
| "solo pl r t (Suc n) w = (if caller (at w t) \<noteq> None then Some (Inr w)
     else bindR (thread_step pl r t w) (\<lambda>(w', p). solo pl r t n (move w' t p)))"

lemma caller_resume [simp]: "caller (resume k) = Some k"
  by (cases k) auto

lemma solo_back [simp]: "at w t = resume k \<Longrightarrow> solo pl r t n w = Some (Inr w)"
  by (cases n) auto

lemma move_move [simp]: "move (move w t p) t q = move w t q"
  by (simp add: move_def)

lemma syscalls_move [simp]: "syscalls (move w t p) = syscalls w"
  by (simp add: move_def)

lemma move_stays: "move w t (at w t) = w"
  by (simp add: move_def)

lemma move_registered: "registered w = R \<Longrightarrow> (move w t p)\<lparr>registered := R\<rparr> = move w t p"
  by (simp add: move_def)

lemma registered_move: "move (w\<lparr>registered := R\<rparr>) t p = (move w t p)\<lparr>registered := R\<rparr>"
  by (simp add: move_def)

text \<open>What the functions do does not depend on where the threads are, nor on the kernel's set.\<close>

lemmas memory_ops = add_to_gc_list_def lock_reactor_def unlock_reactor_def get_event_def get_reactor_def
  put_reactor_def put_event_def posixc_event_release_def log_sys_def submit_locked_def lock_event_def
  unlock_event_def call_kernel_def

lemma ops_move:
  "get_event (move w t p) e = get_event w e" "get_reactor (move w t p) x = get_reactor w x"
  "put_event (move w t p) e ev = move (put_event w e ev) t p" "log_sys (move w t p) l = move (log_sys w l) t p"
  "call_kernel (move w t p) c = map_prod (\<lambda>w. move w t p) (\<lambda>x. x) (call_kernel w c)"
  "add_to_gc_list pl (move w t p) e = bindE (add_to_gc_list pl w e) (\<lambda>w. Inr (move w t p))"
  "posixc_event_release pl (move w t p) e = bindE (posixc_event_release pl w e) (\<lambda>w. Inr (move w t p))"
  "submit_locked pl (move w t p) e evs = bindE (submit_locked pl w e evs) (\<lambda>(w, ok). Inr (move w t p, ok))"
  by (simp_all add: memory_ops move_def bindE_def Let_def split: option.splits sum.splits)

lemma ops_registered:
  fixes w :: "'c cworld"
  shows "get_event (w\<lparr>registered := R\<rparr>) e = get_event w e"
    "log_sys (w\<lparr>registered := R\<rparr>) l = (log_sys w l)\<lparr>registered := R\<rparr>"
    "add_to_gc_list pl (w\<lparr>registered := R\<rparr>) e = bindE (add_to_gc_list pl w e) (\<lambda>w. Inr (w\<lparr>registered := R\<rparr>))"
    "posixc_event_release pl (w\<lparr>registered := R\<rparr>) e =
      bindE (posixc_event_release pl w e) (\<lambda>w. Inr (w\<lparr>registered := R\<rparr>))"
  by (simp_all add: memory_ops bindE_def Let_def split: option.splits sum.splits)

lemmas step_ops = numeral_eq_Suc thread_step_def ops_move ops_registered registered_move Let_def case_prod_beta

lemma submit_alone:
  assumes "at w t = Submit_Test e evs k"
  shows "solo pl r t 2 w = Some (bindE (posixc_event_submit pl w e evs) (\<lambda>(w', ok). Inr (move w' t (resume k))))"
proof (cases "events w e")
  case None
  then show ?thesis using assms by (simp add: step_ops posixc_event_submit_def get_event_def)
next
  case (Some ev)
  then show ?thesis using assms
    by (cases "submit_locked pl w e evs") (auto simp: step_ops posixc_event_submit_def)
qed

text \<open>After a call, the kernel has forgotten the event unless it was closing before.\<close>

definition forgets :: "'c cworld \<Rightarrow> addr \<Rightarrow> addr set" where
  "forgets w e = (case events w e of Some ev \<Rightarrow> if e_closing ev then {} else {e} | None \<Rightarrow> {})"

lemma destroy_alone:
  assumes t: "at w t = Destroy_Enter e k"
  shows "solo pl r t 6 w = Some (bindE (posixc_event_destroy pl t w e)
    (\<lambda>w'. Inr ((move w' t (resume k))\<lparr>registered := registered w - forgets w e\<rparr>)))"
proof (cases "\<exists>ev rc. events w e = Some ev \<and> reactors w (e_reactor ev) = Some rc")
  case False
  then show ?thesis using t
    by (cases "events w e") (auto simp: step_ops posixc_event_destroy_def get_event_def get_reactor_def split: option.splits)
next
  case True
  then obtain ev rc where ev: "events w e = Some ev" and rc: "reactors w (e_reactor ev) = Some rc" by blast
  show ?thesis
  proof (cases "e_closing ev")
    case True
    then show ?thesis using rc ev t release_ok [OF ev, of pl]
      by (simp add: step_ops posixc_event_destroy_def move_registered forgets_def)
  next
    case False
    let ?ev = "ev\<lparr>e_closing := True\<rparr>"
    let ?w = "log_sys (fst (call_kernel (put_event w e ?ev) (plat_destroy pl (r_id rc) e ?ev))) [Shutdown (e_fd ev)]"
    have "registered (fst (call_kernel (put_event w e ?ev) c)) = registered w" for c by (rule conc_frame) simp
    then show ?thesis using False rc ev t release_ok [of ?w e ?ev pl]
      by (cases "add_to_gc_list pl ?w e") (simp_all add: step_ops posixc_event_destroy_def forgets_def)
  qed
qed

text \<open>A batch that the reactor's thread works off alone, when the callbacks return at once: the entries of known filters with
  their bits, and the thread until it has none left.\<close>

definition report :: "kevent \<Rightarrow> (addr \<times> 32 word) list" where
  "report ke = (case bits_of_filter (kfilter ke) of None \<Rightarrow> []
     | Some bits \<Rightarrow> [(udata ke, if EV_ERROR \<in> kflags ke then bits OR POSIXC_EVENT_ERR else bits)])"

fun batch_run :: "'c plat \<Rightarrow> addr \<Rightarrow> thread_id \<Rightarrow> nat \<Rightarrow> 'c cworld \<Rightarrow> 'c cworld run" where
  "batch_run pl r t 0 w = None"
| "batch_run pl r t (Suc n) w = (case at w t of Loop_Batch i [] \<Rightarrow> Some (Inr w)
     | _ \<Rightarrow> bindR (thread_step pl r t w) (\<lambda>(w', p). batch_run pl r t n (move w' t p)))"

lemma batch_step:
  "(\<And>i. at w t \<noteq> Loop_Batch i []) \<Longrightarrow> batch_run pl r t (Suc n) w =
     bindR (thread_step pl r t w) (\<lambda>(w', p). batch_run pl r t n (move w' t p))"
  by (auto split: location.splits list.splits)

declare batch_run.simps(2) [simp del]

lemma ops_consume:
  "posixc_event_consume (move w t p) e bits = bindE (posixc_event_consume w e bits) (\<lambda>(w, c). Inr (move w t p, c))"
  by (simp add: posixc_event_consume_def memory_ops move_def bindE_def Let_def split: option.splits sum.splits)

lemma consume_evs_move:
  "consume_evs (\<lambda>c e b a w. Some (Inr w)) kes (move w t p) =
    bindR (consume_evs (\<lambda>c e b a w. Some (Inr w)) kes w) (\<lambda>w. Some (Inr (move w t p)))"
proof (induction kes arbitrary: w)
  case (Cons ke kes)
  show ?case
  proof (cases "bits_of_filter (kfilter ke)")
    case None
    then show ?thesis using Cons.IH by (simp add: consume_ev_def)
  next
    case (Some bits)
    then show ?thesis using Cons.IH
      by (cases "posixc_event_consume w (udata ke) (if EV_ERROR \<in> kflags ke then bits OR POSIXC_EVENT_ERR else bits)")
        (auto simp: consume_ev_def ops_consume Let_def split: option.splits)
  qed
qed simp

lemma batch_alone:
  "at w t = Loop_Batch i (concat (map report kes)) \<Longrightarrow> 2 * length kes < n \<Longrightarrow>
    batch_run pl r t n w = bindR (consume_evs (\<lambda>c e b a w. Some (Inr w)) kes w) (\<lambda>w'. Some (Inr (move w' t (Loop_Batch i []))))"
proof (induction kes arbitrary: w n)
  case Nil
  then show ?case using move_stays [of w t] by (cases n) (simp_all add: batch_run.simps(2))
next
  case (Cons ke kes)
  show ?case
  proof (cases "bits_of_filter (kfilter ke)")
    case None
    then show ?thesis using Cons by (simp add: consume_ev_def report_def)
  next
    case (Some bits)
    let ?b = "if EV_ERROR \<in> kflags ke then bits OR POSIXC_EVENT_ERR else bits"
    let ?ks = "concat (map report kes)"
    obtain n' where n: "n = Suc (Suc n')" "2 * length kes < n'" using Cons.prems(2) by (cases n; cases "n - 1") auto
    have at: "at w t = Loop_Batch i ((udata ke, ?b) # ?ks)" using Cons.prems(1) Some by (simp add: report_def [of ke])
    show ?thesis
    proof (cases "posixc_event_consume w (udata ke) ?b")
      case (Inl x)
      then show ?thesis using Some at n(1) by (simp add: batch_step consume_ev_def thread_step_def Let_def)
    next
      case (Inr x)
      obtain w1 cb arg where x: "x = (w1, cb, arg)" by (cases x)
      have "batch_run pl r t m (move w1 t (Loop_Batch i ?ks)) =
          bindR (consume_evs (\<lambda>c e b a w. Some (Inr w)) kes w1) (\<lambda>w'. Some (Inr (move w' t (Loop_Batch i []))))"
        if "2 * length kes < m" for m
        using Cons.IH [of "move w1 t (Loop_Batch i ?ks)" m] that by (simp add: consume_evs_move bindR_def split: option.splits sum.splits)
      moreover have "batch_run pl r t (Suc n') (move w1 t (In_Callback i ?ks)) = batch_run pl r t n' (move w1 t (Loop_Batch i ?ks))"
        by (simp add: batch_step thread_step_def)
      ultimately show ?thesis using Some at n Inr x
        by (cases cb) (simp_all add: batch_step [of w] consume_ev_def thread_step_def Let_def)
    qed
  qed
qed

section \<open>Schedules\<close>

text \<open>The threads take steps in the given order.\<close>

fun schedule :: "'c plat \<Rightarrow> addr \<Rightarrow> thread_id list \<Rightarrow> 'c cworld \<Rightarrow> 'c cworld run" where
  "schedule pl r [] w = Some (Inr w)"
| "schedule pl r (t # ts) w = bindR (thread_step pl r t w) (\<lambda>(w', p). schedule pl r ts (move w' t p))"

lemma schedule_append: "schedule pl r (ts @ us) w = bindR (schedule pl r ts w) (schedule pl r us)"
  by (induction ts arbitrary: w) (auto simp: schedule.simps bindR_def split: option.splits sum.splits)

declare schedule.simps [simp del]

lemma both_tested:
  assumes "at w t = Destroy_Enter e k" "events w e = Some ev" "\<not> e_closing ev" "reactors w (e_reactor ev) = Some rc"
    "t \<noteq> r_thread rc"
  shows "schedule pl r [t, t] w = Some (Inr (move w t (Destroy_Mark e False k)))"
  using assms by (simp add: step_ops schedule.simps)

lemma destroy_rest:
  assumes t: "at w t = Destroy_Mark e False k" and ev: "events w e = Some ev" and rc: "reactors w (e_reactor ev) = Some rc"
    "\<not> r_mtx rc" and h: "list_add_tail (lists w) (e + node_off pl) (e_reactor ev + gc_off pl) = Inr h"
  shows "\<exists>w'. schedule pl r [t, t, t, t] w = Some (Inr w') \<and> lists w' = h \<and> reactors w' = reactors w \<and>
    events w' e = Some (ev\<lparr>e_closing := True\<rparr>) \<and> at w' = (at w)(t := resume k) \<and>
    syscalls w' = syscalls w @ [Shutdown (e_fd ev)]"
proof -
  let ?ev = "ev\<lparr>e_closing := True\<rparr>"
  let ?c = "plat_destroy pl (r_id rc) e ?ev"
  let ?k = "fst (call_kernel (put_event w e ?ev) ?c)"
  let ?w = "log_sys ?k [Shutdown (e_fd ev)]"
  have same: "rc\<lparr>r_mtx := False\<rparr> = rc" using rc(2) by (cases rc) simp
  have k: "registered ?k = registered w" "at ?k = at w" by (rule conc_frame; simp)+
  have "add_to_gc_list pl ?w e = Inr (put_reactor (put_reactor ?w (e_reactor ev) (rc\<lparr>r_mtx := True\<rparr>)\<lparr>lists := h\<rparr>) (e_reactor ev) rc)"
    using ev rc h by (simp add: add_to_gc_list_def lock_reactor_def unlock_reactor_def same)
  moreover have "at (log_sys ?k l) = at w" for l using k(2) by (simp add: log_sys_def)
  ultimately show ?thesis using t ev rc k
    by (auto simp: step_ops schedule.simps put_reactor_def)
qed

lemma add_tail_empty:
  assumes "h H = Some \<lparr>lnext = H, lprev = H\<rparr>" "h n = Some nd" "n \<noteq> H"
  shows "list_add_tail h n H = Inr (h(H \<mapsto> \<lparr>lnext = n, lprev = n\<rparr>, n \<mapsto> \<lparr>lnext = H, lprev = H\<rparr>))"
  using assms by (auto simp: list_add_tail_def u_list_add_def get_prev_def set_next_def set_prev_def load_def)

lemma add_tail_again:
  assumes "h H = Some \<lparr>lnext = n, lprev = n\<rparr>" "h n = Some \<lparr>lnext = H, lprev = H\<rparr>" "n \<noteq> H"
  shows "list_add_tail h n H = Inr (h(n \<mapsto> \<lparr>lnext = n, lprev = n\<rparr>))"
  using assms by (auto simp: list_add_tail_def u_list_add_def get_prev_def set_next_def set_prev_def load_def)

lemma gc_corrupt:
  fixes w :: "('c, 'z) rworld_scheme"
  assumes "lists w (r + gc_off pl) = Some \<lparr>lnext = e + node_off pl, lprev = e + node_off pl\<rparr>"
    "lists w (e + node_off pl) = Some \<lparr>lnext = e + node_off pl, lprev = e + node_off pl\<rparr>" "e + node_off pl \<noteq> r + gc_off pl"
    "events w e = Some ev" "e_closing ev" "e_reactor ev = r" "reactors w r = Some rc" "\<not> r_mtx rc" "r_thread rc = self"
  shows "\<exists>w1 w2. lock_reactor w r = Inr w1 \<and> gc_step pl self e w1 = Inr w2 \<and> events w2 e = None \<and>
    lists w2 (e + node_off pl) = None \<and> syscalls w2 = syscalls w @ [Close (e_fd ev)] \<and>
    posixc_reactor_gc pl self w r = Some (Inl Bad_Pointer)"
proof -
  let ?w = "put_reactor w r (rc\<lparr>r_mtx := True\<rparr>)" and ?n = "e + node_off pl"
  have lock: "lock_reactor w r = Inr ?w" using assms(7,8) by (simp add: lock_reactor_def)
  have del: "list_del (lists w) ?n = Inr ((lists w)(?n \<mapsto> \<lparr>lnext = NULL, lprev = NULL\<rparr>))"
    using assms(2) by (simp add: list_del_def u_list_del_def get_prev_def get_next_def set_next_def set_prev_def load_def)
  let ?w1 = "?w\<lparr>lists := (lists w)(?n \<mapsto> \<lparr>lnext = NULL, lprev = NULL\<rparr>)\<rparr>"
  have "posixc_event_destroy pl self ?w1 e = posixc_event_release pl ?w1 e"
    using destroy_closing [of ?w1 e ev] assms by simp
  then obtain w2 where w2: "gc_step pl self e ?w = Inr w2" "lists w2 ?n = None" "events w2 e = None"
    "syscalls w2 = syscalls w @ [Close (e_fd ev)]"
    using release_ok [of ?w1 e ev pl] assms(4) del by (simp add: gc_step_def)
  have "for_each_entry_safe_loop lists (node_off pl) (gc_step pl self) (r + gc_off pl) e e ?w = Some (Inl Bad_Pointer)"
    using w2 assms(3) by (simp add: for_each_entry_safe_loop.simps get_next_def load_def)
  then have "posixc_reactor_gc pl self w r = Some (Inl Bad_Pointer)" using assms(1-3,7,8) lock
    by (simp add: posixc_reactor_gc_def list_empty_def list_for_each_entry_safe_def get_next_def load_def)
  then show ?thesis using lock w2 by blast
qed

lemma dlist_Nil: "dlist h H [] \<Longrightarrow> h H = Some \<lparr>lnext = H, lprev = H\<rparr>"
  using dlist_next_head [of h H "[]"] dlist_prev_head [of h H "[]"]
  by (auto simp: get_next_def get_prev_def load_def bindE_def split: option.splits)

lemma started_reaches:
  assumes "posixc_reactor_create pl w fd (Some r) (Some t0) = Inr (w0, Some r')" "events w = Map.empty"
    and "(cstep pl r t0)\<^sup>*\<^sup>* (started t0 w0) w1"
  shows "\<exists>es. conc_inv pl r t0 w1 es"
proof -
  have "0 \<le> fd" using assms(1) by (auto simp: posixc_reactor_create_def split: if_splits)
  then have "events w0 = Map.empty" using reactor_create_returns [of fd pl w r t0] assms(1,2) by auto
  then have "conc_inv pl r t0 (started t0 w0) []"
    using reactor_create_ok [OF assms(1,2)] by (auto intro: started_ok)
  from csteps_ok [OF assms(3) this] show ?thesis .
qed

text \<open>What two calls of \<open>posixc_event_destroy\<close> on the same event leave, when both pass the test: the descriptor is shut
  down twice, and the node of the event, added twice, is a cycle of its own, which the head points to.\<close>

definition queued_twice :: "'c plat \<Rightarrow> addr \<Rightarrow> addr \<Rightarrow> 'c cworld \<Rightarrow> posixc_event \<Rightarrow> 'c cworld \<Rightarrow> bool" where
  "queued_twice pl r e w ev w' \<longleftrightarrow> events w' e = Some ev \<and> e_closing ev \<and>
     syscalls w' = syscalls w @ [Shutdown (e_fd ev), Shutdown (e_fd ev)] \<and>
     lists w' (node_of pl e) = Some \<lparr>lnext = node_of pl e, lprev = node_of pl e\<rparr> \<and>
     lists w' (r + gc_off pl) = Some \<lparr>lnext = node_of pl e, lprev = node_of pl e\<rparr>"

lemma destroy_race_core:
  assumes d: "dlist (lists w) (r + gc_off pl) []" and ev: "events w e = Some ev" "\<not> e_closing ev" "e_reactor ev = r"
    and rc: "reactors w r = Some rc" "r_thread rc = t0" "\<not> r_mtx rc"
    and n: "e + node_off pl \<in> dom (lists w)" "e + node_off pl \<noteq> r + gc_off pl"
    and t: "t1 \<noteq> t0" "t2 \<noteq> t0" "t1 \<noteq> t2" "at w t1 = Destroy_Enter e Return" "at w t2 = Destroy_Enter e Return" "at w t0 = Last_Gc"
  shows "\<exists>w'. schedule pl r ([t1, t1] @ [t2, t2] @ [t1, t1, t1, t1] @ [t2, t2, t2, t2]) w = Some (Inr w') \<and>
    queued_twice pl r e w (ev\<lparr>e_closing := True\<rparr>) w' \<and> reactors w' = reactors w \<and>
    at w' = (at w)(t1 := Idle, t2 := Idle)"
proof -
  let ?H = "r + gc_off pl" and ?n = "e + node_off pl" and ?ev = "ev\<lparr>e_closing := True\<rparr>"
  let ?m = "Destroy_Mark e False Return"
  obtain nd where nd: "lists w ?n = Some nd" using n(1) by auto
  let ?w1 = "move w t1 ?m"
  let ?w2 = "move ?w1 t2 ?m"
  have 1: "schedule pl r [t1, t1] w = Some (Inr ?w1)" using both_tested [of w t1] t ev rc by auto
  have 2: "schedule pl r [t2, t2] ?w1 = Some (Inr ?w2)" using both_tested [of ?w1 t2] t ev rc by auto
  let ?h = "(lists w)(?H \<mapsto> \<lparr>lnext = ?n, lprev = ?n\<rparr>, ?n \<mapsto> \<lparr>lnext = ?H, lprev = ?H\<rparr>)"
  have q1: "at ?w2 t1 = ?m" "events ?w2 e = Some ev" "reactors ?w2 (e_reactor ev) = Some rc"
    "list_add_tail (lists ?w2) ?n (e_reactor ev + gc_off pl) = Inr ?h"
    using add_tail_empty [OF dlist_Nil [OF d] nd n(2)] t ev rc by simp_all
  obtain w3 where 3: "schedule pl r [t1, t1, t1, t1] ?w2 = Some (Inr w3)" "lists w3 = ?h" "reactors w3 = reactors w"
    "events w3 e = Some ?ev" "at w3 = (at ?w2)(t1 := resume Return)" "syscalls w3 = syscalls w @ [Shutdown (e_fd ev)]"
    using destroy_rest [OF q1(1-3) rc(3) q1(4), of r] by (auto simp: move_def)
  have "list_add_tail (lists w3) ?n ?H = Inr (?h(?n \<mapsto> \<lparr>lnext = ?n, lprev = ?n\<rparr>))"
    unfolding 3(2) by (rule add_tail_again) (use n(2) in auto)
  then have q2: "at w3 t2 = ?m" "reactors w3 (e_reactor ?ev) = Some rc"
    "list_add_tail (lists w3) ?n (e_reactor ?ev + gc_off pl) = Inr (?h(?n \<mapsto> \<lparr>lnext = ?n, lprev = ?n\<rparr>))"
    using 3 t ev rc by simp_all
  obtain w4 where 4: "schedule pl r [t2, t2, t2, t2] w3 = Some (Inr w4)" "lists w4 = ?h(?n \<mapsto> \<lparr>lnext = ?n, lprev = ?n\<rparr>)"
    "reactors w4 = reactors w" "events w4 e = Some ?ev" "at w4 = (at w3)(t2 := resume Return)"
    "syscalls w4 = syscalls w @ [Shutdown (e_fd ev), Shutdown (e_fd ev)]"
    using destroy_rest [OF q2(1) 3(4) q2(2) rc(3) q2(3), of r] 3(3,6) by auto
  have "at w4 = (at w)(t1 := Idle, t2 := Idle)" using 3(5) 4(5) t(3) by (auto simp: move_def)
  moreover have "queued_twice pl r e w ?ev w4" using 4(2,4,6) n(2) by (simp add: queued_twice_def node_of_def)
  ultimately show ?thesis using 4(3) unfolding schedule_append 1 bindR_simps 2 3(1) 4(1) by blast
qed

lemma submit_race_core:
  assumes own: "gc_own pl r X w es" and e: "events w e = Some ev" "\<not> e_closing ev" and rc: "reactors w r = Some rc" "r_thread rc = t0"
    and t: "t1 \<noteq> t0" "t2 \<noteq> t0" "t1 \<noteq> t2" "at w t1 = Submit_Test e evs Return" "at w t2 = Destroy_Enter e Return" "at w t0 = Last_Gc"
  shows "\<exists>w1 w2. solo pl r t2 6 (move w t1 (Submit_Locked e evs Return)) = Some (Inr w1) \<and> thread_step pl r t0 w1 = Some (Inr (w2, Ended)) \<and>
    events w1 e \<noteq> None \<and> events w2 e = None \<and> thread_step pl r t1 (move w2 t0 Ended) = Some (Inl Bad_Pointer)"
proof -
  let ?w = "move w t1 (Submit_Locked e evs Return)"
  have own': "gc_own pl r X ?w es" using own by simp
  obtain w1 where w1: "posixc_event_destroy pl t2 ?w e = Inr w1" "gc_own pl r X w1 (es @ [e])" "reactors w1 = reactors w"
   "rworld.more w1 = rworld.more ?w"
    using destroy_user [OF own', of e ev rc t2] e rc t by auto
  let ?w1 = "(move w1 t2 Idle)\<lparr>registered := registered w - {e}\<rparr>"
  have m: "events ?w1 e \<noteq> None" using w1(2) by (auto elim!: gc_invE simp: event_own_def)
  have 1: "solo pl r t2 6 ?w = Some (Inr ?w1)"
    using destroy_alone [of ?w t2 e Return pl r] t w1(1) e by (simp add: forgets_def)
  have at: "at ?w1 t0 = Last_Gc" "at ?w1 t1 = Submit_Locked e evs Return" using conc_frame [OF w1(4)] t by simp_all
  have "gc_own pl r X ?w1 (es @ [e])" using w1(2) by simp
  then obtain w2 where w2: "posixc_reactor_gc pl t0 ?w1 r = Some (Inr w2)" "events w2 = (events ?w1) |` (- set (es @ [e]))"
    "rworld.more w2 = rworld.more ?w1" using reactor_gc_ok [of pl r X ?w1 "es @ [e]" rc] rc w1(3) by auto
  have 2: "thread_step pl r t0 ?w1 = Some (Inr (w2, Ended))" using at(1) w2(1) by (simp add: thread_step_def)
  have "at (move w2 t0 Ended) t1 = Submit_Locked e evs Return" "events (move w2 t0 Ended) e = None"
    using conc_frame [OF w2(3)] at(2) t w2(2) by (simp_all add: restrict_map_def)
  then have "events w2 e = None" "thread_step pl r t1 (move w2 t0 Ended) = Some (Inl Bad_Pointer)"
    by (simp_all add: thread_step_def submit_locked_def lock_event_def get_event_def)
  then show ?thesis using 1 2 m by blast
qed

lemma callback_pending_core:
  assumes own: "gc_own pl r X w es" and e: "events w e = Some ev" "\<not> e_closing ev" and rc: "reactors w r = Some rc" "r_thread rc = t0"
    and t: "at w t0 = Destroy_Enter e (Callback i ((e, bits) # ks))"
  shows "\<exists>w1. solo pl r t0 6 w = Some (Inr w1) \<and> schedule pl r [t0, t0] w1 = Some (Inl Bad_Pointer)"
proof -
  obtain w1 where w1: "posixc_event_destroy pl t0 w e = Inr w1" "events w1 = (events w)(e := None)"
    using destroy_reactor [OF own e rc(1)] rc(2) by auto
  let ?w1 = "(move w1 t0 (In_Callback i ((e, bits) # ks)))\<lparr>registered := registered w - {e}\<rparr>"
  have "solo pl r t0 6 w = Some (Inr ?w1)" using destroy_alone [OF t, of pl r] w1(1) e by (simp add: forgets_def)
  moreover have "schedule pl r [t0, t0] ?w1 = Some (Inl Bad_Pointer)" using w1(2)
    by (simp add: schedule.simps thread_step_def posixc_event_consume_def lock_event_def get_event_def)
  ultimately show ?thesis by blast
qed


section \<open>Properties\<close>

text \<open>For the witnesses: an event at address 100, created on the reactor at address 1000 before its thread has
  taken a step.\<close>

lemma demo_reaches:
  "\<exists>w ev. (cstep demo_plat 1000 7)\<^sup>*\<^sup>* (started 7 demo_reactor) w \<and> events w = [100 \<mapsto> ev] \<and> \<not> e_closing ev \<and>
    e_cb ev = cb \<and> at w = (\<lambda>t. if t = 7 then Loop_Check 0 else Idle) \<and> registered w = {100} \<and>
    reactors w = reactors demo_reactor \<and> gc_inv demo_plat 1000 w []"
proof -
  let ?s = "started 7 demo_reactor"
  have s: "events ?s = Map.empty" "at ?s = (\<lambda>t. if t = 7 then Loop_Check 0 else Idle)" "registered ?s = {}"
    "reactors ?s = reactors demo_reactor" "lists ?s = lists demo_reactor" "plat_answer ?s = (\<lambda>n. True)"
    by (simp_all add: started_def rworld.defs demo_defs)
  have "gc_inv demo_plat 1000 ?s []" using reactor_create_ok [OF demo_create demo_no_events] s
    by (simp add: gc_own_def event_own_def)
  then have "\<exists>w' res. posixc_event_create demo_plat ?s (Some 100) 1000 9 cb 0 SOCK_EV = Inr (w', res) \<and> 
     gc_inv demo_plat 1000 w' [] \<and> reactors w' = reactors ?s \<and> rworld.more w' = rworld.more ?s \<and> res = Some 100 \<and> 
     events w' = [100 \<mapsto> new_event 1000 9 cb 0 SOCK_EV]"
    using event_create_ok [of demo_plat 1000 "{}" ?s "[]" 100 _ 9 cb 0 SOCK_EV] s by (auto simp: demo_defs node_of_def)
  then obtain w' where w': "posixc_event_create demo_plat ?s (Some 100) 1000 9 cb 0 SOCK_EV = Inr (w', Some 100)"
    "gc_inv demo_plat 1000 w' []" "reactors w' = reactors ?s" "rworld.more w' = rworld.more ?s"
     "events w' = [100 \<mapsto> new_event 1000 9 cb 0 SOCK_EV]" by auto
  let ?w = "w'\<lparr>registered := insert 100 (registered w')\<rparr>"
  have "cstep demo_plat 1000 7 ?s ?w"
    using lstep.create [THEN cstepI, OF _ _ _ w'(1), of 0 Return] s by (simp add: node_of_def demo_defs)
  moreover have "registered ?w = {100}" "at ?w = at ?s" using conc_frame [OF w'(4)] s by auto
  ultimately show ?thesis using w' s(2,4) by (intro exI [of _ ?w] exI) (auto simp: new_event_def)
qed

lemma demo_closing:
  "\<exists>w. (cstep demo_plat 1000 7)\<^sup>*\<^sup>* (started 7 demo_reactor) w \<and> may_destroy w 100 \<and>
    at w = (\<lambda>t. if t = 7 then Last_Gc else Idle) \<and> list_empty (lists w) 1016 = Inr True"
proof -
  obtain w ev where w: "(cstep demo_plat 1000 7)\<^sup>*\<^sup>* (started 7 demo_reactor) w" "events w = [100 \<mapsto> ev]" "\<not> e_closing ev"
    "at w = (\<lambda>t. if t = 7 then Loop_Check 0 else Idle)" "reactors w = reactors demo_reactor" "gc_inv demo_plat 1000 w []"
    using demo_reaches [of None] by blast
  obtain rc where rc: "reactors w 1000 = Some rc" using w(6) by (rule gc_invE)
  let ?c = "w\<lparr>reactors := (reactors w)(1000 \<mapsto> rc\<lparr>r_closing := True\<rparr>)\<rparr>"
  have "cstep demo_plat 1000 7 w ?c" using rc by (rule lstep.close [THEN cstepI])
  moreover have "thread_step demo_plat 1000 7 ?c = Some (Inr (?c, Last_Gc))" using w(4) by (simp add: thread_step_def)
  then have "cstep demo_plat 1000 7 ?c (move ?c 7 Last_Gc)" by (rule lstep.continue [THEN cstepI])
  moreover have "list_empty (lists w) 1016 = Inr True"
    using w(6) kl.empty_law [of "lists w" 1016 "[]"] by (simp add: gc_own_def demo_plat_def)
  ultimately show ?thesis using w(1-4)
    by (intro exI [of _ "move ?c 7 Last_Gc"]) (auto simp: may_destroy_def intro: rtranclp.rtrancl_into_rtrancl)
qed

text \<open>C1: from the creation of a reactor on, the threads of a program interleave in any way: they create,
  submit and destroy events, the reactor's thread waits, runs callbacks and collects. As long as no thread
  destroys an event that another is using or has destroyed, and no callback one with a report still to come in
  the same batch, every thread inside the library has a next step that succeeds: none reads or writes freed memory or locks
  a mutex twice. In particular the reactor's thread may look at reports for events which user threads have destroyed since the wait.\<close>

theorem threads_safe:
  assumes "posixc_reactor_create pl w fd (Some r) (Some t0) = Inr (w0, Some r')" "events w = Map.empty"
    and "(cstep pl r t0)\<^sup>*\<^sup>* (started t0 w0) w1" "\<not> waits (at w1 t)"
  shows "\<exists>w2 p. thread_step pl r t w1 = Some (Inr (w2, p))"
  using started_reaches [OF assms(1-3)] thread_step_ok [OF _ assms(4)] by blast

theorem threads_safe_witness:
  "\<exists>w1 w2. (cstep demo_plat 1000 7)\<^sup>*\<^sup>* (started 7 demo_reactor) w1 \<and> at w1 1 = Destroy_Enter 100 Return \<and>
    thread_step demo_plat 1000 1 w1 = Some (Inr w2)"
proof -
  obtain w where w: "(cstep demo_plat 1000 7)\<^sup>*\<^sup>* (started 7 demo_reactor) w" "may_destroy w 100"
    "at w = (\<lambda>t. if t = 7 then Last_Gc else Idle)" using demo_closing by blast
  let ?w = "move w 1 (Destroy_Enter 100 Return)"
  have "cstep demo_plat 1000 7 w ?w" using w(2,3) by (intro lstep.destroy [THEN cstepI]) simp_all
  with w(1) have r: "(cstep demo_plat 1000 7)\<^sup>*\<^sup>* (started 7 demo_reactor) ?w" by (rule rtranclp.rtrancl_into_rtrancl)
  have "\<exists>w2 p. thread_step demo_plat 1000 1 ?w = Some (Inr (w2, p))"
    by (rule threads_safe [OF demo_create demo_no_events r]) simp
  then show ?thesis using r by auto
qed

text \<open>C6: in every such state the list of the reactor holds, without repetition, exactly the closing events whose \<open>posixc_event_destroy\<close> has
  returned: an event that is closing and not in the list is the one some thread is destroying, past the
  assignment to \<open>closing\<close>; the kernel reports no event of the list; and no thread uses one.\<close>

theorem threads_gc_list:
  assumes "posixc_reactor_create pl w fd (Some r) (Some t0) = Inr (w0, Some r')" "events w = Map.empty"
    and "(cstep pl r t0)\<^sup>*\<^sup>* (started t0 w0) w1"
  shows "\<exists>es. dlist (lists w1) (r + gc_off pl) (map (node_of pl) es) \<and> distinct es \<and> set es \<subseteq> dom (events w1) \<and>
    (\<forall>e ev. events w1 e = Some ev \<longrightarrow> (e_closing ev \<longleftrightarrow> e \<in> set es \<or> (\<exists>t. marked (at w1 t) = Some e))) \<and>
    registered w1 \<subseteq> dom (events w1) - set es \<and> (\<forall>t e. uses (at w1 t) = Some e \<longrightarrow> e \<in> dom (events w1) - set es)"
proof -
  obtain es where inv: "conc_inv pl r t0 w1 es" using started_reaches [OF assms] by blast
  obtain rc where own: "gc_own pl r (marks (at w1)) w1 es"
    and ok: "threads_ok t0 (dom (events w1)) (registered w1) es (at w1)" using inv by (rule conc_invE)
  have "uses (at w1 t) = Some e \<Longrightarrow> e \<in> dom (events w1) - set es" for t e
    using conc_thread [OF inv, of t] by (auto simp: location_ok_def)
  moreover have "e_closing ev \<longleftrightarrow> e \<in> set es \<or> (\<exists>t. marked (at w1 t) = Some e)" if "events w1 e = Some ev" for e ev
    using own that by (simp add: gc_own_def event_own_def marks_def)
  ultimately show ?thesis using own gc_inv_distinct [OF own] threads_okD(1) [OF ok]
    by (intro exI [of _ es]) (auto simp: gc_own_def event_own_def)
qed

theorem threads_gc_list_witness:
  "\<exists>w1 es. (cstep demo_plat 1000 7)\<^sup>*\<^sup>* (started 7 demo_reactor) w1 \<and> at w1 7 = Last_Gc \<and>
    dlist (lists w1) (1000 + gc_off demo_plat) (map (node_of demo_plat) es) \<and> distinct es"
proof -
  obtain w where w: "(cstep demo_plat 1000 7)\<^sup>*\<^sup>* (started 7 demo_reactor) w"
    "at w = (\<lambda>t. if t = 7 then Last_Gc else Idle)" using demo_closing by blast
  from threads_gc_list [OF demo_create demo_no_events w(1)] w show ?thesis by auto
qed

text \<open>A call of \<open>posixc_event_destroy\<close> or \<open>posixc_event_submit\<close> that no other thread interrupts does, step by step,
  exactly what the function does as a whole, failures included, and returns in at most six steps (two for
  \<open>posixc_event_submit\<close>). A batch that the reactor's thread works off without interruption, with callbacks that return at
  once, is the loop over the entries in \<open>posixc_reactor_plat_threadfn\<close>.\<close>

lemma calls_alone:
  "(at w t = Loop_Batch i (concat (map report kes)) \<longrightarrow> batch_run pl r t (2 * length kes + 1) w =
      bindR (consume_evs (\<lambda>c e b a w. Some (Inr w)) kes w) (\<lambda>w'. Some (Inr (move w' t (Loop_Batch i []))))) \<and>
   (at w t = Destroy_Enter e k \<longrightarrow> solo pl r t 6 w = Some (bindE (posixc_event_destroy pl t w e)
      (\<lambda>w'. Inr ((move w' t (resume k))\<lparr>registered := registered w - forgets w e\<rparr>)))) \<and>
   (at w t = Submit_Test e evs k \<longrightarrow> solo pl r t 2 w = Some (bindE (posixc_event_submit pl w e evs)
      (\<lambda>(w', ok). Inr (move w' t (resume k)))))"
  using destroy_alone [of w t e k pl r] submit_alone [of w t e evs k pl r] batch_alone [of w t i kes "2 * length kes + 1" pl r]
  by (intro conjI impI) simp_all

lemma calls_alone_example:
  "\<exists>w w'. (cstep demo_plat 1000 7)\<^sup>*\<^sup>* (started 7 demo_reactor) w \<and> at w 1 = Destroy_Enter 100 Return \<and>
    solo demo_plat 1000 1 6 w = Some (Inr w') \<and> at w' 1 = Idle \<and> registered w' = registered w - {100}"
proof -
  obtain w where w: "(cstep demo_plat 1000 7)\<^sup>*\<^sup>* (started 7 demo_reactor) w" "may_destroy w 100"
    "at w = (\<lambda>t. if t = 7 then Last_Gc else Idle)" using demo_closing by blast
  let ?w = "move w 1 (Destroy_Enter 100 Return)"
  have "cstep demo_plat 1000 7 w ?w" using w(2,3) by (intro lstep.destroy [THEN cstepI]) simp_all
  with w(1) have r: "(cstep demo_plat 1000 7)\<^sup>*\<^sup>* (started 7 demo_reactor) ?w" by (rule rtranclp.rtrancl_into_rtrancl)
  obtain es where inv: "conc_inv demo_plat 1000 7 ?w es" using started_reaches [OF demo_create demo_no_events r] by blast
  obtain rc where rc: "gc_own demo_plat 1000 (marks (at ?w)) ?w es" "reactors ?w 1000 = Some rc" "r_thread rc = 7"
    using inv by (rule conc_invE)
  obtain ev where ev: "events ?w 100 = Some ev" "\<not> e_closing ev" using w(2) by (auto simp: may_destroy_def)
  obtain w' where w': "posixc_event_destroy demo_plat 1 ?w 100 = Inr w'"
    using destroy_user [OF rc(1) ev rc(2), of 1] rc(3) by auto
  let ?v = "(move w' 1 Idle)\<lparr>registered := registered ?w - {100}\<rparr>"
  have "solo demo_plat 1000 1 6 ?w = Some (Inr ?v)"
    using calls_alone [of ?w 1 _ _ demo_plat 1000 100 Return] w' ev by (simp add: forgets_def)
  then show ?thesis by (intro exI [of _ ?w] exI [of _ ?v] conjI) (use r in simp_all)
qed

text \<open>C23: a user thread calls \<open>posixc_event_destroy\<close> on an open event no thread uses yet, a second one too, and both test \<open>e->closing\<close>
  before either sets it; the reactor's list is empty and its thread is before its last collection. Both calls return, the
  descriptor is shut down twice, and the list is corrupt: the node of the event points to itself, in a cycle that the head is
  not part of. The collection takes the node out and releases the event, closing the descriptor, and then, still in its
  loop, reads the node in freed memory.\<close>

theorem destroy_race:
  assumes "posixc_reactor_create pl w fd (Some r) (Some t0) = Inr (w0, Some r')" "events w = Map.empty"
    and "(cstep pl r t0)\<^sup>*\<^sup>* (started t0 w0) w1"
    and e: "may_destroy w1 e" "list_empty (lists w1) (r + gc_off pl) = Inr True"
    and t: "at w1 t1 = Idle" "at w1 t2 = Idle" "t1 \<noteq> t2" "at w1 t0 = Last_Gc"
  shows "\<exists>w2 wl w3 ev. schedule pl r ([t1, t1] @ [t2, t2] @ [t1, t1, t1, t1] @ [t2, t2, t2, t2])
      (move (move w1 t1 (Destroy_Enter e Return)) t2 (Destroy_Enter e Return)) = Some (Inr w2) \<and> at w2 = at w1 \<and>
    events w2 e = Some ev \<and> e_closing ev \<and> syscalls w2 = syscalls w1 @ [Shutdown (e_fd ev), Shutdown (e_fd ev)] \<and>
    lists w2 (node_of pl e) = Some \<lparr>lnext = node_of pl e, lprev = node_of pl e\<rparr> \<and>
    lists w2 (r + gc_off pl) = Some \<lparr>lnext = node_of pl e, lprev = node_of pl e\<rparr> \<and>
    lock_reactor w2 r = Inr wl \<and> gc_step pl t0 e wl = Inr w3 \<and> events w3 e = None \<and> lists w3 (node_of pl e) = None \<and>
    syscalls w3 = syscalls w2 @ [Close (e_fd ev)] \<and> schedule pl r [t0] w2 = Some (Inl Bad_Pointer)"
proof -
  let ?w = "move (move w1 t1 (Destroy_Enter e Return)) t2 (Destroy_Enter e Return)"
  obtain es where inv: "conc_inv pl r t0 w1 es" using started_reaches [OF assms(1-3)] by blast
  obtain rc where own: "gc_own pl r (marks (at w1)) w1 es" and rc: "reactors w1 r = Some rc" "r_thread rc = t0"
    using inv by (rule conc_invE)
  have unl: "\<not> r_mtx rc" and d: "dlist (lists w1) (r + gc_off pl) (map (node_of pl) es)"
    and eo: "event_own pl r (marks (at w1)) w1 es" using own rc(1) by (auto elim: gc_invE)
  have "es = []" using kl.empty_law [OF d] e(2) by simp
  obtain ev where ev: "events w1 e = Some ev" "\<not> e_closing ev" using e(1) by (auto simp: may_destroy_def)
  note evd = event_invD [OF eo ev(1)]
  have ne: "t1 \<noteq> t0" "t2 \<noteq> t0" using t by auto
  let ?ev = "ev\<lparr>e_closing := True\<rparr>"
  have "\<exists>w'. schedule pl r ([t1, t1] @ [t2, t2] @ [t1, t1, t1, t1] @ [t2, t2, t2, t2]) ?w = Some (Inr w') \<and>
      queued_twice pl r e ?w ?ev w' \<and> reactors w' = reactors ?w \<and> at w' = (at ?w)(t1 := Idle, t2 := Idle)"
    using d \<open>es = []\<close> ev evd(1,4,5) rc unl t ne
    by (intro destroy_race_core [where ev = ev and rc = rc]) (auto simp: node_of_def)
  moreover have "(at ?w)(t1 := Idle, t2 := Idle) = at w1" using t by (auto simp: move_def fun_eq_iff)
  ultimately obtain w2 where w2: "schedule pl r ([t1, t1] @ [t2, t2] @ [t1, t1, t1, t1] @ [t2, t2, t2, t2]) ?w = Some (Inr w2)"
    "queued_twice pl r e w1 ?ev w2" "reactors w2 r = Some rc" "at w2 = at w1"
    using rc by (auto simp: queued_twice_def)
  have "\<exists>wl w3. lock_reactor w2 r = Inr wl \<and> gc_step pl t0 e wl = Inr w3 \<and> events w3 e = None \<and>
      lists w3 (e + node_off pl) = None \<and> syscalls w3 = syscalls w2 @ [Close (e_fd ?ev)] \<and>
      posixc_reactor_gc pl t0 w2 r = Some (Inl Bad_Pointer)"
    using w2(2,3) evd(1,5) rc(2) unl
    by (intro gc_corrupt [where ev = ?ev and rc = rc]) (simp_all add: queued_twice_def node_of_def)
  then obtain wl w3 where w3: "lock_reactor w2 r = Inr wl" "gc_step pl t0 e wl = Inr w3" "events w3 e = None"
    "lists w3 (node_of pl e) = None" "syscalls w3 = syscalls w2 @ [Close (e_fd ?ev)]"
    "posixc_reactor_gc pl t0 w2 r = Some (Inl Bad_Pointer)" by (auto simp: node_of_def)
  then have "schedule pl r [t0] w2 = Some (Inl Bad_Pointer)" using w2(4) t(4) by (simp add: thread_step_def schedule.simps)
  then show ?thesis using w2 w3 unfolding queued_twice_def by blast
qed

theorem destroy_race_witness:
  "\<exists>w1 w2 ev. (cstep demo_plat 1000 7)\<^sup>*\<^sup>* (started 7 demo_reactor) w1 \<and>
    schedule demo_plat 1000 [1, 1, 2, 2, 1, 1, 1, 1, 2, 2, 2, 2]
      (move (move w1 1 (Destroy_Enter 100 Return)) 2 (Destroy_Enter 100 Return)) = Some (Inr w2) \<and>
    events w2 100 = Some ev \<and> syscalls w2 = syscalls w1 @ [Shutdown (e_fd ev), Shutdown (e_fd ev)] \<and>
    schedule demo_plat 1000 [7] w2 = Some (Inl Bad_Pointer)"
proof -
  obtain w where w: "(cstep demo_plat 1000 7)\<^sup>*\<^sup>* (started 7 demo_reactor) w" "may_destroy w 100"
    "at w = (\<lambda>t. if t = 7 then Last_Gc else Idle)" "list_empty (lists w) 1016 = Inr True" using demo_closing by blast
  have "list_empty (lists w) (1000 + gc_off demo_plat) = Inr True" using w(4) by (simp add: demo_plat_def)
  moreover have "at w 1 = Idle" "at w 2 = Idle" "(1 :: nat) \<noteq> 2" "at w 7 = Last_Gc" using w(3) by simp_all
  ultimately obtain w2 ev where "schedule demo_plat 1000 ([1, 1] @ [2, 2] @ [1, 1, 1, 1] @ [2, 2, 2, 2])
      (move (move w 1 (Destroy_Enter 100 Return)) 2 (Destroy_Enter 100 Return)) = Some (Inr w2)"
    "events w2 100 = Some ev" "syscalls w2 = syscalls w @ [Shutdown (e_fd ev), Shutdown (e_fd ev)]"
    "schedule demo_plat 1000 [7] w2 = Some (Inl Bad_Pointer)"
    using destroy_race [OF demo_create demo_no_events w(1,2), of 1 2] by blast
  then show ?thesis using w(1) by (intro exI [of _ w] exI [of _ w2] exI [of _ ev]) simp
qed

text \<open>C24: an open event which no thread uses yet, two user threads outside the library and the reactor's thread before its last
  collection. The first user thread calls \<open>posixc_event_submit\<close> and has seen that the event is not closing; before it takes the mutex of
  the event, the second one destroys the event, to the end of its call, and the reactor's thread collects it, so that
  the event is freed: the first thread then locks a mutex in freed memory.\<close>

theorem submit_race:
  assumes "posixc_reactor_create pl w fd (Some r) (Some t0) = Inr (w0, Some r')" "events w = Map.empty"
    and "(cstep pl r t0)\<^sup>*\<^sup>* (started t0 w0) w1" and e: "may_destroy w1 e"
    and t: "at w1 t1 = Idle" "at w1 t2 = Idle" "t1 \<noteq> t2" "at w1 t0 = Last_Gc"
  shows "\<exists>w2 w3 w4. schedule pl r [t1] (move (move w1 t1 (Submit_Test e evs Return)) t2 (Destroy_Enter e Return)) = Some (Inr w2) \<and>
    solo pl r t2 6 w2 = Some (Inr w3) \<and> schedule pl r [t0] w3 = Some (Inr w4) \<and> events w3 e \<noteq> None \<and> events w4 e = None \<and>
    schedule pl r [t1] w4 = Some (Inl Bad_Pointer)"
proof -
  let ?w = "move (move w1 t1 (Submit_Test e evs Return)) t2 (Destroy_Enter e Return)"
  obtain es where inv: "conc_inv pl r t0 w1 es" using started_reaches [OF assms(1-3)] by blast
  obtain rc where own: "gc_own pl r (marks (at w1)) w1 es" and rc: "reactors w1 r = Some rc" "r_thread rc = t0"
    using inv by (rule conc_invE)
  obtain ev where ev: "events w1 e = Some ev" "\<not> e_closing ev" using e by (auto simp: may_destroy_def)
  have ne: "t1 \<noteq> t0" "t2 \<noteq> t0" using t by auto
  have "schedule pl r [t1] ?w = Some (Inr (move ?w t1 (Submit_Locked e evs Return)))"
    using ev t(3) by (simp add: schedule.simps thread_step_def)
  moreover obtain w3 w4 where "solo pl r t2 6 (move ?w t1 (Submit_Locked e evs Return)) = Some (Inr w3)"
    "thread_step pl r t0 w3 = Some (Inr (w4, Ended))" "events w3 e \<noteq> None" "events w4 e = None"
    "thread_step pl r t1 (move w4 t0 Ended) = Some (Inl Bad_Pointer)"
    using submit_race_core [of pl r "marks (at w1)" ?w es e ev rc t0 t1 t2 evs] own rc ev ne t by auto
  ultimately show ?thesis by (auto simp: schedule.simps)
qed

theorem submit_race_witness:
  "\<exists>w1 w2 w3 w4. (cstep demo_plat 1000 7)\<^sup>*\<^sup>* (started 7 demo_reactor) w1 \<and>
    schedule demo_plat 1000 [1] (move (move w1 1 (Submit_Test 100 0 Return)) 2 (Destroy_Enter 100 Return)) = Some (Inr w2) \<and>
    solo demo_plat 1000 2 6 w2 = Some (Inr w3) \<and> schedule demo_plat 1000 [7] w3 = Some (Inr w4) \<and> events w4 100 = None \<and>
    schedule demo_plat 1000 [1] w4 = Some (Inl Bad_Pointer)"
proof -
  obtain w where w: "(cstep demo_plat 1000 7)\<^sup>*\<^sup>* (started 7 demo_reactor) w" "may_destroy w 100"
    "at w = (\<lambda>t. if t = 7 then Last_Gc else Idle)" using demo_closing by blast
  have "\<exists>w2 w3 w4. schedule demo_plat 1000 [1] (move (move w 1 (Submit_Test 100 0 Return)) 2 (Destroy_Enter 100 Return)) =
      Some (Inr w2) \<and> solo demo_plat 1000 2 6 w2 = Some (Inr w3) \<and> schedule demo_plat 1000 [7] w3 = Some (Inr w4) \<and>
      events w4 100 = None \<and> schedule demo_plat 1000 [1] w4 = Some (Inl Bad_Pointer)"
    using submit_race [OF demo_create demo_no_events w(1,2), of 1 2 0] w(3) by (simp; blast)
  then show ?thesis using w(1) by (elim exE conjE) (intro exI conjI, assumption+)
qed

text \<open>C25: the reactor's thread is in a callback and the next report of the same batch is for an open event which no thread uses, such as the event
  of the callback itself when it is both readable and writable. If the callback destroys it, the event is freed at once and the
  thread reads freed memory as soon as the callback has returned.\<close>

theorem callback_destroys_pending:
  assumes "posixc_reactor_create pl w fd (Some r) (Some t0) = Inr (w0, Some r')" "events w = Map.empty"
    and "(cstep pl r t0)\<^sup>*\<^sup>* (started t0 w0) w1" "at w1 t0 = In_Callback i ((e, bits) # ks)" "may_destroy w1 e"
  shows "\<exists>w2. solo pl r t0 6 (move w1 t0 (Destroy_Enter e (Callback i ((e, bits) # ks)))) = Some (Inr w2) \<and>
    schedule pl r [t0, t0] w2 = Some (Inl Bad_Pointer)"
proof -
  obtain es where inv: "conc_inv pl r t0 w1 es" using started_reaches [OF assms(1-3)] by blast
  obtain rc where own: "gc_own pl r (marks (at w1)) w1 es" and rc: "reactors w1 r = Some rc" "r_thread rc = t0"
    using inv by (rule conc_invE)
  obtain ev where "events w1 e = Some ev" "\<not> e_closing ev" using assms(5) by (auto simp: may_destroy_def)
  then show ?thesis using callback_pending_core [of pl r "marks (at w1)" _ es e ev rc t0 i bits ks] own rc by simp
qed

theorem callback_destroys_pending_witness:
  "\<exists>w1 w2. (cstep demo_plat 1000 7)\<^sup>*\<^sup>* (started 7 demo_reactor) w1 \<and> at w1 7 = In_Callback 0 [(100, POSIXC_EVENT_OUT)] \<and>
    solo demo_plat 1000 7 6 (move w1 7 (Destroy_Enter 100 (Callback 0 [(100, POSIXC_EVENT_OUT)]))) = Some (Inr w2) \<and>
    schedule demo_plat 1000 [7, 7] w2 = Some (Inl Bad_Pointer)"
proof -
  let ?ks = "[(100, POSIXC_EVENT_OUT)]" and ?R = "cstep demo_plat 1000 7"
  obtain w ev where w: "?R\<^sup>*\<^sup>* (started 7 demo_reactor) w" "events w = [100 \<mapsto> ev]" "\<not> e_closing ev" "e_cb ev = Some 1"
    "at w = (\<lambda>t. if t = 7 then Loop_Check 0 else Idle)" "registered w = {100}" "reactors w = reactors demo_reactor"
    "gc_inv demo_plat 1000 w []" using demo_reaches [of "Some 1"] by blast
  let ?w1 = "move w 7 (Loop_Wait 0)"
  let ?w2 = "move ?w1 7 (Loop_Batch 0 ((100, POSIXC_EVENT_IN) # ?ks))"
  have own: "gc_inv demo_plat 1000 ?w2 []" "events ?w2 100 = Some ev" using w(2,8) by simp_all
  obtain w3 where w3: "posixc_event_consume ?w2 100 POSIXC_EVENT_IN = Inr (w3, Some 1, e_arg ev)"
    "rworld.more w3 = rworld.more ?w2" "events w3 = (events ?w2)(100 \<mapsto> ev\<lparr>evmask := evmask ev AND NOT POSIXC_EVENT_IN\<rparr>)"
    using event_consume_ok [OF own, of POSIXC_EVENT_IN] w(4) by auto
  let ?w3 = "move w3 7 (In_Callback 0 ?ks)"
  have "reactors w 1000 = Some \<lparr>r_mtx = False, r_thread = 7, r_id = 5, r_closing = False\<rparr>" using w(7) by (simp add: demo_defs)
  then have "thread_step demo_plat 1000 7 w = Some (Inr (w, Loop_Wait 0))" using w(5) by (simp add: thread_step_def)
  then have "?R w ?w1" by (rule lstep.continue [THEN cstepI])
  moreover have "?R ?w1 ?w2" by (rule lstep.wait [THEN cstepI]) (use w(6) in auto)
  moreover have "thread_step demo_plat 1000 7 ?w2 = Some (Inr (w3, In_Callback 0 ?ks))"
    using w3(1) by (simp add: thread_step_def)
  then have "?R ?w2 ?w3" by (rule lstep.continue [THEN cstepI])
  ultimately have r: "?R\<^sup>*\<^sup>* (started 7 demo_reactor) ?w3" using w(1) by (meson rtranclp.rtrancl_into_rtrancl)
  have at: "at ?w3 = (\<lambda>t. if t = 7 then In_Callback 0 ?ks else Idle)" using conc_frame(2) [OF w3(2)] w(5) by auto
  then have "may_destroy ?w3 100" using w3(3) w(3) by (simp add: may_destroy_def)
  from callback_destroys_pending [OF demo_create demo_no_events r _ this, of 0] at r show ?thesis by auto
qed

end
