(* ===== verification/Lifecycle.thy ===== *)
theory Lifecycle
  imports Interleaving
begin

text \<open>
  The life of an event, as the comments of \<open>event.c\<close> promise it: any thread may stop an event from working, and only the
  thread of the reactor frees it. A transition system over the phases of events, with the system calls as its labels, and the
  proof that every execution of the interleaved threads is one of its runs.
\<close>

section \<open>The abstract life of events\<close>

text \<open>An event is not allocated, open, closing under a thread, which has shut down its descriptor or not, or queued for the
  collection. The number is the descriptor.\<close>

datatype phase = Free | Open int | Closing thread_id bool int | Queued int

type_synonym life = "(addr \<Rightarrow> phase) \<times> addr list"

text \<open>The calls of \<open>posixc_preparefd\<close>.\<close>

definition prepare :: "int \<Rightarrow> syscall list" where
  "prepare fd = [Set_Cloexec fd, Set_Nonblock fd, Set_Nosigpipe fd]"

text \<open>One step, with its system calls. Any thread closes an open event; another thread than the reactor's (\<open>t0\<close>) then queues it,
  and the reactor's thread frees it; the queue is collected in its order.\<close>

inductive life_step :: "thread_id \<Rightarrow> life \<Rightarrow> syscall list \<Rightarrow> life \<Rightarrow> bool" for t0 where
  idle: "life_step t0 (L, q) [] (L, q)"
| create: "L e = Free \<Longrightarrow> life_step t0 (L, q) (prepare fd) (L(e := Open fd), q)"
| refuse: "life_step t0 (L, q) (prepare fd @ [Close fd]) (L, q)"
| close: "L e = Open fd \<Longrightarrow> life_step t0 (L, q) [] (L(e := Closing t False fd), q)"
| shut: "L e = Closing t False fd \<Longrightarrow> life_step t0 (L, q) [Shutdown fd] (L(e := Closing t True fd), q)"
| queue: "L e = Closing t True fd \<Longrightarrow> t \<noteq> t0 \<Longrightarrow> life_step t0 (L, q) [] (L(e := Queued fd), q @ [e])"
| release: "L e = Closing t0 True fd \<Longrightarrow> life_step t0 (L, q) [Close fd] (L(e := Free), q)"
| collect: "list_all2 (\<lambda>e fd. L e = Queued fd) q fds \<Longrightarrow>
    life_step t0 (L, q) (map Close fds) (\<lambda>e. if e \<in> set q then Free else L e, [])"

text \<open>A run, with all its calls.\<close>

inductive life_run :: "thread_id \<Rightarrow> life \<Rightarrow> syscall list \<Rightarrow> life \<Rightarrow> bool" for t0 x where
  start: "life_run t0 x [] x"
| step: "life_run t0 x cs y \<Longrightarrow> life_step t0 y cs' z \<Longrightarrow> life_run t0 x (cs @ cs') z"

definition no_life :: life where
  "no_life = ((\<lambda>e. Free), [])"

section \<open>The threads in a phase\<close>

text \<open>What the memory says of an event, and the event that a thread is closing, with whether it is shut down.\<close>

definition status :: "'c cworld \<Rightarrow> addr \<Rightarrow> (bool \<times> int) option" where
  "status w e = map_option (\<lambda>ev. (e_closing ev, e_fd ev)) (events w e)"

fun stage :: "location \<Rightarrow> (addr \<times> bool) option" where
  "stage (Destroy_Plat e b k) = Some (e, False)"
| "stage (Destroy_Shutdown e b k) = Some (e, False)"
| "stage (Destroy_Queue e k) = Some (e, True)"
| "stage (Destroy_Release e k) = Some (e, True)"
| "stage _ = None"

fun in_phase :: "(addr \<Rightarrow> (bool \<times> int) option) \<Rightarrow> (thread_id \<Rightarrow> location) \<Rightarrow> addr list \<Rightarrow> addr \<Rightarrow> phase \<Rightarrow> bool" where
  "in_phase st A q e Free \<longleftrightarrow> st e = None"
| "in_phase st A q e (Open fd) \<longleftrightarrow> st e = Some (False, fd)"
| "in_phase st A q e (Closing t s fd) \<longleftrightarrow> st e = Some (True, fd) \<and> stage (A t) = Some (e, s)"
| "in_phase st A q e (Queued fd) \<longleftrightarrow> st e = Some (True, fd) \<and> e \<in> set q"

text \<open>The simulation relation.\<close>

definition lives :: "'c plat \<Rightarrow> addr \<Rightarrow> thread_id \<Rightarrow> 'c cworld \<Rightarrow> life \<Rightarrow> bool" where
  "lives pl r t0 w x \<longleftrightarrow> conc_inv pl r t0 w (snd x) \<and> (\<forall>e. in_phase (status w) (at w) (snd x) e (fst x e))"

lemma stage_marked: "marked p = map_option fst (stage p)"
  by (cases p) auto

lemma stage_uses: "stage p = Some (e, s) \<Longrightarrow> uses p = Some e" "stage p = Some (e, s) \<Longrightarrow> destroys p = Some e"
  by (cases p; auto)+

lemma stage_resume [simp]: "stage (resume k) = None"
  by (cases k) auto

lemma status_move [simp]: "status (move w t p) = status w"
  by (simp add: status_def fun_eq_iff)

lemma livesD:
  assumes "lives pl r t0 w (L, q)"
  shows "conc_inv pl r t0 w q" "in_phase (status w) (at w) q e (L e)"
  using assms by (auto simp: lives_def)

text \<open>What is known of the event of a step determines its phase.\<close>

lemma open_phase:
  assumes "lives pl r t0 w (L, q)" "status w e = Some (False, fd)"
  shows "L e = Open fd"
  using livesD(2) [OF assms(1), of e] assms(2) by (cases "L e") auto

lemma free_phase:
  assumes "lives pl r t0 w (L, q)" "events w e = None"
  shows "L e = Free"
  using livesD(2) [OF assms(1), of e] assms(2) by (cases "L e") (auto simp: status_def)

lemma closing_phase:
  assumes x: "lives pl r t0 w (L, q)" and t: "stage (at w t) = Some (e, s)" and ev: "events w e = Some ev"
  shows "L e = Closing t s (e_fd ev)" "e_closing ev" "e \<notin> set q"
proof -
  note inv = livesD(1) [OF x]
  obtain rc where own: "gc_own pl r (marks (at w)) w q" and ok: "threads_ok t0 (dom (events w)) (registered w) q (at w)"
    using inv by (rule conc_invE)
  have "marked (at w t) = Some e" using t by (simp add: stage_marked)
  then have "e \<in> marks (at w)" unfolding marks_def by blast
  then show cl: "e_closing ev" using own ev by (simp add: gc_own_def event_own_def)
  show q: "e \<notin> set q" using call_event [OF inv stage_uses(1) [OF t]] by blast
  have same: "t = t'" if "stage (at w t') = Some (e, s')" for t' s'
    by (rule exclusiveD [OF threads_okD(3) [OF ok] stage_uses(2) [OF t] stage_uses(1) [OF that]])
  show "L e = Closing t s (e_fd ev)"
  proof (cases "L e")
    case (Closing t' s' fd)
    then have ph: "stage (at w t') = Some (e, s')" "fd = e_fd ev"
      using livesD(2) [OF x, of e] ev by (simp_all add: status_def)
    with same [OF ph(1)] t Closing show ?thesis by simp
  qed (use livesD(2) [OF x, of e] q cl ev in \<open>simp_all add: status_def\<close>)
qed

lemma queued_phase:
  assumes x: "lives pl r t0 w (L, q)" and e: "e \<in> set q"
  shows "L e = Queued (fd_of w e)" "\<exists>ev. events w e = Some ev"
proof -
  note inv = livesD(1) [OF x]
  obtain rc where own: "gc_own pl r (marks (at w)) w q" using inv by (rule conc_invE)
  then obtain ev where ev: "events w e = Some ev" "e_closing ev" using e by (auto simp: gc_own_def event_own_def)
  then show "\<exists>ev. events w e = Some ev" by blast
  have "stage (at w t) \<noteq> Some (e, s)" for t s using closing_phase(3) [OF x _ ev(1), of t s] e by blast
  then show "L e = Queued (fd_of w e)"
    using livesD(2) [OF x, of e] ev by (cases "L e") (auto simp: status_def fd_of_def)
qed

text \<open>The other events stay in their phases.\<close>

lemma in_phase_other:
  assumes "in_phase st A q e ph" "st' e = st e" "e \<in> set q \<Longrightarrow> e \<in> set q'"
    "\<And>s. stage (A t) = Some (e, s) \<Longrightarrow> stage p = Some (e, s)"
  shows "in_phase st' (A(t := p)) q' e ph"
  using assms by (cases ph) (auto)

lemma livesI:
  assumes "conc_inv pl r t0 w q" "\<And>e. in_phase (status w) (at w) q e (L e)"
  shows "lives pl r t0 w (L, q)"
  using assms by (simp add: lives_def)

section \<open>Steps of the threads are steps of lives\<close>

text \<open>A step that changes neither an allocation, a flag, a descriptor, a list nor a phase.\<close>

lemma lives_idle:
  assumes x: "lives pl r t0 w (L, q)" and inv: "conc_inv pl r t0 w' q" and st: "status w' = status w"
    and A: "\<And>t. stage (at w' t) = stage (at w t)"
  shows "lives pl r t0 w' (L, q)"
proof (rule livesI [OF inv])
  show "in_phase (status w') (at w') q e (L e)" for e using livesD(2) [OF x, of e] st A by (cases "L e") simp_all
qed

text \<open>A step of a thread with one event.\<close>

lemma lives_one:
  assumes x: "lives pl r t0 w (L, q)" and inv: "conc_inv pl r t0 (move w' t p) q'"
    and w': "at w' = at w" "\<And>d. d \<noteq> e \<Longrightarrow> status w' d = status w d" "set q \<subseteq> set q'"
    and e: "in_phase (status w') ((at w)(t := p)) q' e ph"
    and st: "\<And>d s. stage (at w t) = Some (d, s) \<Longrightarrow> d = e"
  shows "lives pl r t0 (move w' t p) (L(e := ph), q')"
proof (rule livesI [OF inv])
  fix d
  show "in_phase (status (move w' t p)) (at (move w' t p)) q' d ((L(e := ph)) d)"
  proof (cases "d = e")
    case False
    have "in_phase (status w') ((at w)(t := p)) q' d (L d)"
      by (rule in_phase_other [OF livesD(2) [OF x]]) (use w'(2,3) st False in auto)
    then show ?thesis using False w'(1) by simp
  qed (use e w'(1) in simp)
qed

text \<open>The calls that the operations on events make.\<close>

lemma quiet_ops:
  "submit_locked pl w e evs = Inr (w', ok) \<Longrightarrow> syscalls w' = syscalls w"
  "posixc_event_consume w e bits = Inr (w', cb, arg) \<Longrightarrow> syscalls w' = syscalls w"
  "posixc_timer_event_set_interval w e ms is_periodic = Inr w' \<Longrightarrow> syscalls w' = syscalls w"
  by (auto simp: submit_locked_def posixc_event_consume_def posixc_timer_event_set_interval_def lock_event_def
      unlock_event_def get_event_def get_reactor_def put_event_def call_kernel_def bindE_def Let_def
      split: option.splits sum.splits if_splits)

lemma create_calls:
  assumes "posixc_event_create pl w (Some e) r fd cb arg ty = Inr (w', res)"
  shows "syscalls w' = syscalls w @ (if res = None then prepare fd @ [Close fd] else prepare fd)"
  using assms
  by (auto simp: posixc_event_create_def posixc_event_init_def posixc_preparefd_def posixc_event_release_def get_event_def
      get_reactor_def put_event_def log_sys_def call_kernel_def prepare_def bindE_def Let_def
      split: option.splits sum.splits if_splits)

lemma count_prepare [simp]: "count_list (prepare fd) (Close x) = 0"
  "count_list (prepare fd) (Set_Cloexec x) = (if x = fd then 1 else 0)"
  by (simp_all add: prepare_def)

text \<open>One step of a thread follows the lives of the events.\<close>

definition follows :: "'c plat \<Rightarrow> addr \<Rightarrow> thread_id \<Rightarrow> 'c cworld \<Rightarrow> life \<Rightarrow> (int \<times> bool) list \<Rightarrow> 'c cworld \<Rightarrow> bool" where
  "follows pl r t0 w x hs w' \<longleftrightarrow>
     (\<exists>cs y. life_step t0 x cs y \<and> lives pl r t0 w' y \<and> syscalls w' = syscalls w @ cs \<and>
       (\<forall>fd. count_list cs (Set_Cloexec fd) = count_list hs (fd, True)))"

lemma followsI:
  "life_step t0 x cs y \<Longrightarrow> lives pl r t0 w' y \<Longrightarrow> syscalls w' = syscalls w @ cs \<Longrightarrow>
    (\<And>fd. count_list cs (Set_Cloexec fd) = count_list hs (fd, True)) \<Longrightarrow> follows pl r t0 w x hs w'"
  unfolding follows_def by blast

lemma count_close [simp]: "count_list (map Close fds) (Set_Cloexec fd) = 0"
  "count_list (map (Close \<circ> f) q) (Set_Cloexec fd) = 0"
  by (induction fds, auto) (induction q, auto)

lemma idle_step:
  assumes x: "lives pl r t0 w (L, q)" and inv: "conc_inv pl r t0 (move w' t p) q"
    and w': "status w' = status w" "at w' = at w" "stage p = stage (at w t)" "syscalls w' = syscalls w"
  shows "follows pl r t0 w (L, q) [] (move w' t p)"
proof -
  have "lives pl r t0 (move w' t p) (L, q)" by (rule lives_idle [OF x inv]) (use w' in auto)
  then show ?thesis by (rule followsI [OF life_step.idle]) (simp_all add: w'(4))
qed

lemma mark_life:
  assumes x: "lives pl r t0 w (L, q)" and t: "at w t = Destroy_Mark e b k" and ev: "events w e = Some ev"
  shows "follows pl r t0 w (L, q) [] (move (put_event w e (ev\<lparr>e_closing := True\<rparr>)) t (Destroy_Plat e b k))"
proof -
  let ?w = "put_event w e (ev\<lparr>e_closing := True\<rparr>)"
  note inv = livesD(1) [OF x]
  obtain ev' where "events w e = Some ev'" "\<not> e_closing ev'" using call_event [OF inv, of t e] t by auto
  then have "L e = Open (e_fd ev)" using open_phase [OF x, of e "e_fd ev"] ev by (simp add: status_def)
  then have "life_step t0 (L, q) [] (L(e := Closing t False (e_fd ev)), q)" by (rule life_step.close)
  moreover have "at ?w = at w" by (rule conc_frame) simp
  then have "lives pl r t0 (move ?w t (Destroy_Plat e b k)) (L(e := Closing t False (e_fd ev)), q)"
    by (intro lives_one [OF x destroy_mark_ok [OF inv t ev]]) (auto simp: status_def t)
  ultimately show ?thesis by (rule followsI) simp_all
qed

lemma shutdown_life:
  assumes x: "lives pl r t0 w (L, q)" and t: "at w t = Destroy_Shutdown e b k" and ev: "events w e = Some ev"
    and inv: "conc_inv pl r t0 (move (log_sys w [Shutdown (e_fd ev)]) t p) q"
    and p: "p = (if \<not> b then Destroy_Queue e k else Destroy_Release e k)"
  shows "follows pl r t0 w (L, q) [] (move (log_sys w [Shutdown (e_fd ev)]) t p)"
proof -
  let ?w = "log_sys w [Shutdown (e_fd ev)]"
  have st: "stage (at w t) = Some (e, False)" using t by simp
  note ph = closing_phase [OF x st ev]
  have "life_step t0 (L, q) [Shutdown (e_fd ev)] (L(e := Closing t True (e_fd ev)), q)" using ph(1) by (rule life_step.shut)
  moreover have "at ?w = at w" by (rule conc_frame) simp
  then have "lives pl r t0 (move ?w t p) (L(e := Closing t True (e_fd ev)), q)"
    by (intro lives_one [OF x inv]) (auto simp: status_def t p ev ph(2))
  ultimately show ?thesis by (rule followsI) simp_all
qed

lemma queue_life:
  assumes x: "lives pl r t0 w (L, q)" and t: "at w t = Destroy_Queue e k" and run: "add_to_gc_list pl w e = Inr w'"
    and inv: "conc_inv pl r t0 (move w' t (resume k)) (q @ [e])"
  shows "follows pl r t0 w (L, q) [] (move w' t (resume k))"
proof -
  obtain ev where ev: "events w e = Some ev" using call_event [OF livesD(1) [OF x], of t e] t by auto
  have st: "stage (at w t) = Some (e, True)" using t by simp
  note ph = closing_phase [OF x st ev]
  have "t \<noteq> t0" using conc_side [OF livesD(1) [OF x], of t] t by auto
  with ph(1) have "life_step t0 (L, q) [] (L(e := Queued (e_fd ev)), q @ [e])" by (rule life_step.queue)
  moreover have w': "events w' = events w" "at w' = at w" "syscalls w' = syscalls w"
    using run by (auto simp: add_to_gc_list_def lock_reactor_def unlock_reactor_def get_event_def get_reactor_def put_reactor_def
        bindE_def split: option.splits sum.splits if_splits)
  then have "lives pl r t0 (move w' t (resume k)) (L(e := Queued (e_fd ev)), q @ [e])"
    by (intro lives_one [OF x inv]) (auto simp: status_def t ev ph(2))
  ultimately show ?thesis by (rule followsI) (simp_all add: w')
qed

lemma release_life:
  assumes x: "lives pl r t0 w (L, q)" and t: "at w t = Destroy_Release e k" and run: "posixc_event_release pl w e = Inr w'"
    and inv: "conc_inv pl r t0 (move w' t (resume k)) q"
  shows "follows pl r t0 w (L, q) [] (move w' t (resume k))"
proof -
  obtain ev where ev: "events w e = Some ev" using call_event [OF livesD(1) [OF x], of t e] t by auto
  have st: "stage (at w t) = Some (e, True)" using t by simp
  have "t = t0" using conc_side [OF livesD(1) [OF x], of t] t by auto
  then have "L e = Closing t0 True (e_fd ev)" using closing_phase(1) [OF x st ev] by simp
  then have "life_step t0 (L, q) [Close (e_fd ev)] (L(e := Free), q)" by (rule life_step.release)
  moreover have w': "events w' = (events w)(e := None)" "at w' = at w" "syscalls w' = syscalls w @ [Close (e_fd ev)]"
    using run release_ok [OF ev, of pl] by auto
  then have "lives pl r t0 (move w' t (resume k)) (L(e := Free), q)"
    by (intro lives_one [OF x inv]) (auto simp: status_def t)
  ultimately show ?thesis by (rule followsI) (simp_all add: w')
qed

lemma collect_life:
  assumes x: "lives pl r t0 w (L, q)" and t: "at w t0 = Loop_Gc i \<or> at w t0 = Last_Gc"
    and run: "posixc_reactor_gc pl t0 w r = Some (Inr w')" and inv: "conc_inv pl r t0 (move w' t0 p) []" and p: "stage p = None"
  shows "follows pl r t0 w (L, q) [] (move w' t0 p)"
proof -
  obtain rc where own: "gc_own pl r (marks (at w)) w q" and rc: "reactors w r = Some rc" "r_thread rc = t0"
    using livesD(1) [OF x] by (rule conc_invE)
  have w': "events w' = (events w) |` (- set q)" "syscalls w' = syscalls w @ map (Close \<circ> fd_of w) q"
    "rworld.more w' = rworld.more w" using reactor_gc_ok [OF own rc(1)] rc(2) run by auto
  have "list_all2 (\<lambda>e fd. L e = Queued fd) q (map (fd_of w) q)"
    unfolding list_all2_map2 by (rule list.rel_refl_strong) (rule queued_phase(1) [OF x])
  then have "life_step t0 (L, q) (map Close (map (fd_of w) q)) (\<lambda>e. if e \<in> set q then Free else L e, [])"
    by (rule life_step.collect)
  moreover have "lives pl r t0 (move w' t0 p) (\<lambda>e. if e \<in> set q then Free else L e, [])"
  proof (rule livesI [OF inv])
    fix e
    have "stage (at w t0) = None" using t by auto
    then show "in_phase (status (move w' t0 p)) (at (move w' t0 p)) [] e (if e \<in> set q then Free else L e)"
      using livesD(2) [OF x, of e] w'(1) p conc_frame(2) [OF w'(3)]
      by (cases "L e") (auto simp: status_def)
  qed
  ultimately show ?thesis by (rule followsI) (simp_all add: w'(2))
qed

text \<open>The steps inside \<open>posixc_event_destroy\<close>, inside \<open>posixc_event_submit\<close>, and of the loop.\<close>

lemma destroy_life:
  assumes x: "lives pl r t0 w (L, q)" and run: "thread_step pl r t w = Some (Inr (w', p))"
    and inv': "conc_inv pl r t0 (move w' t p) (queue_after (at w t) q)" and t: "destroys (at w t) = Some e0"
  shows "follows pl r t0 w (L, q) [] (move w' t p)"
proof -
  note inv = livesD(1) [OF x] and quiet = idle_step [OF x]
  show ?thesis
  proof (cases "at w t")
    case (Destroy_Enter e k)
    then have "w' = w" "stage p = None" using run by (auto simp: thread_step_def bindE_def split: sum.splits)
    then show ?thesis using quiet inv' Destroy_Enter by simp
  next
    case (Destroy_Test e b k)
    then have "w' = w" "stage p = stage (at w t) \<or> (\<exists>ev. events w e = Some ev \<and> e_closing ev)"
      using run by (auto simp: thread_step_def bindE_def get_event_def split: option.splits if_splits)
    moreover obtain ev where "events w e = Some ev" "\<not> e_closing ev" using call_event [OF inv, of t e] Destroy_Test by auto
    ultimately show ?thesis using quiet inv' Destroy_Test by auto
  next
    case (Destroy_Mark e b k)
    obtain ev where ev: "events w e = Some ev" using call_event [OF inv, of t e] Destroy_Mark by auto
    then show ?thesis using mark_life [OF x Destroy_Mark ev] run Destroy_Mark by (simp add: thread_step_def)
  next
    case (Destroy_Plat e b k)
    have w': "status w' = status w" "at w' = at w" "syscalls w' = syscalls w" "stage p = stage (at w t)"
      using run Destroy_Plat by (auto simp: thread_step_def bindE_def status_def call_kernel_def fun_eq_iff
          split: sum.splits option.splits)
    then show ?thesis using quiet inv' Destroy_Plat by simp
  next
    case (Destroy_Shutdown e b k)
    obtain ev where ev: "events w e = Some ev" using call_event [OF inv, of t e] Destroy_Shutdown by auto
    then have "w' = log_sys w [Shutdown (e_fd ev)]" "p = (if \<not> b then Destroy_Queue e k else Destroy_Release e k)"
      using run Destroy_Shutdown by (auto simp: thread_step_def)
    then show ?thesis using shutdown_life [OF x Destroy_Shutdown ev] inv' Destroy_Shutdown by simp
  next
    case (Destroy_Queue e k)
    then have "add_to_gc_list pl w e = Inr w'" "p = resume k"
      using run by (auto simp: thread_step_def bindE_def split: sum.splits)
    then show ?thesis using queue_life [OF x Destroy_Queue] inv' Destroy_Queue by simp
  next
    case (Destroy_Release e k)
    then have "posixc_event_release pl w e = Inr w'" "p = resume k"
      using run by (auto simp: thread_step_def bindE_def split: sum.splits)
    then show ?thesis using release_life [OF x Destroy_Release] inv' Destroy_Release by simp
  qed (use t in auto)
qed

lemma submit_life:
  assumes x: "lives pl r t0 w (L, q)" and run: "thread_step pl r t w = Some (Inr (w', p))"
    and inv': "conc_inv pl r t0 (move w' t p) (queue_after (at w t) q)" and t: "uses (at w t) = Some e0" "destroys (at w t) = None"
  shows "follows pl r t0 w (L, q) [] (move w' t p)"
proof -
  note inv = livesD(1) [OF x] and quiet = idle_step [OF x]
  obtain rc where own: "gc_own pl r (marks (at w)) w q" and rc: "reactors w r = Some rc" "r_thread rc = t0"
    using inv by (rule conc_invE)
  show ?thesis
  proof (cases "at w t")
    case (Submit_Test e evs k)
    then have "w' = w" "stage p = None" using run by (auto simp: thread_step_def bindE_def split: sum.splits if_splits)
    then show ?thesis using quiet inv' Submit_Test by simp
  next
    case (Submit_Locked e evs k)
    obtain ev where ev: "events w e = Some ev" using call_event [OF inv, of t e] Submit_Locked by auto
    obtain ok where run': "submit_locked pl w e evs = Inr (w', ok)" "p = resume k"
      using run Submit_Locked by (auto simp: thread_step_def bindE_def split: sum.splits)
    then have w': "events w' = (events w)(e \<mapsto> ev\<lparr>evmask := evmask ev OR evs\<rparr>)" "rworld.more w' = rworld.more w"
      using submit_locked_ok [OF own ev rc(1), of evs] by auto
    then have "status w' = status w" "at w' = at w" using ev conc_frame(2) [OF w'(2)] by (simp_all add: status_def fun_eq_iff)
    then show ?thesis using quiet inv' Submit_Locked run'(2) quiet_ops(1) [OF run'(1)] by simp
  qed (use t in auto)
qed

lemma loop_life:
  assumes x: "lives pl r t0 w (L, q)" and run: "thread_step pl r t w = Some (Inr (w', p))"
    and inv': "conc_inv pl r t0 (move w' t p) (queue_after (at w t) q)" and t: "uses (at w t) = None" "\<not> waits (at w t)"
  shows "follows pl r t0 w (L, q) [] (move w' t p)"
proof -
  note inv = livesD(1) [OF x] and quiet = idle_step [OF x]
  obtain rc where own: "gc_own pl r (marks (at w)) w q" and rc: "reactors w r = Some rc" "r_thread rc = t0"
    using inv by (rule conc_invE)
  show ?thesis
  proof (cases "at w t")
    case (Loop_Check i)
    then have "w' = w" "stage p = None" using run by (auto simp: thread_step_def bindE_def split: sum.splits)
    then show ?thesis using quiet inv' Loop_Check by simp
  next
    case (Loop_Batch i ks)
    show ?thesis
    proof (cases ks)
      case Nil
      then have "w' = w" "stage p = None" using run Loop_Batch by (auto simp: thread_step_def)
      then show ?thesis using quiet inv' Loop_Batch by simp
    next
      case (Cons k ks')
      obtain e bits where k: "k = (e, bits)" by (cases k)
      obtain ev where ev: "events w e = Some ev" using conc_pending [OF inv, of e t] Loop_Batch Cons k by auto
      obtain cb arg where run': "posixc_event_consume w e bits = Inr (w', cb, arg)" "stage p = None"
        using run Loop_Batch Cons k by (auto simp: thread_step_def bindE_def split: sum.splits if_splits)
      then have w': "events w' = (events w)(e \<mapsto> ev\<lparr>evmask := evmask ev AND NOT bits\<rparr>)" "rworld.more w' = rworld.more w"
        using event_consume_ok [OF own ev, of bits] by auto
      then have "status w' = status w" "at w' = at w" using ev conc_frame(2) [OF w'(2)] by (simp_all add: status_def fun_eq_iff)
      then show ?thesis using quiet inv' Loop_Batch run'(2) quiet_ops(2) [OF run'(1)] by simp
    qed
  next
    case (In_Callback i ks)
    then have "w' = w" "stage p = None" using run by (auto simp: thread_step_def)
    then show ?thesis using quiet inv' In_Callback by simp
  next
    case (Loop_Gc i)
    have "t = t0" using conc_side [OF inv, of t] Loop_Gc by auto
    moreover have "posixc_reactor_gc pl t w r = Some (Inr w')" "stage p = None"
      using run Loop_Gc by (auto simp: thread_step_def bindR_def split: option.splits sum.splits)
    ultimately show ?thesis using collect_life [OF x, of i] inv' Loop_Gc by simp
  next
    case Last_Gc
    have "t = t0" using conc_side [OF inv, of t] Last_Gc by auto
    moreover have "posixc_reactor_gc pl t w r = Some (Inr w')" "stage p = None"
      using run Last_Gc by (auto simp: thread_step_def bindR_def split: option.splits sum.splits)
    ultimately show ?thesis using collect_life [OF x] inv' Last_Gc by simp
  qed (use t in auto)
qed

lemma thread_life:
  assumes x: "lives pl r t0 w (L, q)" and run: "thread_step pl r t w = Some (Inr (w', p))"
  shows "follows pl r t0 w (L, q) [] (move w' t p)"
proof -
  have wt: "\<not> waits (at w t)" using run step_waits [of "at w t" pl t w r] by (auto simp: thread_step_def)
  have inv: "conc_inv pl r t0 (move w' t p) (queue_after (at w t) q)" using thread_step_ok [OF livesD(1) [OF x] wt] run by auto
  show ?thesis
    using destroy_life [OF x run inv] submit_life [OF x run inv] loop_life [OF x run inv _ wt]
    by (cases "destroys (at w t)"; cases "uses (at w t)") auto
qed

text \<open>The steps of the program.\<close>

lemma create_effect:
  assumes "posixc_event_create pl w (Some e) r fd cb arg ty = Inr (w', res)" "events w e = None"
  shows "status w' = (if res = None then status w else (status w)(e \<mapsto> (False, fd)))" "rworld.more w' = rworld.more w"
  using assms
  by (auto simp: posixc_event_create_def posixc_event_init_def posixc_preparefd_def posixc_event_release_def get_event_def
      get_reactor_def put_event_def log_sys_def call_kernel_def bindE_def Let_def status_def fun_eq_iff
      split: option.splits sum.splits if_splits)

lemma create_life:
  assumes x: "lives pl r t0 w (L, q)" and t: "caller (at w t) = Some k" and e: "events w e = None"
    and run: "posixc_event_create pl w (Some e) r fd cb arg ty = Inr (w', res)"
    and inv: "conc_inv pl r t0 (w'\<lparr>registered := R\<rparr>) q"
  shows "follows pl r t0 w (L, q) [(fd, True)] (w'\<lparr>registered := R\<rparr>)"
proof -
  let ?w = "w'\<lparr>registered := R\<rparr>"
  have w': "status ?w = status w'" "at ?w = at w" "syscalls ?w = syscalls w'"
    using conc_frame(2) [OF create_effect(2) [OF run e]] by (simp_all add: status_def fun_eq_iff)
  have st: "stage (at w t) = None" using t by (rule caller.elims) auto
  show ?thesis
  proof (cases "res = None")
    case True
    have "lives pl r t0 ?w (L, q)"
      by (rule lives_idle [OF x inv]) (use w' create_effect(1) [OF run e] True in auto)
    then show ?thesis
      by (rule followsI [OF life_step.refuse [of _ _ _ fd]]) (use create_calls [OF run] w'(3) True in auto)
  next
    case False
    have "conc_inv pl r t0 (move ?w t (at w t)) q" using inv move_stays [of ?w t] w'(2) by simp
    then have "lives pl r t0 (move ?w t (at w t)) (L(e := Open fd), q)"
      by (rule lives_one [OF x]) (use w' create_effect(1) [OF run e] False st in auto)
    then have "lives pl r t0 ?w (L(e := Open fd), q)" using move_stays [of ?w t] w'(2) by simp
    moreover have "life_step t0 (L, q) (prepare fd) (L(e := Open fd), q)"
      using free_phase [OF x e] by (rule life_step.create)
    ultimately show ?thesis using create_calls [OF run] w'(3) False by (auto intro: followsI)
  qed
qed

lemma lstep_life:
  assumes "lstep pl r t0 w hs w'" "lives pl r t0 w (L, q)"
  shows "follows pl r t0 w (L, q) hs w'"
  using assms
proof (induction rule: lstep.induct)
  case (create w t k e fd cb arg ty w' res)
  show ?case by (rule create_life [OF create(5,1,2,4) create_conc [OF livesD(1) [OF create(5)] create(2-4)]])
next
  case (no_memory w t k fd cb arg ty w' res)
  then have "w' = w" using create_no_memory by blast
  then show ?case using no_memory(3) by (auto intro: followsI [OF life_step.idle])
next
  case (destroy w t k e)
  have "stage (at w t) = None" using destroy(1) by (rule caller.elims) auto
  then show ?case using idle_step [OF destroy(4) destroy_conc [OF livesD(1) [OF destroy(4)] destroy(1-3)]] by simp
next
  case (submit w t k e evs)
  have "stage (at w t) = None" using submit(1) by (rule caller.elims) auto
  then show ?case using idle_step [OF submit(3) submit_conc [OF livesD(1) [OF submit(3)] submit(1,2)]] by simp
next
  case (set_interval w t k e ms is_periodic w')
  note inv = interval_conc [OF livesD(1) [OF set_interval(4)] set_interval(2,3)]
  obtain ev where ev: "events w e = Some ev" using set_interval(2) by (auto simp: may_submit_def)
  have "status w' = status w" "at w' = at w" using set_interval(3) ev
    by (auto simp: posixc_timer_event_set_interval_def status_def fun_eq_iff put_event_def)
  then show ?case using idle_step [OF set_interval(4), of w' t "at w t"] inv quiet_ops(3) [OF set_interval(3)]
      move_stays [of w' t] by simp
next
  case (continue t w w' p)
  then show ?case using thread_life by blast
next
  case (wait w i ks)
  then show ?case using idle_step [OF wait(3) wait_conc [OF livesD(1) [OF wait(3)] wait(1,2)]] by simp
next
  case (badfd w i)
  then show ?case using idle_step [OF badfd(2) badfd_conc [OF livesD(1) [OF badfd(2)] badfd(1)]] by simp
next
  case (close w rc)
  have "lives pl r t0 (w\<lparr>reactors := (reactors w)(r \<mapsto> rc\<lparr>r_closing := True\<rparr>)\<rparr>) (L, q)"
    by (rule lives_idle [OF close(2) close_conc [OF livesD(1) [OF close(2)] close(1)]]) (simp_all add: status_def fun_eq_iff)
  then show ?case by (rule followsI [OF life_step.idle]) simp_all
qed

text \<open>The executions, with the descriptors that were passed to \<open>posixc_event_create\<close>.\<close>

inductive execution :: "'c plat \<Rightarrow> addr \<Rightarrow> thread_id \<Rightarrow> 'c cworld \<Rightarrow> (int \<times> bool) list \<Rightarrow> 'c cworld \<Rightarrow> bool" for pl r t0 w0 where
  start: "execution pl r t0 w0 [] w0"
| step: "execution pl r t0 w0 hs w \<Longrightarrow> lstep pl r t0 w hs' w' \<Longrightarrow> execution pl r t0 w0 (hs @ hs') w'"

lemma csteps_execution: "(cstep pl r t0)\<^sup>*\<^sup>* w w' \<Longrightarrow> \<exists>hs. execution pl r t0 w hs w'"
proof (induction rule: rtranclp_induct)
  case (step w1 w2)
  then obtain hs hs' where "execution pl r t0 w hs w1" "lstep pl r t0 w1 hs' w2" by (auto simp: cstep_def)
  from execution.step [OF this] show ?case by blast
qed (blast intro: execution.start)

lemma execution_life:
  assumes "execution pl r t0 w hs w'" "lives pl r t0 w x"
  shows "\<exists>cs y. life_run t0 x cs y \<and> lives pl r t0 w' y \<and> syscalls w' = syscalls w @ cs \<and>
    (\<forall>fd. count_list cs (Set_Cloexec fd) = count_list hs (fd, True))"
  using assms(1)
proof (induction rule: execution.induct)
  case start
  show ?case using assms(2) life_run.start by fastforce
next
  case (step hs w1 hs' w2)
  then obtain cs y where y: "life_run t0 x cs y" "lives pl r t0 w1 y" "syscalls w1 = syscalls w @ cs"
    "\<And>fd. count_list cs (Set_Cloexec fd) = count_list hs (fd, True)" by blast
  obtain L q where "y = (L, q)" by (cases y)
  with y(2) lstep_life [OF step(2)] obtain cs' z where "life_step t0 y cs' z" "lives pl r t0 w2 z" "syscalls w2 = syscalls w1 @ cs'"
    "\<And>fd. count_list cs' (Set_Cloexec fd) = count_list hs' (fd, True)"
    unfolding follows_def by blast
  then show ?case using life_run.step [OF y(1)] y(3,4) by (intro exI [of _ "cs @ cs'"] exI [of _ z]) simp
qed

lemma csteps_life:
  assumes "(cstep pl r t0)\<^sup>*\<^sup>* w w'" "lives pl r t0 w x"
  shows "\<exists>cs y. life_run t0 x cs y \<and> lives pl r t0 w' y \<and> syscalls w' = syscalls w @ cs"
proof -
  obtain hs where "execution pl r t0 w hs w'" using csteps_execution [OF assms(1)] by blast
  from execution_life [OF this assms(2)] show ?thesis by blast
qed

section \<open>Descriptors\<close>

text \<open>The descriptor that an event holds, and the events with a descriptor.\<close>

fun descriptor :: "phase \<Rightarrow> int option" where
  "descriptor Free = None"
| "descriptor (Open fd) = Some fd"
| "descriptor (Closing t s fd) = Some fd"
| "descriptor (Queued fd) = Some fd"

definition owners :: "(addr \<Rightarrow> phase) \<Rightarrow> int \<Rightarrow> addr set" where
  "owners L fd = {e. descriptor (L e) = Some fd}"

definition tidy_life :: "life \<Rightarrow> bool" where
  "tidy_life x \<longleftrightarrow> distinct (snd x) \<and> (\<forall>e. e \<in> set (snd x) \<longleftrightarrow> (\<exists>fd. fst x e = Queued fd)) \<and> (\<forall>fd. finite (owners (fst x) fd))"

lemma owners_upd:
  "owners (L(e := ph)) fd = (if descriptor ph = Some fd then insert e (owners L fd) else owners L fd - {e})"
  by (auto simp: owners_def)

lemma owners_same: "descriptor ph = descriptor (L e) \<Longrightarrow> owners (L(e := ph)) fd = owners L fd"
  by (auto simp: owners_def)

lemma count_map: "distinct q \<Longrightarrow> count_list (map f q) y = card {x \<in> set q. f x = y}"
proof (induction q)
  case (Cons a q)
  have "{x \<in> set (a # q). f x = y} = (if f a = y then insert a {x \<in> set q. f x = y} else {x \<in> set q. f x = y})" by auto
  then show ?case using Cons by simp
qed simp

lemma collect_owners:
  assumes "tidy_life (L, q)" "list_all2 (\<lambda>e fd. L e = Queued fd) q fds"
  shows "count_list (map Close fds) (Close fd) + card (owners (\<lambda>e. if e \<in> set q then Free else L e) fd) = card (owners L fd)"
proof -
  let ?Q = "{e \<in> set q. Close (the (descriptor (L e))) = Close fd}"
  have "fds = map (\<lambda>e. the (descriptor (L e))) q" using assms(2) by (induction rule: list_all2_induct) auto
  then have "count_list (map Close fds) (Close fd) = card ?Q"
    using assms(1) count_map [of q "Close \<circ> (\<lambda>e. the (descriptor (L e)))" "Close fd"] by (simp add: tidy_life_def)
  moreover have "owners L fd = ?Q \<union> owners (\<lambda>e. if e \<in> set q then Free else L e) fd"
    "?Q \<inter> owners (\<lambda>e. if e \<in> set q then Free else L e) fd = {}"
    using assms(1) by (auto simp: owners_def tidy_life_def)
  moreover have "finite (owners L fd)" using assms(1) by (simp add: tidy_life_def)
  ultimately show ?thesis by (simp add: card_Un_disjoint)
qed

lemma life_step_tidy: "life_step t0 x cs y \<Longrightarrow> tidy_life x \<Longrightarrow> tidy_life y"
proof (induction rule: life_step.induct)
  case (collect L q fds)
  have "finite (owners (\<lambda>e. if e \<in> set q then Free else L e) fd)" for fd
    by (rule finite_subset [of _ "owners L fd"]) (use collect in \<open>auto simp: tidy_life_def owners_def split: if_splits\<close>)
  then show ?case using collect by (auto simp: tidy_life_def)
qed (auto simp: tidy_life_def owners_upd split: if_splits)

lemma life_step_count:
  "life_step t0 x cs y \<Longrightarrow> tidy_life x \<Longrightarrow>
    count_list cs (Close fd) + card (owners (fst y) fd) = count_list cs (Set_Cloexec fd) + card (owners (fst x) fd)"
proof (induction rule: life_step.induct)
  case (create L e q fd')
  then have "e \<notin> owners L fd" "finite (owners L fd)" by (auto simp: owners_def tidy_life_def)
  then show ?case unfolding fst_conv owners_upd by (cases "fd = fd'") simp_all
next
  case (release L e fd' q)
  then have "e \<in> owners L fd \<longleftrightarrow> fd = fd'" "finite (owners L fd)" by (auto simp: owners_def tidy_life_def)
  then show ?case unfolding fst_conv owners_upd using card_Suc_Diff1 [of "owners L fd" e] by (cases "fd = fd'") simp_all
next
  case (collect L q fds)
  show ?case using collect_owners [OF collect(2,1), of fd] by simp
qed (simp_all add: owners_same)

lemma life_run_count:
  assumes "life_run t0 no_life cs y"
  shows "tidy_life y \<and> count_list cs (Close fd) + card (owners (fst y) fd) = count_list cs (Set_Cloexec fd)"
  using assms
proof (induction rule: life_run.induct)
  case start
  then show ?case by (simp add: tidy_life_def no_life_def owners_def)
next
  case (step cs y cs' z)
  then show ?case using life_step_tidy life_step_count [of t0 y cs' z fd] by simp
qed

lemma lives_owners: "lives pl r t0 w x \<Longrightarrow> owners (fst x) fd = {e. \<exists>ev. events w e = Some ev \<and> e_fd ev = fd}"
proof -
  assume x: "lives pl r t0 w x"
  have "descriptor (fst x e) = map_option e_fd (events w e)" for e
    using x by (cases "fst x e") (auto simp: lives_def status_def dest!: spec [of _ e])
  then show ?thesis by (auto simp: owners_def)
qed

section \<open>Properties\<close>

lemma started_lives:
  assumes "posixc_reactor_create pl w fd (Some r) (Some t0) = Inr (w0, Some r')" "events w = Map.empty"
  shows "lives pl r t0 (started t0 w0) no_life" "syscalls (started t0 w0) = syscalls w"
proof -
  have "0 \<le> fd" using assms(1) by (auto simp: posixc_reactor_create_def split: if_splits)
  then have ev: "events w0 = Map.empty" using reactor_create_returns [of fd pl w r t0] assms(1,2) by auto
  then have "conc_inv pl r t0 (started t0 w0) []"
    using reactor_create_ok [OF assms] by (auto intro: started_ok)
  then show "lives pl r t0 (started t0 w0) no_life"
    using ev by (simp add: lives_def no_life_def status_def started_def rworld.defs)
  show "syscalls (started t0 w0) = syscalls w"
    using assms(1) by (auto simp: started_def rworld.defs posixc_reactor_create_def put_reactor_def bindE_def Let_def
        split: if_splits sum.splits option.splits)
qed

text \<open>C7: every execution of the interleaved threads is a run of the abstract life of events, with exactly the system calls that the
  run prescribes, in their order: an event is created open; one thread closes it and shuts down its descriptor, once; if that thread is
  not the reactor's, the event is queued, and only the reactor's thread closes the descriptor and frees it, in the order
  of the queue; a creation that the kernel refuses closes the descriptor.\<close>

theorem threads_refine_life:
  assumes "posixc_reactor_create pl w fd (Some r) (Some t0) = Inr (w0, Some r')" "events w = Map.empty"
    and "(cstep pl r t0)\<^sup>*\<^sup>* (started t0 w0) w1"
  shows "\<exists>cs L q. life_run t0 no_life cs (L, q) \<and> syscalls w1 = syscalls w @ cs \<and>
    dlist (lists w1) (r + gc_off pl) (map (node_of pl) q) \<and> (\<forall>e. in_phase (status w1) (at w1) q e (L e))"
proof -
  obtain cs y where y: "life_run t0 no_life cs y" "lives pl r t0 w1 y" "syscalls w1 = syscalls (started t0 w0) @ cs"
    using csteps_life [OF assms(3) started_lives(1) [OF assms(1,2)]] by blast
  obtain L q where Lq: "y = (L, q)" by (cases y)
  obtain rc where "gc_own pl r (marks (at w1)) w1 q" using livesD(1) [OF y(2) [unfolded Lq]] by (rule conc_invE)
  then have "dlist (lists w1) (r + gc_off pl) (map (node_of pl) q)" by (simp add: gc_own_def)
  then show ?thesis using y Lq livesD(2) started_lives(2) [OF assms(1,2)] by fastforce
qed

theorem threads_refine_life_witness:
  "\<exists>w1 cs L q. (cstep demo_plat 1000 7)\<^sup>*\<^sup>* (started 7 demo_reactor) w1 \<and> at w1 7 = Last_Gc \<and>
    life_run 7 no_life cs (L, q) \<and> syscalls w1 = cs \<and> in_phase (status w1) (at w1) q 100 (L 100)"
proof -
  obtain w where w: "(cstep demo_plat 1000 7)\<^sup>*\<^sup>* (started 7 demo_reactor) w"
    "at w = (\<lambda>t. if t = 7 then Last_Gc else Idle)" using demo_closing by blast
  have "syscalls no_events = []" by (simp add: no_events_def)
  then show ?thesis using threads_refine_life [OF demo_create demo_no_events w(1)] w
    by (elim exE conjE) (intro exI conjI, auto)
qed

text \<open>C21: in every execution, each descriptor \<open>x\<close> that is passed to \<open>posixc_event_create\<close>, as often as it is passed, is closed
  once, or belongs to one allocated event, or was passed to a creation that got no memory: no interleaving closes a
  descriptor twice, and none loses one, except that a creation without memory neither keeps nor closes the descriptor (while
  one that the kernel refuses closes it).\<close>

theorem descriptors_accounted:
  assumes "posixc_reactor_create pl w fd (Some r) (Some t0) = Inr (w0, Some r')" "events w = Map.empty"
    and "execution pl r t0 (started t0 w0) hs w1"
  shows "\<exists>cs. syscalls w1 = syscalls w @ cs \<and>
    count_list cs (Close x) + card {e. \<exists>ev. events w1 e = Some ev \<and> e_fd ev = x} + count_list hs (x, False) =
      count_list (map fst hs) x"
proof -
  obtain cs y where y: "life_run t0 no_life cs y" "lives pl r t0 w1 y" "syscalls w1 = syscalls (started t0 w0) @ cs"
    "\<forall>fd. count_list cs (Set_Cloexec fd) = count_list hs (fd, True)"
    using execution_life [OF assms(3) started_lives(1) [OF assms(1,2)]] by blast
  have "count_list (map fst hs) x = count_list hs (x, True) + count_list hs (x, False)" by (induction hs) auto
  then show ?thesis using life_run_count [OF y(1), of x] lives_owners [OF y(2), of x] started_lives(2) [OF assms(1,2)] y(3,4)
    by auto
qed

text \<open>The descriptor 8 is passed to a creation for which there is no memory.\<close>

theorem descriptors_accounted_witness:
  "\<exists>hs w1. execution demo_plat 1000 7 (started 7 demo_reactor) (hs @ [(8, False)]) w1 \<and> at w1 7 = Last_Gc \<and>
    count_list (syscalls w1) (Close 8) + card {e. \<exists>ev. events w1 e = Some ev \<and> e_fd ev = 8} + Suc (count_list hs (8, False)) =
      Suc (count_list (map fst hs) 8)"
proof -
  obtain w where w: "(cstep demo_plat 1000 7)\<^sup>*\<^sup>* (started 7 demo_reactor) w"
    "at w = (\<lambda>t. if t = 7 then Last_Gc else Idle)" using demo_closing by blast
  obtain hs where hs: "execution demo_plat 1000 7 (started 7 demo_reactor) hs w" using csteps_execution [OF w(1)] by blast
  have "posixc_event_create demo_plat w None 1000 8 None 0 SOCK_EV = Inr (w, None)" by (simp add: posixc_event_create_def)
  then have "lstep demo_plat 1000 7 w [(8, False)] w" using w(2) by (intro lstep.no_memory [where t = 1 and k = Return]) simp_all
  from execution.step [OF hs this]
  have ex: "execution demo_plat 1000 7 (started 7 demo_reactor) (hs @ [(8, False)]) w" .
  have "syscalls no_events = []" by (simp add: no_events_def)
  then show ?thesis using descriptors_accounted [OF demo_create demo_no_events ex, of 8] ex w(2)
    by (intro exI [of _ hs] exI [of _ w]) simp
qed

end
