(* ===== verification/Epoll.thy ===== *)
theory Epoll
  imports Kqueue
begin

text \<open>
  The platform of \<open>src/linux/event_epoll.c\<close> and \<open>src/linux/reactor_epoll.c\<close>. A call of \<open>epoll_ctl\<close> is
  recorded with its operation, descriptor, event bits and pointer; the array that \<open>epoll_wait\<close> fills
  is a list of 64 entries of which those behind the number of events are not written.
\<close>

section \<open>Calls\<close>

datatype epoll_op = EPOLL_CTL_ADD | EPOLL_CTL_MOD | EPOLL_CTL_DEL

definition EPOLLIN :: "32 word" where "EPOLLIN = 0x001"
definition EPOLLOUT :: "32 word" where "EPOLLOUT = 0x004"
definition EPOLLERR :: "32 word" where "EPOLLERR = 0x008"
definition EPOLLONESHOT :: "32 word" where "EPOLLONESHOT = 0x40000000"

lemmas epoll_bits = EPOLLIN_def EPOLLOUT_def EPOLLERR_def EPOLLONESHOT_def

record epoll_event =
  ep_events :: "32 word"
  ep_ptr :: addr

text \<open>The event is \<open>None\<close> where the source passes an uninitialised structure.\<close>

record epoll_call =
  ep_fd :: int
  ep_op :: epoll_op
  ep_target :: int
  ep_event :: "epoll_event option"

definition ep_plat_create :: "int \<Rightarrow> addr \<Rightarrow> posixc_event \<Rightarrow> epoll_call option" where
  "ep_plat_create rid e ev = Some \<lparr>ep_fd = rid, ep_op = EPOLL_CTL_ADD, ep_target = e_fd ev,
     ep_event = Some \<lparr>ep_events = 0, ep_ptr = e\<rparr>\<rparr>"

definition ep_plat_destroy :: "int \<Rightarrow> addr \<Rightarrow> posixc_event \<Rightarrow> epoll_call option" where
  "ep_plat_destroy rid e ev = Some \<lparr>ep_fd = rid, ep_op = EPOLL_CTL_DEL, ep_target = e_fd ev,
     ep_event = None\<rparr>"

definition ep_plat_submit :: "int \<Rightarrow> addr \<Rightarrow> posixc_event \<Rightarrow> epoll_call option" where
  "ep_plat_submit rid e ev = Some \<lparr>ep_fd = rid, ep_op = EPOLL_CTL_MOD, ep_target = e_fd ev,
     ep_event = Some \<lparr>ep_events = evmask ev OR EPOLLONESHOT OR EPOLLERR, ep_ptr = e\<rparr>\<rparr>"

definition ep_plat :: "epoll_call plat" where
  "ep_plat = \<lparr>node_off = 96, gc_off = 56, plat_create = ep_plat_create, plat_destroy = ep_plat_destroy,
     plat_submit = ep_plat_submit\<rparr>"

section \<open>The reactor's thread\<close>

definition consume_epollev ::
    "('c, 'z) callbacks \<Rightarrow> ('c, 'z) rworld_scheme \<Rightarrow> epoll_event \<Rightarrow> ('c, 'z) rworld_scheme run" where
  "consume_epollev cbs w ee =
     (let bits = ep_events ee AND (EPOLLIN OR EPOLLOUT OR EPOLLERR) in
      bindR (Some (posixc_event_consume w (ep_ptr ee) bits)) (\<lambda>(w, cb, arg).
      case cb of None \<Rightarrow> Some (Inr w) | Some c \<Rightarrow> cbs c (ep_ptr ee) bits arg w))"

definition max_events :: nat where
  "max_events = 64"

definition wait_array :: "epoll_event list \<Rightarrow> epoll_event option list" where
  "wait_array ees = map Some ees @ replicate (max_events - length ees) None"

text \<open>\<open>for (j = 0; j < n; j++)\<close>: the loop reads \<open>events[i]\<close>, with the counter of the outer loop, each time.\<close>

fun consume_epollevs :: "('c, 'z) callbacks \<Rightarrow> epoll_event option list \<Rightarrow> nat \<Rightarrow> nat \<Rightarrow>
    ('c, 'z) rworld_scheme \<Rightarrow> ('c, 'z) rworld_scheme run" where
  "consume_epollevs cbs evs i 0 w = Some (Inr w)"
| "consume_epollevs cbs evs i (Suc n) w =
     bindR (Some (rd evs i)) (\<lambda>v.
     case v of None \<Rightarrow> Some (Inl Uninitialised)
     | Some ee \<Rightarrow> bindR (consume_epollev cbs w ee) (consume_epollevs cbs evs i n))"

definition ep_loops_per_gc :: nat where
  "ep_loops_per_gc = 128"

fun ep_thread_loop :: "'c plat \<Rightarrow> ('c, 'z) callbacks \<Rightarrow> thread_id \<Rightarrow> addr \<Rightarrow> nat \<Rightarrow>
    (('c, 'z) rworld_scheme, epoll_event) wait list \<Rightarrow> ('c, 'z) rworld_scheme \<Rightarrow> ('c, 'z) rworld_scheme run" where
  "ep_thread_loop pl cbs self r i waits w =
     bindR (Some (get_reactor w r)) (\<lambda>rc.
     if r_closing rc then Some (Inr w)
     else (case waits of [] \<Rightarrow> None
       | wt # waits \<Rightarrow>
         (let w = others wt w in
          case answer wt of Wait_EBADF \<Rightarrow> Some (Inr w)
          | ans \<Rightarrow>
            bindR (case ans of Ready ees \<Rightarrow> consume_epollevs cbs (wait_array ees) i (length ees) w
                   | _ \<Rightarrow> Some (Inr w)) (\<lambda>w.
            bindR (if i mod ep_loops_per_gc = 0 then posixc_reactor_gc pl self w r else Some (Inr w)) (\<lambda>w.
            ep_thread_loop pl cbs self r ((i + 1) mod 2 ^ 32) waits w)))))"

declare ep_thread_loop.simps [simp del]

definition ep_reactor_plat_threadfn where
  "ep_reactor_plat_threadfn pl cbs self r waits w = ep_thread_loop pl cbs self r 0 waits w"

section \<open>The contract\<close>

definition ep_armed :: "epoll_call \<Rightarrow> 32 word" where
  "ep_armed c = (case ep_event c of None \<Rightarrow> 0
     | Some ee \<Rightarrow> ep_events ee AND (POSIXC_EVENT_IN OR POSIXC_EVENT_OUT))"

definition ep_supported :: "nat \<Rightarrow> 32 word" where
  "ep_supported ty = POSIXC_EVENT_IN OR POSIXC_EVENT_OUT"

interpretation epp: event_platform ep_plat ep_fd ep_armed ep_supported
proof
  fix rid e ev c
  show "ep_fd c = rid \<and> ep_armed c = evmask ev AND ep_supported (e_type ev)"
    if "plat_submit ep_plat rid e ev = Some c"
    using that by (auto simp: ep_plat_def ep_plat_submit_def ep_armed_def ep_supported_def event_bits
        epoll_bits bit.conj_disj_distrib2)
qed (simp_all add: ep_plat_def ep_plat_submit_def ep_plat_create_def ep_plat_destroy_def ep_armed_def)

section \<open>Properties\<close>

text \<open>The thread of an epoll reactor reads the entry of the round, not of the event: a second wake-up
  with one event reads an entry that was never written.\<close>

lemma epoll_second_wakeup:
  assumes "reactors w r = Some rc" "\<not> r_closing rc" "\<not> r_closing rc'"
    and "consume_epollev cbs (others wt w) ee = Some (Inr w1)"
    and "posixc_reactor_gc pl self w1 r = Some (Inr w2)" "reactors w2 r = Some rc'"
    and "answer wt = Ready [ee]" "answer wt' = Ready [ee']"
  shows "ep_reactor_plat_threadfn pl cbs self r (wt # wt' # waits) w = Some (Inl Uninitialised)"
  using assms
  by (simp add: ep_reactor_plat_threadfn_def ep_thread_loop.simps [of _ _ _ _ 0]
      ep_thread_loop.simps [of _ _ _ _ "Suc 0"] wait_array_def max_events_def)

lemma demo_created_inv: "gc_inv demo_plat 1000 demo_created []"
proof -
  have "ring (lists demo_created) [1016]" by (simp add: ring_def cyc_def nx_def pv_def demo_defs)
  then show ?thesis by (simp add: gc_own_def event_own_def dlist_def node_of_def demo_defs)
qed

lemma epoll_second_wakeup_example:
  "ep_reactor_plat_threadfn demo_plat (\<lambda>c e b a w. Some (Inr w)) 7 1000
     [\<lparr>others = id, answer = Ready [\<lparr>ep_events = EPOLLIN, ep_ptr = 100\<rparr>]\<rparr>,
      \<lparr>others = id, answer = Ready [\<lparr>ep_events = EPOLLIN, ep_ptr = 100\<rparr>]\<rparr>] demo_created =
   Some (Inl Uninitialised)"
proof -
  let ?cbs = "\<lambda>c e b a (w :: unit rworld). Some (Inr w)"
  let ?ee = "\<lparr>ep_events = EPOLLIN, ep_ptr = 100\<rparr>"
  let ?wt = "\<lparr>others = (id :: unit rworld \<Rightarrow> unit rworld), answer = Ready [?ee]\<rparr>"
  let ?rc = "\<lparr>r_mtx = False, r_thread = 7, r_id = 5, r_closing = False\<rparr>"
  have e: "events demo_created 100 = Some (demo_event\<lparr>e_closing := False\<rparr>)" and cb: "e_cb demo_event = None"
    and rc: "reactors demo_created 1000 = Some ?rc" by (simp_all add: demo_defs)
  obtain w1 where w1: "consume_epollev ?cbs demo_created ?ee = Some (Inr w1)" "gc_inv demo_plat 1000 w1 []"
    "reactors w1 = reactors demo_created"
    using event_consume_ok [OF demo_created_inv e, of "EPOLLIN AND (EPOLLIN OR EPOLLOUT OR EPOLLERR)"] cb
    by (auto simp: consume_epollev_def)
  obtain w2 where "posixc_reactor_gc demo_plat 7 w1 1000 = Some (Inr w2)" "reactors w2 1000 = Some ?rc"
    using reactor_gc_ok [OF w1(2), of ?rc] w1(3) rc by auto
  then show ?thesis
    using epoll_second_wakeup [of demo_created 1000 ?rc ?rc ?cbs ?wt ?ee w1 demo_plat 7 w2 ?wt ?ee "[]"]
      rc w1(1) by simp
qed

end
