(* ===== verification/Timestr.thy ===== *)
theory Timestr
  imports Prelude
begin

text \<open>
  The time strings of \<open>src/common/timestr.c\<close>. The broken-down local time is a parameter. \<open>strftime\<close> is
  modelled for the conversions the library's own patterns use; the others are a parameter \<open>other\<close>.
  When the result does not fit, \<open>strftime\<close> returns \<open>0\<close> and the content of the buffer is
  indeterminate.
\<close>

record tm =
  tm_mday :: nat
  tm_mon :: nat
  tm_year :: nat
  tm_hour :: nat
  tm_min :: nat
  tm_sec :: nat

definition digit :: "nat \<Rightarrow> char" where
  "digit n = char_of (48 + n mod 10)"

definition two_digits :: "nat \<Rightarrow> char list" where
  "two_digits n = [digit (n div 10), digit n]"

definition four_digits :: "nat \<Rightarrow> char list" where
  "four_digits n = two_digits (n div 100) @ two_digits n"

text \<open>\<open>%Y\<close> for years of four digits.\<close>

definition conversion :: "(char \<Rightarrow> tm \<Rightarrow> char list) \<Rightarrow> char \<Rightarrow> tm \<Rightarrow> char list" where
  "conversion other c t =
     (if c = CHR ''d'' then two_digits (tm_mday t)
      else if c = CHR ''m'' then two_digits (tm_mon t + 1)
      else if c = CHR ''Y'' then four_digits (tm_year t + 1900)
      else if c = CHR ''H'' then two_digits (tm_hour t)
      else if c = CHR ''M'' then two_digits (tm_min t)
      else if c = CHR ''S'' then two_digits (tm_sec t)
      else other c t)"

fun expand :: "(char \<Rightarrow> tm \<Rightarrow> char list) \<Rightarrow> char list \<Rightarrow> tm \<Rightarrow> char list" where
  "expand other [] t = []"
| "expand other [c] t = [c]"
| "expand other (c # d # cs) t =
     (if c = CHR ''%'' then conversion other d t @ expand other cs t else c # expand other (d # cs) t)"

text \<open>The buffer is given from the pointer on; bytes that are not known are \<open>None\<close>.\<close>

definition strftime :: "char option list \<Rightarrow> nat \<Rightarrow> char list \<Rightarrow> (char option list \<times> int) res" where
  "strftime buf cap txt =
     (if length txt + 1 \<le> cap
      then bindE (blit buf 0 (map Some (txt @ [CHR 0x00])) (length txt + 1)) (\<lambda>buf. Inr (buf, int (length txt)))
      else if cap \<le> length buf then Inr (replicate cap None @ drop cap buf, 0) else Inl Out_Of_Bounds)"

definition posixc_timestr :: "(char \<Rightarrow> tm \<Rightarrow> char list) \<Rightarrow> tm \<Rightarrow> char option list \<Rightarrow> char list \<Rightarrow> int \<Rightarrow>
    (char option list \<times> int) res" where
  "posixc_timestr other now buf pattern len = strftime buf (to_u64 len) (expand other pattern now)"

definition posixc_default_timestr ::
    "(char \<Rightarrow> tm \<Rightarrow> char list) \<Rightarrow> tm \<Rightarrow> char option list \<Rightarrow> (char option list \<times> int) res" where
  "posixc_default_timestr other now buf = strftime buf 80 (expand other ''%d-%m-%Y %H:%M:%S'' now)"

definition posixc_timestr_logfile ::
    "(char \<Rightarrow> tm \<Rightarrow> char list) \<Rightarrow> tm \<Rightarrow> char option list \<Rightarrow> (char option list \<times> int) res" where
  "posixc_timestr_logfile other now buf = strftime buf 80 (expand other ''%d-%m-%Y_%H:%M:%S.log'' now)"

definition default_text :: "tm \<Rightarrow> char list" where
  "default_text t = two_digits (tm_mday t) @ ''-'' @ two_digits (tm_mon t + 1) @ ''-'' @
     four_digits (tm_year t + 1900) @ '' '' @ two_digits (tm_hour t) @ '':'' @ two_digits (tm_min t) @
     '':'' @ two_digits (tm_sec t)"

definition logfile_text :: "tm \<Rightarrow> char list" where
  "logfile_text t = two_digits (tm_mday t) @ ''-'' @ two_digits (tm_mon t + 1) @ ''-'' @
     four_digits (tm_year t + 1900) @ ''_'' @ two_digits (tm_hour t) @ '':'' @ two_digits (tm_min t) @
     '':'' @ two_digits (tm_sec t) @ ''.log''"

lemma text_lengths [simp]: "length (default_text t) = 19" "length (logfile_text t) = 23"
  by (simp_all add: default_text_def logfile_text_def four_digits_def two_digits_def)

text \<open>Both patterns always fit: 19 and 23 bytes and a terminator are written, and nothing else.\<close>

lemma default_timestr_ok:
  assumes "20 \<le> length buf"
  shows "posixc_default_timestr other now buf =
    Inr (map Some (default_text now) @ Some (CHR 0x00) # drop 20 buf, 19)"
proof -
  have "expand other ''%d-%m-%Y %H:%M:%S'' now = default_text now"
    by (simp add: conversion_def default_text_def)
  then show ?thesis using assms by (simp add: posixc_default_timestr_def strftime_def)
qed

lemma timestr_logfile_ok:
  assumes "24 \<le> length buf"
  shows "posixc_timestr_logfile other now buf =
    Inr (map Some (logfile_text now) @ Some (CHR 0x00) # drop 24 buf, 23)"
proof -
  have "expand other ''%d-%m-%Y_%H:%M:%S.log'' now = logfile_text now"
    by (simp add: conversion_def logfile_text_def)
  then show ?thesis using assms by (simp add: posixc_timestr_logfile_def strftime_def)
qed

end
