(* ===== verification/Ipc.thy ===== *)
theory Ipc
  imports Fileio
begin

text \<open>
  The Unix domain sockets of \<open>src/ipc.c\<close>. The answers of the system calls are parameters (an \<open>ipc_os\<close>),
  the calls that are made are returned in order. \<open>sun_path_size\<close> is the size of the path in the
  address, which differs between systems.
\<close>

datatype ipc_call =
    Socket_Dgram
  | Socket_Stream
  | Unlink "char list"
  | Bind int "char list"
  | Listen int int
  | Connect int "char list"
  | Nonblock int
  | Write int "char list"

record ipc_os =
  os_socket :: int
  os_bind :: int
  os_listen :: int
  os_connect :: int
  connection_refused :: bool
  sun_path_size :: nat

text \<open>\<open>strncpy(addr.sun_path, usockpath, sizeof(addr.sun_path) - 1)\<close> into zeroed memory: the string that
  the address holds.\<close>

definition sun_path :: "ipc_os \<Rightarrow> char list \<Rightarrow> char list" where
  "sun_path os usockpath = take (sun_path_size os - 1) usockpath"

definition set_sockaddr_un :: "ipc_os \<Rightarrow> char list \<Rightarrow> ipc_call list \<times> char list" where
  "set_sockaddr_un os usockpath = ([Unlink usockpath], sun_path os usockpath)"

definition posixc_ipc_dgram_socket :: "ipc_os \<Rightarrow> char list \<Rightarrow> ipc_call list \<times> int" where
  "posixc_ipc_dgram_socket os usockpath =
     (let fd = os_socket os in
      if fd = -1 then ([Socket_Dgram], -1)
      else (let (calls, addr) = set_sockaddr_un os usockpath;
                calls = [Socket_Dgram] @ calls @ [Bind fd addr] in
            if os_bind os = -1 then (calls, -1) else (calls, fd)))"

definition posixc_ipc_usockpath_already_used :: "ipc_os \<Rightarrow> char list \<Rightarrow> ipc_call list \<times> bool" where
  "posixc_ipc_usockpath_already_used os usockpath =
     (let fd = os_socket os;
          calls = [Socket_Stream, Nonblock fd, Connect fd (sun_path os usockpath)] in
      if os_connect os < 0 \<and> connection_refused os then (calls, False) else (calls, True))"

definition posixc_ipc_nonblock_stream_socket :: "ipc_os \<Rightarrow> char list \<Rightarrow> ipc_call list \<times> int" where
  "posixc_ipc_nonblock_stream_socket os usockpath =
     (let fd = os_socket os in
      if fd = -1 then ([Socket_Stream], -1)
      else (let (calls, addr) = set_sockaddr_un os usockpath;
                calls = [Socket_Stream] @ calls @ [Bind fd addr] in
            if os_bind os = -1 then (calls, -1)
            else (let calls = calls @ [Listen fd 128] in
                  if os_listen os \<noteq> 0 then (calls @ [Unlink usockpath], -1) else (calls, fd))))"

text \<open>The result is the value stored in \<open>uid\<close> (\<open>None\<close> when it is not written) and the return value.\<close>

definition posixc_ipc_getuid ::
    "(char list \<Rightarrow> stat option) \<Rightarrow> int \<Rightarrow> char list \<Rightarrow> int \<Rightarrow> nat option \<times> bool" where
  "posixc_ipc_getuid sys_stat now usockpath age =
     (case sys_stat usockpath of None \<Rightarrow> (None, False)
      | Some statbuf \<Rightarrow>
        if \<not> S_ISSOCK (st_mode statbuf) then (None, False)
        else if posixc_is_user_rwx statbuf \<and> \<not> posixc_is_stale now statbuf age
        then (Some (st_uid statbuf), True)
        else (None, False))"

definition posixc_ipc_connect_dgram :: "ipc_os \<Rightarrow> char list \<Rightarrow> ipc_call list \<times> int" where
  "posixc_ipc_connect_dgram os usockpath =
     (let fd = os_socket os in
      if fd = -1 then ([Socket_Dgram], -1)
      else (let calls = [Socket_Dgram, Connect fd (sun_path os usockpath)] in
            if os_connect os = -1 then (calls, -1) else (calls, fd)))"

text \<open>\<open>write(fd, msg, len)\<close>: one datagram, \<open>len\<close> converted to \<open>size_t\<close>.\<close>

definition posixc_ipc_send_dgram :: "int \<Rightarrow> char option list \<Rightarrow> int \<Rightarrow> ipc_call res" where
  "posixc_ipc_send_dgram fd msg len =
     (let n = to_u64 len in
      if length msg < n then Inl Out_Of_Bounds
      else if None \<in> set (take n msg) then Inl Uninitialised
      else Inr (Write fd (map the (take n msg))))"

section \<open>Sockets\<close>

text \<open>A socket that is returned has been bound (and is listening) at the given path, when the path fits.\<close>

lemma dgram_socket_bound:
  "posixc_ipc_dgram_socket os path = (cs, fd) \<Longrightarrow> fd \<noteq> -1 \<Longrightarrow> length path < sun_path_size os \<Longrightarrow>
   cs = [Socket_Dgram, Unlink path, Bind fd path] \<and> os_bind os \<noteq> -1"
  by (auto simp: posixc_ipc_dgram_socket_def set_sockaddr_un_def sun_path_def Let_def split: if_splits)

lemma stream_socket_listening:
  "posixc_ipc_nonblock_stream_socket os path = (cs, fd) \<Longrightarrow> fd \<noteq> -1 \<Longrightarrow> length path < sun_path_size os \<Longrightarrow>
   cs = [Socket_Stream, Unlink path, Bind fd path, Listen fd 128] \<and> os_listen os = 0"
  by (auto simp: posixc_ipc_nonblock_stream_socket_def set_sockaddr_un_def sun_path_def Let_def
      split: if_splits)

section \<open>Properties\<close>

text \<open>\<open>posixc_ipc_getuid\<close> trusts a socket only when its owner alone may use it, but it asks for a path
  that is older than the given age: a path younger than that is always refused, since
  \<open>posixc_is_stale\<close> is true of files that are not stale.\<close>

lemma getuid_wants_old_socket:
  assumes "posixc_ipc_getuid sys_stat now path age = (uid, True)"
  shows "\<exists>st. sys_stat path = Some st \<and> uid = Some (st_uid st) \<and> S_ISSOCK (st_mode st) \<and>
    st_mode st AND 0x1FF = 0x1C0 \<and>
    (st_atime st < now - age \<or> st_ctime st < now - age \<or> st_mtime st < now - age)"
  using assms
  by (auto simp: posixc_ipc_getuid_def is_user_rwx_iff posixc_is_stale_def Let_def
      split: option.splits if_splits)

definition old_socket :: "char list \<Rightarrow> stat option" where
  "old_socket path = (if path = ''/tmp/s'' then Some \<lparr>st_mode = 0xC1C0, st_size = 0, st_uid = 501,
     st_atime = 10, st_ctime = 10, st_mtime = 10\<rparr> else None)"

lemma getuid_wants_old_socket_example:
  "\<exists>st. old_socket ''/tmp/s'' = Some st \<and> st_uid st = 501 \<and> st_mtime st < 1000 - 30"
proof -
  have "posixc_ipc_getuid old_socket 1000 ''/tmp/s'' 30 = (Some 501, True)"
    by (simp add: posixc_ipc_getuid_def old_socket_def S_ISSOCK_def is_user_rwx_iff posixc_is_stale_def)
  from getuid_wants_old_socket [OF this] show ?thesis by (auto simp: old_socket_def)
qed

end
