(* ===== verification/Tcp.thy ===== *)
theory Tcp
  imports Slice
begin

unbundle bit_operations_syntax

text \<open>
  The TCP helpers of \<open>src/tcp.c\<close>. \<open>le\<close> says whether the host is little-endian, so that \<open>htons\<close> and \<open>ntohs\<close>
  swap the bytes of a port. \<open>inet_addr\<close>, \<open>inet_ntoa\<close> and the socket calls are parameters.
\<close>

record sockaddr_in =
  sin_family :: nat
  s_addr :: "32 word"
  sin_port :: "16 word"

definition AF_INET :: nat where "AF_INET = 2"
definition INADDR_ANY :: "32 word" where "INADDR_ANY = 0"
definition INADDR_NONE :: "32 word" where "INADDR_NONE = 0xFFFFFFFF"

definition htons :: "bool \<Rightarrow> 16 word \<Rightarrow> 16 word" where
  "htons le x = (if le then push_bit 8 x OR drop_bit 8 x else x)"

definition ntohs :: "bool \<Rightarrow> 16 word \<Rightarrow> 16 word" where
  "ntohs le x = htons le x"

definition htonl :: "bool \<Rightarrow> 32 word \<Rightarrow> 32 word" where
  "htonl le x = (if le then push_bit 24 x OR (push_bit 8 x AND 0xFF0000) OR (drop_bit 8 x AND 0xFF00) OR
     drop_bit 24 x else x)"

definition posixc_tcp_socketfd :: "(nat \<Rightarrow> int) \<Rightarrow> int" where
  "posixc_tcp_socketfd sys_socket_stream = sys_socket_stream AF_INET"

definition posixc_tcp_set_addr ::
    "bool \<Rightarrow> (char list \<Rightarrow> 32 word) \<Rightarrow> sockaddr_in \<Rightarrow> char list \<Rightarrow> int \<Rightarrow> sockaddr_in" where
  "posixc_tcp_set_addr le inet_addr sa host port =
     sa\<lparr>sin_family := AF_INET, s_addr := inet_addr host, sin_port := htons le (word_of_int port)\<rparr>"

definition posixc_tcp_set_addr_any :: "bool \<Rightarrow> sockaddr_in \<Rightarrow> int \<Rightarrow> sockaddr_in" where
  "posixc_tcp_set_addr_any le sa port =
     sa\<lparr>sin_family := AF_INET, s_addr := htonl le INADDR_ANY, sin_port := htons le (word_of_int port)\<rparr>"

definition posixc_tcp_is_addr_valid :: "sockaddr_in \<Rightarrow> bool" where
  "posixc_tcp_is_addr_valid sa = (s_addr sa \<noteq> INADDR_NONE)"

definition posixc_tcp_connect :: "(int \<Rightarrow> sockaddr_in \<Rightarrow> int) \<Rightarrow> int \<Rightarrow> sockaddr_in \<Rightarrow> int" where
  "posixc_tcp_connect sys_connect fd sa = sys_connect fd sa"

definition posixc_tcp_bind :: "(int \<Rightarrow> sockaddr_in \<Rightarrow> int) \<Rightarrow> int \<Rightarrow> sockaddr_in \<Rightarrow> int" where
  "posixc_tcp_bind sys_bind fd sa = sys_bind fd sa"

definition posixc_tcp_listen :: "(int \<Rightarrow> int \<Rightarrow> int) \<Rightarrow> int \<Rightarrow> int" where
  "posixc_tcp_listen sys_listen fd = sys_listen fd 1"

text \<open>\<open>accept\<close> stores the address of the peer.\<close>

definition posixc_tcp_accept_fd ::
    "(int \<Rightarrow> sockaddr_in \<Rightarrow> sockaddr_in \<times> int) \<Rightarrow> int \<Rightarrow> sockaddr_in \<Rightarrow> sockaddr_in \<times> int" where
  "posixc_tcp_accept_fd sys_accept fd cin = sys_accept fd cin"

definition posixc_tcp_get_ip ::
    "(32 word \<Rightarrow> char list) \<Rightarrow> smem \<Rightarrow> saddr \<Rightarrow> sockaddr_in \<Rightarrow> smem res" where
  "posixc_tcp_get_ip inet_ntoa m s cin = posixc_slice_init_from m s (inet_ntoa (s_addr cin))"

definition posixc_tcp_get_port :: "bool \<Rightarrow> sockaddr_in \<Rightarrow> int" where
  "posixc_tcp_get_port le cin = uint (ntohs le (sin_port cin))"

lemma htons_involution: "htons le (htons le x) = x"
proof (cases le)
  case True
  have "push_bit 8 (push_bit 8 x OR drop_bit 8 x) OR drop_bit 8 (push_bit 8 x OR drop_bit 8 x) = x"
    by (rule bit_word_eqI) (auto simp: bit_simps)
  then show ?thesis using True by (simp add: htons_def)
qed (simp add: htons_def)

text \<open>The text of an IPv4 address has at most 15 bytes, so that the slice keeps it inline.\<close>

lemma get_ip_ok:
  assumes "slice_var m a" "inet_ntoa (s_addr cin) \<noteq> []" "length (inet_ntoa (s_addr cin)) \<le> 15"
  shows "\<exists>m'. posixc_tcp_get_ip inet_ntoa m a cin = Inr m' \<and> slice_ok m' a (inet_ntoa (s_addr cin)) \<and>
    blocks m' = blocks m"
  using slice_init_from_inline [OF assms(1,2)] assms(3)
  by (auto simp: posixc_tcp_get_ip_def inline_cap_def)

section \<open>Properties\<close>

text \<open>C39: a port that is stored in an address, for a host or for any interface, is read back unchanged,
  on hosts of either byte order; other values are taken modulo 65536.\<close>

theorem tcp_port_roundtrip:
  "posixc_tcp_get_port le (posixc_tcp_set_addr le inet_addr sa host port) = port mod 65536 \<and>
   posixc_tcp_get_port le (posixc_tcp_set_addr_any le sa port) = port mod 65536"
  by (simp add: posixc_tcp_get_port_def posixc_tcp_set_addr_def posixc_tcp_set_addr_any_def ntohs_def
      htons_involution uint_word_of_int)

end
