(* ===== verification/Log.thy ===== *)
theory Log
  imports Fileio
begin

text \<open>
  The logger of \<open>src/log.c\<close>. A stream is standard output, standard error or an opened file; the text
  written to each is part of the state. \<open>msg\<close> is what \<open>vfprintf\<close> prints for a format and its
  arguments. The source never initialises the mutex of a logger; it is locked and unlocked around
  every line, and not modelled.
\<close>

datatype stream_id = Stdout | Stderr | File nat

record posixc_logger =
  lowest :: int
  lfile :: "stream_id option"

record lworld =
  printed :: "stream_id \<Rightarrow> char list"
  closed :: "stream_id list"

definition LOG_LEVEL_DEBUG :: int where "LOG_LEVEL_DEBUG = 0"
definition LOG_LEVEL_INFO :: int where "LOG_LEVEL_INFO = 1"
definition LOG_LEVEL_WARN :: int where "LOG_LEVEL_WARN = 2"
definition LOG_LEVEL_ERR :: int where "LOG_LEVEL_ERR = 3"
definition LOG_LEVEL_FATAL :: int where "LOG_LEVEL_FATAL = 4"

lemmas log_levels = LOG_LEVEL_DEBUG_def LOG_LEVEL_INFO_def LOG_LEVEL_WARN_def LOG_LEVEL_ERR_def
  LOG_LEVEL_FATAL_def

definition fprint :: "lworld \<Rightarrow> stream_id \<Rightarrow> char list \<Rightarrow> lworld" where
  "fprint w f s = w\<lparr>printed := (printed w)(f := printed w f @ s)\<rparr>"

definition posixc_log_init :: "posixc_logger \<Rightarrow> int \<Rightarrow> stream_id option \<Rightarrow> posixc_logger" where
  "posixc_log_init logger low f = logger\<lparr>lowest := low, lfile := f\<rparr>"

text \<open>\<open>fclose(NULL)\<close> is undefined.\<close>

definition posixc_log_close :: "lworld \<Rightarrow> posixc_logger \<Rightarrow> lworld res" where
  "posixc_log_close w logger =
     (if lfile logger \<noteq> Some Stderr \<and> lfile logger \<noteq> Some Stdout
      then (case lfile logger of None \<Rightarrow> Inl Bad_Pointer | Some f \<Rightarrow> Inr (w\<lparr>closed := closed w @ [f]\<rparr>))
      else Inr w)"

definition posixc_log_init_with_stderr :: "posixc_logger \<Rightarrow> int \<Rightarrow> posixc_logger" where
  "posixc_log_init_with_stderr logger low = posixc_log_init logger low (Some Stderr)"

definition posixc_log_init_with_stdout :: "posixc_logger \<Rightarrow> int \<Rightarrow> posixc_logger" where
  "posixc_log_init_with_stdout logger low = posixc_log_init logger low (Some Stdout)"

definition posixc_log_init_with_filename :: "(char list \<Rightarrow> bool) \<Rightarrow> (char list \<Rightarrow> char list \<Rightarrow> stream_id option) \<Rightarrow>
    posixc_logger \<Rightarrow> int \<Rightarrow> char list \<Rightarrow> (mkdir_call list \<times> posixc_logger) res" where
  "posixc_log_init_with_filename dir_exists libc_fopen logger low fname =
     bindE (posixc_fopen dir_exists libc_fopen fname ''a'') (\<lambda>(made, f).
     Inr (made, posixc_log_init logger low f))"

definition level_prefix :: "int \<Rightarrow> char list" where
  "level_prefix level =
     (if level = LOG_LEVEL_DEBUG then ''DEBUG: '' else if level = LOG_LEVEL_INFO then ''INFO: ''
      else if level = LOG_LEVEL_WARN then ''WARN: '' else if level = LOG_LEVEL_ERR then ''ERR: ''
      else if level = LOG_LEVEL_FATAL then ''FATAL: '' else [])"

definition log_line :: "lworld \<Rightarrow> stream_id \<Rightarrow> posixc_logger \<Rightarrow> int \<Rightarrow> char list \<Rightarrow> lworld" where
  "log_line w f logger level msg =
     (if level < lowest logger then w
      else (let w = fprint w f (level_prefix level);
                w = fprint w f msg in
            fprint w f [CHR 0x0A]))"

definition posixc_log :: "lworld \<Rightarrow> posixc_logger \<Rightarrow> int \<Rightarrow> char list \<Rightarrow> lworld" where
  "posixc_log w logger level msg =
     (case lfile logger of None \<Rightarrow> w | Some f \<Rightarrow> log_line w f logger level msg)"

text \<open>One line per message at or above the lowest level, to the logger's stream and to no other.\<close>

lemma posixc_log_line:
  assumes "lfile logger = Some f"
  shows "printed (posixc_log w logger level msg) =
    (if level < lowest logger then printed w
     else (printed w)(f := printed w f @ level_prefix level @ msg @ [CHR 0x0A]))"
  using assms by (simp add: posixc_log_def log_line_def fprint_def Let_def)

lemma log_stdio_not_closed:
  "posixc_log_close w (posixc_log_init_with_stderr l low) = Inr w"
  "posixc_log_close w (posixc_log_init_with_stdout l low) = Inr w"
  by (simp_all add: posixc_log_close_def posixc_log_init_with_stderr_def posixc_log_init_with_stdout_def
      posixc_log_init_def)

end
