(* ===== verification/Sysinfo.thy ===== *)
theory Sysinfo
  imports Prelude
begin

text \<open>
  The small wrappers: \<open>src/runtime.c\<close> around \<open>sysconf\<close>, \<open>src/signal.c\<close>, and the descriptors for events and
  signals of \<open>src/linux/eventfd.c\<close> and \<open>src/linux/signalfd.c\<close>. The system's answers are parameters.
\<close>

section \<open>Configuration values\<close>

datatype sysconf_name = SC_NPROCESSORS_ONLN | SC_HOST_NAME_MAX | SC_CLK_TCK | SC_OPEN_MAX | SC_PAGESIZE
  | SC_PHYS_PAGES | SC_AVPHYS_PAGES

text \<open>\<open>sysconf\<close> returns a \<open>long\<close>; the functions return it as an \<open>int\<close>.\<close>

type_synonym sysconf = "sysconf_name \<Rightarrow> int"

definition posixc_nr_cpus :: "sysconf \<Rightarrow> int" where
  "posixc_nr_cpus sc = to_int32 (sc SC_NPROCESSORS_ONLN)"

definition posixc_hostname_length_max :: "sysconf \<Rightarrow> int" where
  "posixc_hostname_length_max sc = to_int32 (sc SC_HOST_NAME_MAX)"

definition posixc_nr_clock_ticks_per_sec :: "sysconf \<Rightarrow> int" where
  "posixc_nr_clock_ticks_per_sec sc = to_int32 (sc SC_CLK_TCK)"

definition posixc_nr_files_opened_max :: "sysconf \<Rightarrow> int" where
  "posixc_nr_files_opened_max sc = to_int32 (sc SC_OPEN_MAX)"

definition posixc_page_size :: "sysconf \<Rightarrow> int" where
  "posixc_page_size sc = to_int32 (sc SC_PAGESIZE)"

definition posixc_nr_pages :: "sysconf \<Rightarrow> int" where
  "posixc_nr_pages sc = to_int32 (sc SC_PHYS_PAGES)"

text \<open>\<open>avphys\<close>: whether \<open>_SC_AVPHYS_PAGES\<close> is defined.\<close>

definition posixc_nr_pages_available :: "bool \<Rightarrow> sysconf \<Rightarrow> int" where
  "posixc_nr_pages_available avphys sc =
     (if avphys then to_int32 (sc SC_AVPHYS_PAGES) else to_int32 (sc SC_PHYS_PAGES))"

section \<open>Signals\<close>

text \<open>The signal mask of the calling thread is the set of blocked signals; \<open>all\<close> are the signals that exist.\<close>

definition posixc_block_all_signals :: "nat set \<Rightarrow> nat set \<Rightarrow> nat set" where
  "posixc_block_all_signals all old = all"

text \<open>The new mask, the set that the descriptor reports, and the descriptor.\<close>

definition posixc_signalfd_open ::
    "nat set \<Rightarrow> (nat set \<Rightarrow> int) \<Rightarrow> nat set \<Rightarrow> nat list \<Rightarrow> nat set \<times> nat set \<times> int" where
  "posixc_signalfd_open all sys_signalfd old signals =
     (let mask = posixc_block_all_signals all old;
          tmp = fold insert signals {} in
      (mask, tmp, sys_signalfd tmp))"

text \<open>\<open>info\<close> is the structure that was read, \<open>None\<close> when fewer bytes came. The source assigns the number
  to the pointer \<open>signo\<close> itself: the caller's variable, \<open>out\<close>, keeps its value.\<close>

definition posixc_signalfd_read :: "nat option \<Rightarrow> int \<Rightarrow> int \<times> bool" where
  "posixc_signalfd_read info out = (case info of None \<Rightarrow> (out, False) | Some ssi_signo \<Rightarrow> (out, True))"

lemma signalfd_set: "posixc_signalfd_open all sys old signals = (all, set signals, sys (set signals))"
proof -
  have "fold insert signals A = set signals \<union> A" for A by (induction signals arbitrary: A) auto
  then show ?thesis by (simp add: posixc_signalfd_open_def posixc_block_all_signals_def Let_def)
qed

section \<open>Event descriptors\<close>

text \<open>The calls on an event descriptor, in order; \<open>fd\<close> is the result of \<open>eventfd(0, EFD_CLOEXEC)\<close>.\<close>

datatype efd_call = Set_Fd_Cloexec int | Set_Fl_Nonblock int | Write_U64 int nat | Read_U64 int

definition posixc_efd_open :: "int \<Rightarrow> efd_call list \<times> int" where
  "posixc_efd_open fd = ([Set_Fd_Cloexec fd, Set_Fl_Nonblock fd], fd)"

definition posixc_efd_send :: "int \<Rightarrow> efd_call list" where
  "posixc_efd_send efd = [Write_U64 efd 1]"

definition posixc_efd_recv :: "int \<Rightarrow> efd_call list" where
  "posixc_efd_recv efd = [Read_U64 efd]"

end
