(* ===== verification/Asynclogcli.thy ===== *)
theory Asynclogcli
  imports Ipc Timestr Log
begin

text \<open>
  The client of the logging service (\<open>src/asynclogcli.c\<close>): a message becomes one datagram with a time, a
  level and a line end, cut to one page.
\<close>

definition one_page :: nat where
  "one_page = 4096"

record posixc_asynclogcli =
  lowest_log_level :: int
  send_fd :: int

definition posixc_asynclogcli_init ::
    "ipc_os \<Rightarrow> posixc_asynclogcli \<Rightarrow> char list \<Rightarrow> int \<Rightarrow> ipc_call list \<times> posixc_asynclogcli \<times> bool" where
  "posixc_asynclogcli_init os cli usockpath low =
     (let (cs, fd) = posixc_ipc_connect_dgram os usockpath in
      (cs, cli\<lparr>send_fd := fd, lowest_log_level := low\<rparr>, fd < 0))"

definition level_text :: "int \<Rightarrow> char list option" where
  "level_text level =
     (if level = LOG_LEVEL_DEBUG then Some '' Debug: '' else if level = LOG_LEVEL_INFO then Some '' Info: ''
      else if level = LOG_LEVEL_WARN then Some '' Warn: '' else if level = LOG_LEVEL_ERR then Some '' Err: ''
      else if level = LOG_LEVEL_FATAL then Some '' Fatal: '' else None)"

text \<open>The datagram that is sent, if any. \<open>what\<close> is the memory behind the pointer.\<close>

definition posixc_asynclogcli_log :: "(char \<Rightarrow> tm \<Rightarrow> char list) \<Rightarrow> tm \<Rightarrow> posixc_asynclogcli \<Rightarrow> char list \<Rightarrow>
    int \<Rightarrow> int \<Rightarrow> ipc_call option res" where
  "posixc_asynclogcli_log other now cli what len level =
     (if level < lowest_log_level cli then Inr None
      else case level_text level of None \<Rightarrow> Inr None
      | Some tmp \<Rightarrow>
        (let buf = replicate one_page None in
         bindE (posixc_default_timestr other now buf) (\<lambda>(buf, pos).
         bindE (blit buf (nat pos) (map Some (tmp @ [CHR 0x00])) (length tmp + 1)) (\<lambda>buf.
         let pos = pos + int (length tmp) in
         bindE (c_int (pos + len)) (\<lambda>sum.
         let len = (if sum > int one_page - 1 then int one_page - 1 - pos else len) in
         bindE (blit buf (nat pos) (map Some what) (to_u64 len)) (\<lambda>buf.
         let pos = pos + len in
         bindE (wr buf (nat pos) (Some (CHR 0x0A))) (\<lambda>buf.
         bindE (posixc_ipc_send_dgram (send_fd cli) buf (pos + 1)) (\<lambda>c. Inr (Some c)))))))))"

text \<open>\<open>strlen(what)\<close> is converted to \<open>int\<close>; the terminator follows the string in memory.\<close>

definition posixc_asynclogcli_logstr :: "(char \<Rightarrow> tm \<Rightarrow> char list) \<Rightarrow> tm \<Rightarrow> posixc_asynclogcli \<Rightarrow> char list \<Rightarrow>
    int \<Rightarrow> ipc_call option res" where
  "posixc_asynclogcli_logstr other now cli what level =
     posixc_asynclogcli_log other now cli (what @ [CHR 0x00]) (to_int32 (int (length what))) level"

lemma level_text_length: "level_text level = Some t \<Longrightarrow> 6 \<le> length t \<and> length t \<le> 8"
  by (auto simp: level_text_def split: if_splits)

lemma send_starts:
  assumes "starts buf xs" "length xs < 2 ^ 63"
  shows "posixc_ipc_send_dgram fd buf (int (length xs)) = Inr (Write fd xs)"
proof -
  have "to_u64 (int (length xs)) = length xs" using assms(2) by (simp add: to_u64_def)
  then show ?thesis using assms(1) by (auto simp: posixc_ipc_send_dgram_def starts_def comp_def)
qed

text \<open>What fits of a message of \<open>n\<close> bytes behind a level \<open>t\<close>, with the time before and the line end after.\<close>

definition fitting :: "char list \<Rightarrow> nat \<Rightarrow> nat" where
  "fitting t n = min n (one_page - 1 - (19 + length t))"

lemma fitting_bounds:
  assumes "6 \<le> length t" "length t \<le> 8"
  shows "fitting t n \<le> n" "19 + length t + fitting t n < one_page" "to_u64 (int (fitting t n)) = fitting t n"
    "(if int one_page - 1 < 19 + int (length t) + int n then int one_page - 1 - (19 + int (length t))
      else int n) = int (fitting t n)"
  using assms by (auto simp: fitting_def one_page_def to_u64_def)

lemma client_log_ok:
  assumes lv: "\<not> level < lowest_log_level cli" "level_text level = Some t"
    and len: "n \<le> length what" "int n \<le> INT_MAX - 100"
  shows "posixc_asynclogcli_log other now cli what (int n) level =
    Inr (Some (Write (send_fd cli) (default_text now @ t @ take (fitting t n) what @ [CHR 0x0A])))"
proof -
  let ?d = "default_text now" and ?k = "fitting t n"
  let ?m = "take (fitting t n) what"
  have t: "6 \<le> length t" "length t \<le> 8" using level_text_length [OF lv(2)] by auto
  note k = fitting_bounds [OF t, of n]
  obtain b0 where b0: "posixc_default_timestr other now (replicate one_page None) = Inr (b0, 19)"
    "starts b0 ?d" "length b0 = one_page"
    using default_timestr_ok [of "replicate one_page None" other now] by (simp add: one_page_def starts_def)
  obtain b1 where b1: "blit b0 19 (map Some (t @ [CHR 0x00])) (length t + 1) = Inr b1"
    "starts b1 (?d @ t @ [CHR 0x00])" "length b1 = one_page"
    using starts_blit [OF b0(2), of "length t + 1" "t @ [CHR 0x00]"] b0(3) t by (auto simp: one_page_def)
  have "starts b1 (?d @ t)" using starts_append [of b1 "?d @ t" "[CHR 0x00]"] b1(2) by simp
  then obtain b2 where b2: "blit b1 (19 + length t) (map Some what) ?k = Inr b2"
    "starts b2 (?d @ t @ ?m)" "length b2 = one_page"
    using starts_blit [of b1 "?d @ t" ?k what] b1(3) k(1,2) len(1) by auto
  have lm: "length (?d @ t @ ?m) = 19 + length t + ?k" using k(1) len(1) by simp
  obtain b3 where b3: "wr b2 (19 + length t + ?k) (Some (CHR 0x0A)) = Inr b3"
    "starts b3 (?d @ t @ ?m @ [CHR 0x0A])"
    using starts_wr [OF b2(2), of "CHR 0x0A"] b2(3) k(2) unfolding lm by auto
  have send: "posixc_ipc_send_dgram (send_fd cli) b3 (19 + int (length t) + int ?k + 1) =
      Inr (Write (send_fd cli) (?d @ t @ ?m @ [CHR 0x0A]))"
    using send_starts [OF b3(2), of "send_fd cli"] lm k(1,2) len(1)
    by (simp add: one_page_def algebra_simps)
  have sum: "c_int (19 + int (length t) + int n) = Inr (19 + int (length t) + int n)"
    using len(2) t by (simp add: is_int_def INT_MIN_def INT_MAX_def)
  have idx: "nat 19 = 19" "nat (19 + int (length t)) = 19 + length t"
    "nat (19 + int (length t) + int ?k) = 19 + length t + ?k" by simp_all
  show ?thesis
    by (simp only: posixc_asynclogcli_log_def Let_def lv if_False option.case b0(1) b1(1) b2(1) b3(1)
        bindE_simps prod.case sum k(3,4) idx send)
qed

text \<open>A string of up to 4068 bytes is sent whole.\<close>

lemma logstr_short:
  assumes "\<not> level < lowest_log_level cli" "level_text level = Some t" "length what \<le> 4068"
  shows "posixc_asynclogcli_logstr oth tm0 cli what level =
    Inr (Some (Write (send_fd cli) (default_text tm0 @ t @ what @ [CHR 0x0A])))"
    and "length (default_text tm0 @ t @ what @ [CHR 0x0A]) \<le> one_page"
proof -
  have len: "to_int32 (int (length what)) = int (length what)" "int (length what) \<le> INT_MAX - 100"
    using assms(3) by (simp_all add: is_int_def INT_MIN_def INT_MAX_def)
  have t: "6 \<le> length t" "length t \<le> 8" using level_text_length [OF assms(2)] by auto
  then have "fitting t (length what) = length what" using assms(3) by (simp add: fitting_def one_page_def)
  then show "posixc_asynclogcli_logstr oth tm0 cli what level =
      Inr (Some (Write (send_fd cli) (default_text tm0 @ t @ what @ [CHR 0x0A])))"
    using client_log_ok [OF assms(1,2), of "length what" "what @ [CHR 0x00]" oth tm0] len
    by (simp add: posixc_asynclogcli_logstr_def)
  show "length (default_text tm0 @ t @ what @ [CHR 0x0A]) \<le> one_page" using t assms(3) by (simp add: one_page_def)
qed

section \<open>Properties\<close>

text \<open>C26: a message at one of the five levels, not below the client's lowest, is sent as one datagram of
  time, level, message and line end; it is never longer than a page, and a message of up to 4068
  bytes is complete.\<close>

theorem client_log_datagram:
  assumes "lowest_log_level cli \<le> level" "0 \<le> level" "level \<le> 4" "n \<le> length what"
    "int n \<le> INT_MAX - 100"
  shows "\<exists>t k. level_text level = Some t \<and> posixc_asynclogcli_log other now cli what (int n) level =
      Inr (Some (Write (send_fd cli) (default_text now @ t @ take k what @ [CHR 0x0A]))) \<and>
    length (default_text now @ t @ take k what @ [CHR 0x0A]) \<le> one_page \<and> (n \<le> 4068 \<longrightarrow> k = n)"
proof -
  have "level = 0 \<or> level = 1 \<or> level = 2 \<or> level = 3 \<or> level = 4" using assms(2,3) by auto
  then obtain t where t: "level_text level = Some t" by (auto simp: level_text_def log_levels)
  have b: "6 \<le> length t" "length t \<le> 8" using level_text_length [OF t] by auto
  have "\<not> level < lowest_log_level cli" using assms(1) by simp
  from client_log_ok [OF this t assms(4,5)] show ?thesis using t fitting_bounds(1,2) [OF b, of n] b
    by (intro exI [of _ t] exI [of _ "fitting t n"]) (auto simp: fitting_def one_page_def)
qed

definition noon :: tm where
  "noon = \<lparr>tm_mday = 1, tm_mon = 0, tm_year = 120, tm_hour = 12, tm_min = 0, tm_sec = 0\<rparr>"

theorem client_log_datagram_witness:
  "posixc_asynclogcli_log (\<lambda>c t. []) noon \<lparr>lowest_log_level = 1, send_fd = 4\<rparr> ''disk full'' 9 3 =
    Inr (Some (Write 4 (''01-01-2020 12:00:00 Err: disk full'' @ [CHR 0x0A])))"
proof -
  have "level_text 3 = Some '' Err: ''" by (simp add: level_text_def log_levels)
  moreover have "default_text noon = ''01-01-2020 12:00:00''" by code_simp
  ultimately show ?thesis
    using client_log_datagram [of "\<lparr>lowest_log_level = 1, send_fd = 4\<rparr>" 3 9 "''disk full''" "\<lambda>c t. []" noon]
    by (auto simp: INT_MAX_def)
qed

end
