(* ===== verification/Asynclogsvr.thy ===== *)
theory Asynclogsvr
  imports Asynclogcli Kqueue Sysinfo
begin

text \<open>
  The server of the logging service (\<open>src/asynclogsvr.c\<close>) on top of the reactor, the buffered writer and
  the datagram socket. Its state extends the world of the reactor by the server's structure, the
  bytes written to descriptors, the datagrams waiting at the socket, the directories created and what is
  printed to the console.

  The three callbacks are numbered 0 (\<open>on_dgram\<close>), 1 (\<open>on_clock\<close>) and 2 (\<open>on_sigint\<close>). \<open>os\<close> answers the
  calls of \<open>write\<close>; \<open>env\<close> holds the answers of the other calls of the environment.
\<close>

record posixc_asynclogsvr =
  buffered_writefile :: posixc_buffered_writable
  svr_reactor :: addr
  timer_event :: addr
  dgram_event :: addr
  sigint_event :: addr
  max_file_size :: nat
  flush_interval :: int
  bytes_written :: nat
  filename :: "char option list"
  dirlen :: nat

record 'c sworld = "'c rworld" +
  svr :: posixc_asynclogsvr
  out :: wworld
  inbox :: "char list list"
  dirs_made :: "mkdir_call list"
  sigmask :: "nat set"
  ipc_calls :: "ipc_call list"
  exited :: bool
  console :: "char list"

text \<open>The clock and the conversions of \<open>strftime\<close> that are not modelled.\<close>

record clock =
  now :: tm
  other :: "char \<Rightarrow> tm \<Rightarrow> char list"

section \<open>Writing\<close>

definition posixc_asynclogsvr_flush :: "write_os \<Rightarrow> 'c sworld \<Rightarrow> 'c sworld run" where
  "posixc_asynclogsvr_flush os w =
     bindR (posixc_flush os (out w) (buffered_writefile (svr w))) (\<lambda>((o', bw), ok).
     Some (Inr (w\<lparr>out := o', svr := (svr w)\<lparr>buffered_writefile := bw\<rparr>\<rparr>)))"

definition on_clock :: "write_os \<Rightarrow> addr \<Rightarrow> 32 word \<Rightarrow> addr \<Rightarrow> 'c sworld \<Rightarrow> 'c sworld run" where
  "on_clock os e bits arg w =
     bindR (Some (assertE (arg \<noteq> NULL) Assert_Failed)) (\<lambda>_. posixc_asynclogsvr_flush os w)"

definition update_filename :: "clock \<Rightarrow> posixc_asynclogsvr \<Rightarrow> posixc_asynclogsvr res" where
  "update_filename cl s =
     bindE (posixc_timestr_logfile (other cl) (now cl) (drop (dirlen s) (filename s))) (\<lambda>(tl, n).
     Inr (s\<lparr>filename := take (dirlen s) (filename s) @ tl\<rparr>))"

definition posixc_asynclogsvr_roll :: "write_os \<Rightarrow> clock \<Rightarrow> 'c sworld \<Rightarrow> 'c sworld run" where
  "posixc_asynclogsvr_roll os cl w =
     bindR (posixc_asynclogsvr_flush os w) (\<lambda>w.
     bindR (Some (update_filename cl (svr w))) (\<lambda>s.
     Some (Inr (w\<lparr>svr := s\<lparr>bytes_written := 0\<rparr>\<rparr>))))"

text \<open>\<open>read\<close> on the datagram socket takes one datagram, cut to the size of the buffer, or fails when there is
  none.\<close>

definition read_dgram :: "char list list \<Rightarrow> nat \<Rightarrow> char list list \<times> char list option" where
  "read_dgram box cap = (case box of [] \<Rightarrow> ([], None) | d # ds \<Rightarrow> (ds, Some (take cap d)))"

definition on_dgram :: "write_os \<Rightarrow> clock \<Rightarrow> addr \<Rightarrow> 32 word \<Rightarrow> addr \<Rightarrow> 'c sworld \<Rightarrow> 'c sworld run" where
  "on_dgram os cl e bits arg w =
     bindR (Some (get_event w e)) (\<lambda>ev.
     let (box, d) = read_dgram (inbox w) one_page;
         w = w\<lparr>inbox := box\<rparr> in
     case d of None \<Rightarrow> Some (Inr w)
     | Some buf \<Rightarrow>
       if length buf > 0 then
         bindR (posixc_buffered_write os (out w) (buffered_writefile (svr w)) buf (length buf)) (\<lambda>((o', bw), ok).
         let s = (svr w)\<lparr>buffered_writefile := bw,
                bytes_written := szt_add (bytes_written (svr w)) (length buf)\<rparr>;
             w = w\<lparr>out := o', svr := s\<rparr> in
         if bytes_written s > max_file_size s then posixc_asynclogsvr_roll os cl w else Some (Inr w))
       else Some (Inr w))"

section \<open>Start and end\<close>

definition SIGINT :: int where
  "SIGINT = 2"

text \<open>The answers of the environment during \<open>posixc_asynclogsvr_init\<close>: whether a directory exists, \<open>open\<close>,
  the clock, the native id, the memory and the thread of the reactor, the socket calls, the memory of
  the three events, the counter of timer ids, and the signals that exist.\<close>

record env =
  env_dir_exists :: "char list \<Rightarrow> bool"
  env_open :: sys_open
  env_clock :: clock
  env_rid :: int
  env_reactor_mem :: "addr option"
  env_thread :: "thread_id option"
  env_ipc :: ipc_os
  env_event_mem :: "nat \<Rightarrow> addr option"
  env_timer_id :: nat
  env_signals :: "nat set"
  env_svr :: addr

definition usockpath_log :: "char list" where
  "usockpath_log = ''/tmp/asynclog''"

text \<open>The name of the log file: the directory, a slash when it has none at its end, and the time.\<close>

definition init_filename :: "clock \<Rightarrow> char list \<Rightarrow> posixc_asynclogsvr \<Rightarrow> posixc_asynclogsvr res" where
  "init_filename cl dir s =
     (let s = s\<lparr>dirlen := length dir\<rparr> in
      bindE (assertE (dirlen s < 180) Assert_Failed) (\<lambda>_.
      bindE (blit (filename s) 0 (map Some (dir @ [CHR 0x00])) (length dir + 1)) (\<lambda>f.
      bindE (rd_char f (szt_sub (dirlen s) 1)) (\<lambda>c.
      bindE (if c \<noteq> CHR ''/'' then bindE (wr f (dirlen s) (Some (CHR ''/''))) (\<lambda>f.
               Inr (s\<lparr>filename := f, dirlen := dirlen s + 1\<rparr>))
             else Inr (s\<lparr>filename := f\<rparr>)) (\<lambda>s.
      update_filename cl s)))))"

definition ptr_of :: "addr option \<Rightarrow> addr" where
  "ptr_of p = (case p of None \<Rightarrow> NULL | Some a \<Rightarrow> a)"

definition create_events :: "'c plat \<Rightarrow> env \<Rightarrow> int \<Rightarrow> 'c sworld \<Rightarrow> 'c sworld res" where
  "create_events pl env ipcfd w =
     bindE (posixc_event_create pl w (env_event_mem env 0) (svr_reactor (svr w)) ipcfd (Some 0) (env_svr env)
       SOCK_EV) (\<lambda>(w, d).
     let w = w\<lparr>svr := (svr w)\<lparr>dgram_event := ptr_of d\<rparr>\<rparr>;
         (cnt, tid) = posixc_unique_event_id (env_timer_id env) in
     bindE (posixc_event_create pl w (env_event_mem env 1) (svr_reactor (svr w)) tid (Some 1) (env_svr env)
       TIMER_EV) (\<lambda>(w, t).
     let w = w\<lparr>svr := (svr w)\<lparr>timer_event := ptr_of t\<rparr>\<rparr> in
     bindE (posixc_event_create pl w (env_event_mem env 2) (svr_reactor (svr w)) SIGINT (Some 2) (env_svr env)
       SIG_EV) (\<lambda>(w, s).
     let w = w\<lparr>svr := (svr w)\<lparr>sigint_event := ptr_of s\<rparr>\<rparr> in
     bindE (assertE (d \<noteq> None \<and> t \<noteq> None \<and> s \<noteq> None) Assert_Failed) (\<lambda>_. Inr w))))"

definition submit_events :: "'c plat \<Rightarrow> 'c sworld \<Rightarrow> 'c sworld res" where
  "submit_events pl w =
     bindE (posixc_event_submit pl w (dgram_event (svr w)) POSIXC_EVENT_IN) (\<lambda>(w, ok).
     bindE (posixc_event_submit pl w (timer_event (svr w)) POSIXC_EVENT_TIMER) (\<lambda>(w, ok).
     bindE (posixc_event_submit pl w (sigint_event (svr w)) POSIXC_EVENT_SIG) (\<lambda>(w, ok). Inr w)))"

text \<open>The part of the start behind the log file: the reactor, the socket and the events.\<close>

definition start_reactor :: "'c plat \<Rightarrow> env \<Rightarrow> int \<Rightarrow> 'c sworld \<Rightarrow> 'c sworld res" where
  "start_reactor pl env interval w =
     bindE (posixc_reactor_create pl w (env_rid env) (env_reactor_mem env) (env_thread env)) (\<lambda>(w, r).
     let w = w\<lparr>svr := (svr w)\<lparr>svr_reactor := ptr_of r\<rparr>\<rparr>;
         (cs, ipcfd) = posixc_ipc_dgram_socket (env_ipc env) usockpath_log;
         w = w\<lparr>ipc_calls := ipc_calls w @ cs\<rparr> in
     bindE (assertE (ipcfd \<noteq> -1) Assert_Failed) (\<lambda>_.
     bindE (create_events pl env ipcfd w) (\<lambda>w.
     bindE (posixc_timer_event_set_interval w (timer_event (svr w)) interval True) (\<lambda>w.
     submit_events pl w))))"

definition posixc_asynclogsvr_init ::
    "'c plat \<Rightarrow> env \<Rightarrow> char list \<Rightarrow> int \<Rightarrow> int \<Rightarrow> 'c sworld \<Rightarrow> 'c sworld res" where
  "posixc_asynclogsvr_init pl env dir max_size interval w =
     (let w = w\<lparr>sigmask := posixc_block_all_signals (env_signals env) (sigmask w)\<rparr> in
     bindE (init_filename (env_clock env) dir ((svr w)\<lparr>bytes_written := 0\<rparr>)) (\<lambda>s.
     bindE (posixc_buffered_writable_init_from (env_dir_exists env) (env_open env) (buffered_writefile s)
       (cstr (filename s))) (\<lambda>(made, bw).
     let s = s\<lparr>buffered_writefile := bw, max_file_size := nat (max_size mod 2 ^ 32), flush_interval := interval\<rparr> in
     start_reactor pl env interval (w\<lparr>svr := s, dirs_made := dirs_made w @ made\<rparr>))))"

definition posixc_asynclogsvr_destroy :: "'c plat \<Rightarrow> thread_id \<Rightarrow> ('c sworld \<Rightarrow> 'c sworld run) \<Rightarrow>
    'c sworld \<Rightarrow> 'c sworld run" where
  "posixc_asynclogsvr_destroy pl self join w =
     bindR (Some (posixc_event_destroy pl self w (timer_event (svr w)))) (\<lambda>w.
     bindR (Some (posixc_event_destroy pl self w (dgram_event (svr w)))) (\<lambda>w.
     bindR (Some (posixc_event_destroy pl self w (sigint_event (svr w)))) (\<lambda>w.
     posixc_reactor_destroy pl self join w (svr_reactor (svr w)))))"

text \<open>Callbacks run in the reactor's thread. What \<open>printf\<close> prints, \<open>exit\<close> flushes.\<close>

definition farewell :: "char list" where
  "farewell = CHR 0x0A # ''bye~'' @ [CHR 0x0A]"

definition on_sigint :: "'c plat \<Rightarrow> write_os \<Rightarrow> thread_id \<Rightarrow> ('c sworld \<Rightarrow> 'c sworld run) \<Rightarrow> addr \<Rightarrow> 32 word \<Rightarrow>
    addr \<Rightarrow> 'c sworld \<Rightarrow> 'c sworld run" where
  "on_sigint pl os self join e bits arg w =
     bindR (posixc_asynclogsvr_flush os w) (\<lambda>w.
     bindR (posixc_asynclogsvr_destroy pl self join w) (\<lambda>w.
     Some (Inr (w\<lparr>console := console w @ farewell, exited := True\<rparr>))))"

definition svr_callbacks :: "'c plat \<Rightarrow> write_os \<Rightarrow> clock \<Rightarrow> thread_id \<Rightarrow> ('c sworld \<Rightarrow> 'c sworld run) \<Rightarrow>
    nat \<Rightarrow> addr \<Rightarrow> 32 word \<Rightarrow> addr \<Rightarrow> 'c sworld \<Rightarrow> 'c sworld run" where
  "svr_callbacks pl os cl self join c =
     (if c = 0 then on_dgram os cl else if c = 1 then on_clock os else on_sigint pl os self join)"

section \<open>The log\<close>

text \<open>The invariant of the server's structure, and the text logged so far: what the file holds, followed
  by what is still buffered.\<close>

definition svr_ok :: "posixc_asynclogsvr \<Rightarrow> bool" where
  "svr_ok s \<longleftrightarrow> bw_ok (buffered_writefile s) \<and> length (filename s) = 256 \<and> dirlen s \<le> 180"

definition log_stream :: "'c sworld \<Rightarrow> char list" where
  "log_stream w = stream (out w, buffered_writefile (svr w))"

definition log_fd :: "'c sworld \<Rightarrow> int" where
  "log_fd w = bfd (buffered_writefile (svr w))"

definition log_name :: "clock \<Rightarrow> posixc_asynclogsvr \<Rightarrow> char option list" where
  "log_name cl s = take (dirlen s) (filename s) @ map Some (logfile_text (now cl)) @
     Some (CHR 0x00) # drop (dirlen s + 24) (filename s)"

text \<open>A flush returns whatever the system answers; when it fails, the end of the buffered bytes is lost.\<close>

lemma svr_flush_any:
  assumes "kernel_ok os" "progress os" "svr_ok (svr w)"
  obtains o' lost where "posixc_asynclogsvr_flush os w = Some (Inr (w\<lparr>out := o',
      svr := (svr w)\<lparr>buffered_writefile := (buffered_writefile (svr w))\<lparr>pos := 0\<rparr>\<rparr>\<rparr>))"
    "bytes_of o' (log_fd w) @ lost = log_stream w" "lost \<noteq> [] \<longrightarrow> may_fail os"
proof -
  let ?bw = "buffered_writefile (svr w)"
  have "bw_ok ?bw" using assms(3) by (simp add: svr_ok_def)
  from flush_ok [OF assms(1,2) this, of "out w"] obtain o' ok where
    o': "posixc_flush os (out w) ?bw = Some (Inr ((o', ?bw\<lparr>pos := 0\<rparr>), ok))"
      "wrote (bfd ?bw) (take (pos ?bw) (bbuf ?bw)) (out w) (o', ok)" "\<not> ok \<longrightarrow> may_fail os" by blast
  obtain k where k: "bytes_of o' (bfd ?bw) = bytes_of (out w) (bfd ?bw) @ take k (take (pos ?bw) (bbuf ?bw))"
    using wrote_part [OF o'(2)] by blast
  let ?lost = "if ok then [] else drop k (take (pos ?bw) (bbuf ?bw))"
  have "bytes_of o' (log_fd w) @ ?lost = log_stream w"
    using wrote_all [OF o'(2)] k by (auto simp: log_fd_def log_stream_def stream_simps simp del: take_take)
  then show ?thesis using that [of o' ?lost] o'(1,3) by (auto simp: posixc_asynclogsvr_flush_def split: if_splits)
qed

lemma svr_flush_ok:
  assumes "reliable os" "svr_ok (svr w)"
  obtains o' where "posixc_asynclogsvr_flush os w = Some (Inr (w\<lparr>out := o',
      svr := (svr w)\<lparr>buffered_writefile := (buffered_writefile (svr w))\<lparr>pos := 0\<rparr>\<rparr>\<rparr>))"
    "bytes_of o' (log_fd w) = log_stream w"
  using svr_flush_any [of os w] assms unfolding reliable_def by (metis append_Nil2)

lemma update_filename_ok:
  assumes "length (filename s) = 256" "dirlen s \<le> 180"
  shows "update_filename cl s = Inr (s\<lparr>filename := log_name cl s\<rparr>)"
  using assms timestr_logfile_ok [of "drop (dirlen s) (filename s)" "other cl" "now cl"]
  by (simp add: update_filename_def log_name_def add.commute)

lemma log_name_length: "length (filename s) = 256 \<Longrightarrow> dirlen s \<le> 180 \<Longrightarrow> length (log_name cl s) = 256"
  by (simp add: log_name_def)

lemma svr_roll_any:
  assumes "kernel_ok os" "progress os" "svr_ok (svr w)"
  obtains o' lost where "posixc_asynclogsvr_roll os cl w = Some (Inr (w\<lparr>out := o', svr := (svr w)\<lparr>
      buffered_writefile := (buffered_writefile (svr w))\<lparr>pos := 0\<rparr>, filename := log_name cl (svr w),
      bytes_written := 0\<rparr>\<rparr>))"
    "bytes_of o' (log_fd w) @ lost = log_stream w" "lost \<noteq> [] \<longrightarrow> may_fail os"
proof -
  obtain o' lost where o': "posixc_asynclogsvr_flush os w = Some (Inr (w\<lparr>out := o',
      svr := (svr w)\<lparr>buffered_writefile := (buffered_writefile (svr w))\<lparr>pos := 0\<rparr>\<rparr>\<rparr>))"
    "bytes_of o' (log_fd w) @ lost = log_stream w" "lost \<noteq> [] \<longrightarrow> may_fail os" using svr_flush_any [OF assms] .
  let ?s = "(svr w)\<lparr>buffered_writefile := (buffered_writefile (svr w))\<lparr>pos := 0\<rparr>\<rparr>"
  have "update_filename cl ?s = Inr (?s\<lparr>filename := log_name cl (svr w)\<rparr>)"
    using assms(3) update_filename_ok [of ?s cl] by (simp add: svr_ok_def log_name_def)
  then show ?thesis using o' that by (simp add: posixc_asynclogsvr_roll_def)
qed

text \<open>The pointers of the server: its reactor and its events.\<close>

definition svr_ptrs :: "posixc_asynclogsvr \<Rightarrow> addr \<times> addr \<times> addr \<times> addr" where
  "svr_ptrs s = (svr_reactor s, dgram_event s, timer_event s, sigint_event s)"

lemma svr_ptrs_update [simp]:
  "svr_ptrs (s\<lparr>buffered_writefile := bw\<rparr>) = svr_ptrs s" "svr_ptrs (s\<lparr>filename := f\<rparr>) = svr_ptrs s"
  "svr_ptrs (s\<lparr>bytes_written := n\<rparr>) = svr_ptrs s"
  by (simp_all add: svr_ptrs_def)

text \<open>One datagram: it is appended to the log, cut to a page, unless a write fails, which loses the end; nothing but
  the server's own state changes.\<close>

lemma on_dgram_any:
  assumes os: "kernel_ok os" "progress os" and ok: "svr_ok (svr w)" and e: "events w e = Some ev" and box: "inbox w = d # ds"
  shows "\<exists>o' s lost. on_dgram os cl e bits arg w = Some (Inr (w\<lparr>inbox := ds, out := o', svr := s\<rparr>)) \<and> svr_ok s \<and>
    stream (o', buffered_writefile s) @ lost = log_stream w @ take one_page d \<and> (lost \<noteq> [] \<longrightarrow> may_fail os) \<and>
    bfd (buffered_writefile s) = log_fd w \<and> svr_ptrs s = svr_ptrs (svr w)"
proof (cases "d = []")
  case True
  then have "on_dgram os cl e bits arg w = Some (Inr (w\<lparr>inbox := ds, out := out w, svr := svr w\<rparr>))"
    using box e by (simp add: on_dgram_def read_dgram_def)
  then show ?thesis using True ok
    by (intro exI [of _ "out w"] exI [of _ "svr w"] exI [of _ "[]"]) (simp add: log_stream_def log_fd_def)
next
  case False
  let ?b = "take one_page d" and ?w = "w\<lparr>inbox := ds\<rparr>"
  have b: "length ?b < size_mod" "0 < length ?b" "bw_ok (buffered_writefile (svr w))"
    using False ok by (simp_all add: one_page_def size_mod_def svr_ok_def)
  obtain o1 bw ok1 l1 where wr: "posixc_buffered_write os (out w) (buffered_writefile (svr w)) ?b (length ?b) =
      Some (Inr ((o1, bw), ok1))" "bw_ok bw" "bfd bw = log_fd w" "stream (o1, bw) @ l1 = log_stream w @ ?b"
      "l1 \<noteq> [] \<longrightarrow> may_fail os"
    using buffered_write_ok [OF os b(3,1), of "out w"] unfolding log_stream_def log_fd_def by blast
  define s where "s = (svr w)\<lparr>buffered_writefile := bw, bytes_written := szt_add (bytes_written (svr w)) (length ?b)\<rparr>"
  let ?w1 = "w\<lparr>inbox := ds, out := o1, svr := s\<rparr>"
  have s: "svr_ok (svr ?w1)" "buffered_writefile s = bw" "svr_ptrs s = svr_ptrs (svr w)"
    using ok wr(2) by (simp_all add: svr_ok_def s_def svr_ptrs_def)
  have run: "on_dgram os cl e bits arg w =
      (if bytes_written s > max_file_size s then posixc_asynclogsvr_roll os cl ?w1 else Some (Inr ?w1))"
    using box e b(2) wr(1) unfolding s_def by (simp add: on_dgram_def read_dgram_def Let_def)
  show ?thesis
  proof (cases "bytes_written s > max_file_size s")
    case True
    obtain o2 l2 where o2: "posixc_asynclogsvr_roll os cl ?w1 = Some (Inr (?w1\<lparr>out := o2, svr := s\<lparr>
        buffered_writefile := bw\<lparr>pos := 0\<rparr>, filename := log_name cl s, bytes_written := 0\<rparr>\<rparr>))"
      "bytes_of o2 (bfd bw) @ l2 = stream (o1, bw)" "l2 \<noteq> [] \<longrightarrow> may_fail os"
      using svr_roll_any [OF os s(1), of cl] s(2) by (auto simp: log_fd_def log_stream_def)
    let ?s = "s\<lparr>buffered_writefile := bw\<lparr>pos := 0\<rparr>, filename := log_name cl s, bytes_written := 0\<rparr>"
    have "svr_ok ?s" using s(1) wr(2) log_name_length by (simp add: svr_ok_def bw_ok_def)
    moreover have "stream (o2, bw\<lparr>pos := 0\<rparr>) @ l2 @ l1 = log_stream w @ ?b"
      using o2(2) wr(4) by (simp add: stream_simps [of o2] flip: append.assoc)
    ultimately show ?thesis using run True o2(1,3) wr(3,5) s(3)
      by (intro exI [of _ o2] exI [of _ ?s] exI [of _ "l2 @ l1"]) auto
  next
    case False
    then show ?thesis using run s wr by (intro exI [of _ o1] exI [of _ s] exI [of _ l1]) simp
  qed
qed

lemma on_dgram_ok:
  assumes "reliable os" "svr_ok (svr w)" "events w e = Some ev" "inbox w = d # ds"
  shows "\<exists>o' s. on_dgram os cl e bits arg w = Some (Inr (w\<lparr>inbox := ds, out := o', svr := s\<rparr>)) \<and> svr_ok s \<and>
    stream (o', buffered_writefile s) = log_stream w @ take one_page d \<and>
    bfd (buffered_writefile s) = log_fd w \<and> svr_ptrs s = svr_ptrs (svr w)"
  using on_dgram_any [of os w e ev d ds cl bits arg] assms unfolding reliable_def by auto

section \<open>The name of the log file\<close>

lemma chop_slash: "dir \<noteq> [] \<Longrightarrow> last dir = CHR ''/'' \<Longrightarrow> chop dir @ [CHR ''/''] = dir"
  using append_butlast_last_id [of dir] by (simp add: chop_def)

lemma digit_not: "digit n \<noteq> CHR 0x00" "digit n \<noteq> CHR ''/''"
proof -
  have "(48 + n mod 10) mod 256 = 48 + n mod 10" by (rule mod_less) (use mod_less_divisor [of 10 n] in linarith)
  then have "of_char (digit n) = 48 + n mod 10" by (simp add: digit_def del: mod_less)
  moreover have "of_char (CHR 0x00) = (0 :: nat)" "of_char (CHR ''/'') = (47 :: nat)" by simp_all
  ultimately show "digit n \<noteq> CHR 0x00" "digit n \<noteq> CHR ''/''" by (metis add_is_0 zero_neq_numeral, force)
qed

lemma logfile_text_chars: "CHR 0x00 \<notin> set (logfile_text t)" "CHR ''/'' \<notin> set (logfile_text t)"
  by (auto simp: logfile_text_def four_digits_def two_digits_def digit_not digit_not [symmetric])

lemma starts_cstr: "starts f (xs @ [nul]) \<Longrightarrow> nul \<notin> set xs \<Longrightarrow> cstr f = xs"
proof -
  assume "starts f (xs @ [nul])" "nul \<notin> set xs"
  then have "f = (map Some xs @ [Some nul]) @ drop (Suc (length xs)) f"
    by (metis append_take_drop_id length_append_singleton list.simps(8,9) map_append starts_def)
  then show "cstr f = xs" using cstr_simps [OF \<open>nul \<notin> set xs\<close>] by (metis append.assoc append_Cons append_Nil)
qed

text \<open>The name is the directory with exactly one slash added when it has none, and the time.\<close>

lemma init_filename_ok:
  assumes len: "length (filename s) = 256" and dir: "dir \<noteq> []" "length dir < 180"
  shows "\<exists>f. init_filename cl dir s = Inr (s\<lparr>filename := f, dirlen := Suc (length (chop dir))\<rparr>) \<and>
    length f = 256 \<and> starts f ((chop dir @ CHR ''/'' # logfile_text (now cl)) @ [nul])"
proof -
  have "starts (filename s) []" by (simp add: starts_def)
  from starts_blit [OF this, of "length dir + 1" "dir @ [nul]"] obtain f0 where
    f0: "blit (filename s) 0 (map Some (dir @ [nul])) (length dir + 1) = Inr f0" "starts f0 (dir @ [nul])"
      "length f0 = 256" using len dir by auto
  have st: "starts f0 dir" using f0(2) by (rule starts_append)
  have lst: "rd_char f0 (szt_sub (length dir) 1) = Inr (last dir)"
  proof -
    have "szt_sub (length dir) 1 = length dir - 1" using dir
      by (cases dir) (auto simp: szt_sub_def size_mod_def)
    moreover have "f0 = map Some dir @ drop (length dir) f0"
      using st by (metis append_take_drop_id starts_def)
    ultimately show ?thesis using rd_char_in [of "length dir - 1" dir "drop (length dir) f0"] dir(1)
      by (simp add: last_conv_nth)
  qed
  let ?n = "Suc (length (chop dir))"
  have swap: "s\<lparr>dirlen := n, filename := f\<rparr> = s\<lparr>filename := f, dirlen := n\<rparr>" for n f by (cases s) simp
  obtain f1 where f1: "init_filename cl dir s = update_filename cl (s\<lparr>filename := f1, dirlen := ?n\<rparr>)" "length f1 = 256" "starts f1 (chop dir @ [CHR ''/''])"
  proof (cases "last dir = CHR ''/''")
    case True
    then have "length dir = ?n" using dir(1) by (simp add: chop_def)
    then show ?thesis using that [of f0] True f0 st lst dir(2) chop_slash [OF dir(1) True]
      by (simp add: init_filename_def swap)
  next
    case False
    then obtain f where "wr f0 (length dir) (Some (CHR ''/'')) = Inr f" "starts f (dir @ [CHR ''/''])"
      "length f = 256" using starts_wr [OF st] f0(3) dir(2) by auto
    then show ?thesis using that [of f] False f0(1) lst dir(2) by (simp add: chop_def init_filename_def)
  qed
  have n: "?n \<le> 180" using dir by (auto simp: chop_def)
  let ?s = "s\<lparr>filename := f1, dirlen := ?n\<rparr>"
  have "take ?n f1 = map Some (chop dir @ [CHR ''/''])" using f1(3) by (simp add: starts_def)
  then have "starts (log_name cl ?s) ((chop dir @ CHR ''/'' # logfile_text (now cl)) @ [nul])"
    using f1(2) n by (simp add: starts_def log_name_def)
  moreover have "init_filename cl dir s = Inr (?s\<lparr>filename := log_name cl ?s\<rparr>)"
    using f1(1,2) n update_filename_ok [of ?s cl] by simp
  ultimately show ?thesis using log_name_length [of ?s cl] f1(2) n
    by (intro exI [of _ "log_name cl ?s"]) (simp add: swap)
qed

section \<open>Events of the server\<close>

text \<open>The operations on events leave the part of the world that belongs to the server alone.\<close>

lemma svr_frame:
  fixes w w' :: "'c sworld"
  assumes "rworld.more w' = rworld.more w"
  shows "svr w' = svr w" "out w' = out w" "inbox w' = inbox w" "exited w' = exited w"
    "dirs_made w' = dirs_made w" "console w' = console w"
  using assms by (cases w; cases w'; simp)+

text \<open>The three events of the server exist and are open, and the server's pointers are to them.\<close>

definition svr_events :: "'c sworld \<Rightarrow> bool" where
  "svr_events w \<longleftrightarrow> distinct [timer_event (svr w), dgram_event (svr w), sigint_event (svr w)] \<and>
     (\<forall>e \<in> {timer_event (svr w), dgram_event (svr w), sigint_event (svr w)}.
        case events w e of None \<Rightarrow> False | Some ev \<Rightarrow> \<not> e_closing ev)"

definition closing_calls :: "'c sworld \<Rightarrow> addr \<Rightarrow> syscall list" where
  "closing_calls w e = [Shutdown (fd_of w e), Close (fd_of w e)]"

lemma svr_destroy_ok:
  assumes inv: "gc_inv pl r w es" and rc: "reactors w r = Some rc" and r: "svr_reactor (svr w) = r"
    and ev: "svr_events w"
  shows "\<exists>w'. posixc_asynclogsvr_destroy pl (r_thread rc) (\<lambda>w. Some (Inr w)) w = Some (Inr w') \<and>
    rworld.more w' = rworld.more w \<and> reactors w' r = None \<and>
    events w' = events w |` (- (set es \<union> {timer_event (svr w), dgram_event (svr w), sigint_event (svr w)})) \<and>
    syscalls w' = syscalls w @ closing_calls w (timer_event (svr w)) @ closing_calls w (dgram_event (svr w)) @
      closing_calls w (sigint_event (svr w)) @ map (Close \<circ> fd_of w) es @ [Close (r_id rc)]"
proof -
  let ?t = "timer_event (svr w)" and ?d = "dgram_event (svr w)" and ?s = "sigint_event (svr w)"
  obtain et ed es' where e: "events w ?t = Some et" "\<not> e_closing et" "events w ?d = Some ed" "\<not> e_closing ed"
    "events w ?s = Some es'" "\<not> e_closing es'" and ne: "?t \<noteq> ?d" "?t \<noteq> ?s" "?d \<noteq> ?s"
    using ev by (auto simp: svr_events_def split: option.splits)
  have q: "?t \<notin> set es" "?d \<notin> set es" "?s \<notin> set es"
    using inv e queued_iff [of pl r w es] by (auto simp: gc_own_def)
  obtain w1 where w1: "posixc_event_destroy pl (r_thread rc) w ?t = Inr w1" "gc_inv pl r w1 es"
    "events w1 = (events w)(?t := None)" "reactors w1 = reactors w" "rworld.more w1 = rworld.more w"
    "syscalls w1 = syscalls w @ closing_calls w ?t"
    using destroy_reactor [OF inv e(1,2) rc refl] e(1) by (auto simp: closing_calls_def fd_of_def)
  obtain w2 where w2: "posixc_event_destroy pl (r_thread rc) w1 ?d = Inr w2" "gc_inv pl r w2 es"
    "events w2 = (events w1)(?d := None)" "reactors w2 = reactors w" "rworld.more w2 = rworld.more w"
    "syscalls w2 = syscalls w1 @ closing_calls w ?d"
    using destroy_reactor [OF w1(2), of ?d ed rc] e(3,4) ne rc w1(3-5)
    by (auto simp: closing_calls_def fd_of_def)
  obtain w3 where w3: "posixc_event_destroy pl (r_thread rc) w2 ?s = Inr w3" "gc_inv pl r w3 es"
    "events w3 = (events w2)(?s := None)" "reactors w3 = reactors w" "rworld.more w3 = rworld.more w"
    "syscalls w3 = syscalls w2 @ closing_calls w ?s"
    using destroy_reactor [OF w2(2), of ?s es' rc] e(5,6) ne rc w1(3) w2(3-5)
    by (auto simp: closing_calls_def fd_of_def)
  have rc3: "reactors w3 r = Some rc" using rc w3(4) by simp
  have "map (Close \<circ> fd_of w3) es = map (Close \<circ> fd_of w) es"
    using q w1(3) w2(3) w3(3) by (auto simp: fd_of_def)
  then obtain w4 where w4: "posixc_reactor_gc pl (r_thread rc) w3 r = Some (Inr w4)"
    "events w4 = (events w3) |` (- set es)" "reactors w4 = reactors w" "rworld.more w4 = rworld.more w"
    "syscalls w4 = syscalls w3 @ map (Close \<circ> fd_of w) es"
    using reactor_gc_ok [OF w3(2) rc3] w3(4,5) by auto
  let ?w = "log_sys (put_reactor w4 r (rc\<lparr>r_closing := True\<rparr>)) [Close (r_id rc)]"
  let ?w5 = "?w\<lparr>reactors := (reactors ?w)(r := None), lists := (lists ?w)(r + gc_off pl := None)\<rparr>"
  have "svr w1 = svr w" "svr w2 = svr w" "svr w3 = svr w"
    using svr_frame(1) w1(5) w2(5) w3(5) by blast+
  then have "posixc_asynclogsvr_destroy pl (r_thread rc) (\<lambda>w. Some (Inr w)) w = Some (Inr ?w5)"
    using w1(1) w2(1) w3(1) w4(1,3) rc r
    by (simp add: posixc_asynclogsvr_destroy_def posixc_reactor_destroy_def Let_def)
  moreover have "events ?w5 = events w |` (- (set es \<union> {?t, ?d, ?s}))"
    using w1(3) w2(3) w3(3) w4(2) by (auto simp: restrict_map_def)
  ultimately show ?thesis using w1(6) w2(6) w3(6) w4(4,5) by (intro exI [of _ ?w5]) simp
qed

section \<open>Start with kqueue\<close>

lemma gc_inv_svr [simp]:
  fixes w :: "'c sworld"
  shows "gc_inv pl r (w\<lparr>svr := s\<rparr>) es \<longleftrightarrow> gc_inv pl r w es"
  by (simp add: gc_own_def event_own_def)

text \<open>The calls of the kernel for the start of the server: one that registers each event, disabled, and
  one that enables each. \<open>ms\<close> is the interval of the timer.\<close>

definition register_calls :: "int \<Rightarrow> int \<Rightarrow> int \<Rightarrow> addr \<Rightarrow> addr \<Rightarrow> addr \<Rightarrow> kcall list" where
  "register_calls rid sock tid d t s =
     [(rid, [EV_SET (to_u64 sock) EVFILT_READ {EV_ADD, EV_DISABLE, EV_CLEAR} 0 d,
             EV_SET (to_u64 sock) EVFILT_WRITE {EV_ADD, EV_DISABLE, EV_CLEAR} 0 d]),
      (rid, [EV_SET (to_u64 tid) EVFILT_TIMER {EV_ADD, EV_DISABLE, EV_CLEAR} 0 t]),
      (rid, [EV_SET (to_u64 SIGINT) EVFILT_SIGNAL {EV_ADD, EV_DISABLE, EV_CLEAR} 0 s])]"

definition enable_calls :: "int \<Rightarrow> int \<Rightarrow> int \<Rightarrow> int \<Rightarrow> addr \<Rightarrow> addr \<Rightarrow> addr \<Rightarrow> kcall list" where
  "enable_calls rid sock tid ms d t s =
     [(rid, [EV_SET (to_u64 sock) EVFILT_READ {EV_ENABLE, EV_DISPATCH, EV_CLEAR} 0 d]),
      (rid, [EV_SET (to_u64 tid) EVFILT_TIMER {EV_ENABLE, EV_CLEAR} (to_u64 ms) t]),
      (rid, [EV_SET (to_u64 SIGINT) EVFILT_SIGNAL {EV_ENABLE, EV_CLEAR} 0 s])]"

lemma kq_create_succeeds:
  assumes inv: "gc_inv kq_plat r w es" "reactors w r = Some rc" "\<forall>n. plat_answer w n"
    and call: "kq_plat_create (r_id rc) e (new_event r fd cb arg ty) = Some c"
    and new: "events w e = None" "node_of kq_plat e \<notin> dom (lists w)"
  shows "\<exists>w'. posixc_event_create kq_plat w (Some e) r fd cb arg ty = Inr (w', Some e) \<and>
    gc_inv kq_plat r w' es \<and> reactors w' = reactors w \<and> rworld.more w' = rworld.more w \<and>
    plat_answer w' = plat_answer w \<and> events w' = (events w)(e \<mapsto> new_event r fd cb arg ty) \<and>
    dom (lists w') = insert (node_of kq_plat e) (dom (lists w)) \<and> plat_calls w' = plat_calls w @ [c]"
proof -
  have "plat_create kq_plat (r_id rc) e (new_event r fd cb arg ty) = Some c" using call by (simp add: kq_plat_def)
  then show ?thesis using event_create_ok [OF inv(1) new inv(2), of fd cb arg ty] inv(3) by auto
qed

lemma create_events_ok:
  fixes w :: "kcall sworld"
  assumes inv: "gc_inv kq_plat r w []" "reactors w r = Some rc" "svr_reactor (svr w) = r" "\<forall>n. plat_answer w n"
    and mem: "map (env_event_mem env) [0, 1, 2] = [Some d, Some t, Some s]" "distinct [d, t, s]"
    and new: "events w = Map.empty" "\<forall>e \<in> {d, t, s}. node_of kq_plat e \<notin> dom (lists w)"
  shows "\<exists>w'. create_events kq_plat env fd w = Inr w' \<and> gc_inv kq_plat r w' [] \<and> reactors w' = reactors w \<and>
    svr w' = (svr w)\<lparr>dgram_event := d, timer_event := t, sigint_event := s\<rparr> \<and>
    events w' = [d \<mapsto> new_event r fd (Some 0) (env_svr env) SOCK_EV,
      t \<mapsto> new_event r (snd (posixc_unique_event_id (env_timer_id env))) (Some 1) (env_svr env) TIMER_EV,
      s \<mapsto> new_event r SIGINT (Some 2) (env_svr env) SIG_EV] \<and>
    plat_calls w' = plat_calls w @
      register_calls (r_id rc) fd (snd (posixc_unique_event_id (env_timer_id env))) d t s \<and>
    out w' = out w \<and> inbox w' = inbox w \<and>
    dirs_made w' = dirs_made w \<and> exited w' = exited w"
proof -
  let ?id = "snd (posixc_unique_event_id (env_timer_id env))" and ?sv = "env_svr env" and ?k = "r_id rc"
  have calls: "kq_plat_create ?k d (new_event r fd (Some 0) ?sv SOCK_EV) = Some (register_calls ?k fd ?id d t s ! 0)"
    "kq_plat_create ?k t (new_event r ?id (Some 1) ?sv TIMER_EV) = Some (register_calls ?k fd ?id d t s ! 1)"
    "kq_plat_create ?k s (new_event r SIGINT (Some 2) ?sv SIG_EV) = Some (register_calls ?k fd ?id d t s ! 2)"
    by (simp_all add: kq_plat_create_def register_calls_def kevent_defs new_event_def event_types)
  have m: "env_event_mem env 0 = Some d" "env_event_mem env 1 = Some t" "env_event_mem env 2 = Some s"
    "env_event_mem env (Suc 0) = Some t" using mem(1) by simp_all
  obtain w1 where w1: "posixc_event_create kq_plat w (Some d) r fd (Some 0) ?sv SOCK_EV = Inr (w1, Some d)"
    "gc_inv kq_plat r w1 []" "reactors w1 = reactors w" "rworld.more w1 = rworld.more w"
    "plat_answer w1 = plat_answer w" "events w1 = [d \<mapsto> new_event r fd (Some 0) ?sv SOCK_EV]"
    "dom (lists w1) = insert (node_of kq_plat d) (dom (lists w))"
    "plat_calls w1 = plat_calls w @ [register_calls ?k fd ?id d t s ! 0]"
    using kq_create_succeeds [OF inv(1,2,4) calls(1)] new by auto
  let ?w1 = "w1\<lparr>svr := (svr w)\<lparr>dgram_event := d\<rparr>\<rparr>"
  obtain w2 where w2: "posixc_event_create kq_plat ?w1 (Some t) r ?id (Some 1) ?sv TIMER_EV = Inr (w2, Some t)"
    "gc_inv kq_plat r w2 []" "reactors w2 = reactors w" "rworld.more w2 = rworld.more ?w1"
    "plat_answer w2 = plat_answer w" "events w2 = (events w1)(t \<mapsto> new_event r ?id (Some 1) ?sv TIMER_EV)"
    "dom (lists w2) = insert (node_of kq_plat t) (dom (lists w1))"
    "plat_calls w2 = plat_calls w1 @ [register_calls ?k fd ?id d t s ! 1]"
    using kq_create_succeeds [OF _ _ _ calls(2), of ?w1 "[]"] inv(2,4) new w1 mem(2) by auto
  let ?w2 = "w2\<lparr>svr := (svr w)\<lparr>dgram_event := d, timer_event := t\<rparr>\<rparr>"
  obtain w3 where w3: "posixc_event_create kq_plat ?w2 (Some s) r SIGINT (Some 2) ?sv SIG_EV = Inr (w3, Some s)"
    "gc_inv kq_plat r w3 []" "reactors w3 = reactors w" "rworld.more w3 = rworld.more ?w2"
    "events w3 = (events w2)(s \<mapsto> new_event r SIGINT (Some 2) ?sv SIG_EV)"
    "plat_calls w3 = plat_calls w2 @ [register_calls ?k fd ?id d t s ! 2]"
    using kq_create_succeeds [OF _ _ _ calls(3), of ?w2 "[]"] inv(2,4) new w1 w2 mem(2) by auto
  note f1 = svr_frame [OF w1(4)] and f2 = svr_frame [OF w2(4)] and f3 = svr_frame [OF w3(4)]
  let ?w3 = "w3\<lparr>svr := (svr w)\<lparr>dgram_event := d, timer_event := t, sigint_event := s\<rparr>\<rparr>"
  have "create_events kq_plat env fd w = Inr ?w3"
    using w1(1) w2(1) w3(1) m inv(3) f1 f2 f3
    by (simp add: create_events_def ptr_of_def Let_def case_prod_beta)
  moreover have "[register_calls ?k fd ?id d t s ! 0, register_calls ?k fd ?id d t s ! 1,
      register_calls ?k fd ?id d t s ! 2] = register_calls ?k fd ?id d t s" by (simp add: register_calls_def)
  then have "plat_calls w3 = plat_calls w @ register_calls ?k fd ?id d t s" using w1(8) w2(8) w3(6) by simp
  ultimately show ?thesis using w1 w2 w3 f1 f2 f3 by (intro exI [of _ ?w3]) simp
qed

lemma kq_submit_succeeds:
  assumes inv: "gc_inv kq_plat r w es" and e: "events w e = Some ev" "\<not> e_closing ev" and rc: "reactors w r = Some rc"
    and new: "evmask ev = 0" "kq_plat_submit (r_id rc) e (ev\<lparr>e_mtx := True, evmask := evs\<rparr>) = Some c"
  shows "\<exists>w' ok. posixc_event_submit kq_plat w e evs = Inr (w', ok) \<and> gc_inv kq_plat r w' es \<and>
    reactors w' = reactors w \<and> rworld.more w' = rworld.more w \<and> events w' = (events w)(e \<mapsto> ev\<lparr>evmask := evs\<rparr>) \<and>
    plat_calls w' = plat_calls w @ [c]"
proof -
  have "plat_submit kq_plat (r_id rc) e (ev\<lparr>e_mtx := True, evmask := evs\<rparr>) = Some c" using new(2) by (simp add: kq_plat_def)
  then show ?thesis using event_submit_ok [OF inv e(1) rc, of evs] new(1) e(2) by fastforce
qed

text \<open>The events of the server once they wait: for the socket, the timer with an interval, and the signal.\<close>

definition waiting :: "addr \<Rightarrow> addr \<Rightarrow> int \<Rightarrow> int \<Rightarrow> int \<Rightarrow> addr \<Rightarrow> addr \<Rightarrow> addr \<Rightarrow> addr \<rightharpoonup> posixc_event" where
  "waiting r sv sock tid ms d t s =
     [d \<mapsto> (new_event r sock (Some 0) sv SOCK_EV)\<lparr>evmask := POSIXC_EVENT_IN\<rparr>,
      t \<mapsto> (new_event r tid (Some 1) sv TIMER_EV)\<lparr>evmask := POSIXC_EVENT_TIMER,
        data_1 := POSIXC_TIMER_PERIODIC, data_2 := to_u64 ms\<rparr>,
      s \<mapsto> (new_event r SIGINT (Some 2) sv SIG_EV)\<lparr>evmask := POSIXC_EVENT_SIG\<rparr>]"

lemma submit_events_ok:
  fixes w :: "kcall sworld"
  assumes inv: "gc_inv kq_plat r w []" "reactors w r = Some rc"
    and ptr: "dgram_event (svr w) = d" "timer_event (svr w) = t" "sigint_event (svr w) = s" "distinct [d, t, s]"
    and ev: "events w = [d \<mapsto> new_event r sock (Some 0) sv SOCK_EV, t \<mapsto> new_event r tid (Some 1) sv TIMER_EV,
      s \<mapsto> new_event r SIGINT (Some 2) sv SIG_EV]"
  shows "\<exists>w0 w'. posixc_timer_event_set_interval w t ms True = Inr w0 \<and> svr w0 = svr w \<and>
    submit_events kq_plat w0 = Inr w' \<and> gc_inv kq_plat r w' [] \<and> reactors w' = reactors w \<and>
    rworld.more w' = rworld.more w \<and> events w' = waiting r sv sock tid ms d t s \<and>
    plat_calls w' = plat_calls w @ enable_calls (r_id rc) sock tid ms d t s"
proof -
  let ?d = "new_event r sock (Some 0) sv SOCK_EV" and ?s = "new_event r SIGINT (Some 2) sv SIG_EV"
  let ?t = "(new_event r tid (Some 1) sv TIMER_EV)\<lparr>data_1 := POSIXC_TIMER_PERIODIC, data_2 := to_u64 ms\<rparr>"
  let ?c = "\<lambda>i. enable_calls (r_id rc) sock tid ms d t s ! i"
  have calls: "kq_plat_submit (r_id rc) d (?d\<lparr>e_mtx := True, evmask := POSIXC_EVENT_IN\<rparr>) = Some (?c 0)"
    "kq_plat_submit (r_id rc) t (?t\<lparr>e_mtx := True, evmask := POSIXC_EVENT_TIMER\<rparr>) = Some (?c 1)"
    "kq_plat_submit (r_id rc) s (?s\<lparr>e_mtx := True, evmask := POSIXC_EVENT_SIG\<rparr>) = Some (?c 2)"
    by (simp_all add: kq_plat_submit_def enable_calls_def kevent_defs new_event_def event_types event_bits Let_def
        POSIXC_TIMER_PERIODIC_def)
  have ne: "d \<noteq> t" "d \<noteq> s" "t \<noteq> s" using ptr(4) by auto
  obtain w0 where w0: "posixc_timer_event_set_interval w t ms True = Inr w0" "gc_inv kq_plat r w0 []"
    "reactors w0 = reactors w" "rworld.more w0 = rworld.more w" "plat_calls w0 = plat_calls w"
    "events w0 = (events w)(t \<mapsto> ?t)"
    using set_interval_ok [OF inv(1), of t "new_event r tid (Some 1) sv TIMER_EV" ms True] ev ne by auto
  obtain w1 ok1 where w1: "posixc_event_submit kq_plat w0 d POSIXC_EVENT_IN = Inr (w1, ok1)" "gc_inv kq_plat r w1 []"
    "reactors w1 = reactors w" "rworld.more w1 = rworld.more w"
    "events w1 = (events w0)(d \<mapsto> ?d\<lparr>evmask := POSIXC_EVENT_IN\<rparr>)"
    "plat_calls w1 = plat_calls w0 @ [?c 0]"
    using kq_submit_succeeds [OF w0(2) _ _ _ _ calls(1)] w0 ev ne inv(2)
    by (auto simp: new_event_def)
  obtain w2 ok2 where w2: "posixc_event_submit kq_plat w1 t POSIXC_EVENT_TIMER = Inr (w2, ok2)"
    "gc_inv kq_plat r w2 []" "reactors w2 = reactors w" "rworld.more w2 = rworld.more w"
    "events w2 = (events w1)(t \<mapsto> ?t\<lparr>evmask := POSIXC_EVENT_TIMER\<rparr>)"
    "plat_calls w2 = plat_calls w1 @ [?c 1]"
    using kq_submit_succeeds [OF w1(2) _ _ _ _ calls(2)] w0 w1 ne inv(2)
    by (auto simp: new_event_def)
  obtain w3 ok3 where w3: "posixc_event_submit kq_plat w2 s POSIXC_EVENT_SIG = Inr (w3, ok3)"
    "gc_inv kq_plat r w3 []" "reactors w3 = reactors w" "rworld.more w3 = rworld.more w"
    "events w3 = (events w2)(s \<mapsto> ?s\<lparr>evmask := POSIXC_EVENT_SIG\<rparr>)"
    "plat_calls w3 = plat_calls w2 @ [?c 2]"
    using kq_submit_succeeds [OF w2(2) _ _ _ _ calls(3)] w0 w1 w2 ev ne inv(2)
    by (auto simp: new_event_def)
  have "submit_events kq_plat w0 = Inr w3"
    using w1(1) w2(1) w3(1) ptr svr_frame(1) [OF w0(4)] svr_frame(1) [OF w1(4)] svr_frame(1) [OF w2(4)]
    by (simp add: submit_events_def)
  moreover have "events w3 = waiting r sv sock tid ms d t s"
    using w0(6) w1(5) w2(5) w3(5) ev ne by (auto simp: waiting_def new_event_def fun_eq_iff)
  moreover have "plat_calls w3 = plat_calls w @ enable_calls (r_id rc) sock tid ms d t s"
    using w0(5) w1(6) w2(6) w3(6) by (simp add: enable_calls_def)
  ultimately show ?thesis using w0(1,4) svr_frame(1) [OF w0(4)] w3(2,3,4) by auto
qed

text \<open>Creation and submission together.\<close>

lemma start_events_ok:
  fixes w :: "kcall sworld"
  assumes inv: "gc_inv kq_plat r w []" "reactors w r = Some rc" "svr_reactor (svr w) = r" "\<forall>n. plat_answer w n"
    and mem: "map (env_event_mem env) [0, 1, 2] = [Some d, Some t, Some s]" "distinct [d, t, s]"
    and new: "events w = Map.empty" "\<forall>e \<in> {d, t, s}. node_of kq_plat e \<notin> dom (lists w)" "plat_calls w = []"
  shows "\<exists>w'. bindE (create_events kq_plat env sock w) (\<lambda>w.
      bindE (posixc_timer_event_set_interval w (timer_event (svr w)) ms True) (\<lambda>w. submit_events kq_plat w)) = Inr w' \<and>
    gc_inv kq_plat r w' [] \<and> svr w' = (svr w)\<lparr>dgram_event := d, timer_event := t, sigint_event := s\<rparr> \<and>
    events w' = waiting r (env_svr env) sock (snd (posixc_unique_event_id (env_timer_id env))) ms d t s \<and>
    plat_calls w' = register_calls (r_id rc) sock (snd (posixc_unique_event_id (env_timer_id env))) d t s @
      enable_calls (r_id rc) sock (snd (posixc_unique_event_id (env_timer_id env))) ms d t s \<and>
    out w' = out w \<and> inbox w' = inbox w \<and> dirs_made w' = dirs_made w \<and> reactors w' = reactors w \<and> exited w' = exited w"
proof -
  let ?id = "snd (posixc_unique_event_id (env_timer_id env))"
  obtain w1 where w1: "create_events kq_plat env sock w = Inr w1" "gc_inv kq_plat r w1 []"
    "reactors w1 = reactors w" "svr w1 = (svr w)\<lparr>dgram_event := d, timer_event := t, sigint_event := s\<rparr>"
    "events w1 = [d \<mapsto> new_event r sock (Some 0) (env_svr env) SOCK_EV,
      t \<mapsto> new_event r ?id (Some 1) (env_svr env) TIMER_EV, s \<mapsto> new_event r SIGINT (Some 2) (env_svr env) SIG_EV]"
    "plat_calls w1 = plat_calls w @ register_calls (r_id rc) sock ?id d t s" "out w1 = out w" "inbox w1 = inbox w"
    "dirs_made w1 = dirs_made w" "exited w1 = exited w"
    using create_events_ok [OF inv mem new(1,2), of sock] by blast
  have rc1: "reactors w1 r = Some rc" using inv(2) w1(3) by simp
  obtain w2 w3 where w3: "posixc_timer_event_set_interval w1 t ms True = Inr w2" "svr w2 = svr w1"
    "submit_events kq_plat w2 = Inr w3" "gc_inv kq_plat r w3 []" "rworld.more w3 = rworld.more w1" "reactors w3 = reactors w1"
    "events w3 = waiting r (env_svr env) sock ?id ms d t s"
    "plat_calls w3 = register_calls (r_id rc) sock ?id d t s @ enable_calls (r_id rc) sock ?id ms d t s"
    using submit_events_ok [OF w1(2) rc1, of d t s sock "env_svr env" ?id ms] w1(4-6) mem(2) new(3) by auto
  then show ?thesis using w1 svr_frame [OF w3(5)] by (intro exI [of _ w3]) simp
qed

text \<open>The environment lets the server start: the reactor \<open>r\<close> and the events \<open>d\<close>, \<open>t\<close> and \<open>s\<close> get memory of
  their own, and the calls for the thread and the socket succeed.\<close>

definition env_ok :: "env \<Rightarrow> addr \<Rightarrow> addr \<Rightarrow> addr \<Rightarrow> addr \<Rightarrow> bool" where
  "env_ok env r d t s \<longleftrightarrow> 0 \<le> env_rid env \<and> env_reactor_mem env = Some r \<and> env_thread env \<noteq> None \<and>
     os_socket (env_ipc env) \<noteq> -1 \<and> os_bind (env_ipc env) \<noteq> -1 \<and>
     map (env_event_mem env) [0, 1, 2] = [Some d, Some t, Some s] \<and> distinct [d, t, s] \<and>
     (\<forall>e \<in> {d, t, s}. node_of kq_plat e \<noteq> r + gc_off kq_plat)"

text \<open>A process that has not used the library yet; the structure of the server is memory of its size.\<close>

definition fresh_process :: "kcall sworld \<Rightarrow> bool" where
  "fresh_process w \<longleftrightarrow> events w = Map.empty \<and> lists w = Map.empty \<and> plat_calls w = [] \<and> (\<forall>n. plat_answer w n) \<and>
     \<not> exited w \<and> length (filename (svr w)) = 256 \<and> length (bbuf (buffered_writefile (svr w))) = buffered_writable_size"

definition log_path :: "clock \<Rightarrow> char list \<Rightarrow> char list" where
  "log_path cl dir = chop dir @ CHR ''/'' # logfile_text (now cl)"

text \<open>The log file: its name, the directories created for it, and its descriptor.\<close>

lemma log_file_opened:
  assumes s: "length (filename s) = 256" and dir: "dir \<noteq> []" "nul \<notin> set dir" "length dir < 180"
  obtains f where "init_filename (env_clock env) dir s = Inr (s\<lparr>filename := f, dirlen := Suc (length (chop dir))\<rparr>)"
    "length f = 256" "cstr f = log_path (env_clock env) dir" "Suc (length (chop dir)) \<le> 180"
    "\<And>bw. posixc_buffered_writable_init_from (env_dir_exists env) (env_open env) bw (log_path (env_clock env) dir) =
      Inr (if env_dir_exists env (chop dir) then [] else map mkdir (ancestors (chop dir) @ [chop dir]),
        bw\<lparr>pos := 0, bfd := env_open env (log_path (env_clock env) dir) {O_TRUNC, O_WRONLY, O_CREAT} (Some 0x1A4)\<rparr>)"
proof -
  let ?n = "log_path (env_clock env) dir"
  have dir': "dir \<noteq> []" "nul \<notin> set (chop dir)" and cl: "Suc (length (chop dir)) \<le> 180"
    using dir by (auto simp: chop_def dest: in_set_butlastD split: if_splits)
  obtain f where f: "init_filename (env_clock env) dir s = Inr (s\<lparr>filename := f, dirlen := Suc (length (chop dir))\<rparr>)"
    "length f = 256" "starts f (?n @ [nul])"
    using init_filename_ok [OF s dir'(1) dir(3), of "env_clock env"] by (auto simp: log_path_def)
  have nul: "nul \<notin> set ?n" using dir'(2) logfile_text_chars(1) by (simp add: log_path_def)
  from f(3) nul have "cstr f = ?n" by (rule starts_cstr)
  moreover have "posixc_prepare_dirs_for (env_dir_exists env) ?n =
      Inr (if env_dir_exists env (chop dir) then [] else map mkdir (ancestors (chop dir) @ [chop dir]))"
    using nul cl logfile_text_chars(2)
    by (intro prepare_dirs_ok [where base = "logfile_text (now (env_clock env))"]) (auto simp: log_path_def tmp_cap_def)
  ultimately show ?thesis using that [of f] f(1,2) cl
    by (simp add: posixc_buffered_writable_init_from_def posixc_writable_open_def posixc_buffered_writable_init_def)
qed

section \<open>Reports of the kernel\<close>

text \<open>What the kernel reports for the event \<open>e\<close> of the socket when a datagram waits, and the state in which
  the thread receives it.\<close>

definition dgram_ready :: "addr \<Rightarrow> kevent" where
  "dgram_ready e = \<lparr>kident = 0, kfilter = EVFILT_READ, kflags = {EV_CLEAR}, kdata = 0, udata = e\<rparr>"

definition serving :: "'c plat \<Rightarrow> addr \<Rightarrow> addr \<Rightarrow> 'c sworld \<Rightarrow> bool" where
  "serving pl r e w \<longleftrightarrow> (\<exists>es. gc_inv pl r w es) \<and> svr_ok (svr w) \<and> dgram_event (svr w) = e \<and>
     (case events w e of None \<Rightarrow> False | Some ev \<Rightarrow> e_cb ev = Some 0)"

lemma consume_dgram:
  assumes os: "reliable os" and srv: "serving pl r e w" and box: "inbox w = d # ds"
  shows "\<exists>w'. consume_ev (svr_callbacks pl os cl self join) w (dgram_ready e) = Some (Inr w') \<and>
    serving pl r e w' \<and> inbox w' = ds \<and> log_stream w' = log_stream w @ take one_page d \<and>
    log_fd w' = log_fd w \<and> plat_calls w' = plat_calls w \<and>
    events w' = (events w)(e := map_option (\<lambda>ev. ev\<lparr>evmask := evmask ev AND NOT POSIXC_EVENT_IN\<rparr>) (events w e))"
proof -
  obtain es ev where inv: "gc_inv pl r w es" and ok: "svr_ok (svr w)" "dgram_event (svr w) = e"
    and ev: "events w e = Some ev" "e_cb ev = Some 0"
    using srv by (auto simp: serving_def split: option.splits)
  obtain w1 where w1: "posixc_event_consume w e POSIXC_EVENT_IN = Inr (w1, e_cb ev, e_arg ev)" "gc_inv pl r w1 es"
    "events w1 = (events w)(e \<mapsto> ev\<lparr>evmask := evmask ev AND NOT POSIXC_EVENT_IN\<rparr>)"
    "plat_calls w1 = plat_calls w" "rworld.more w1 = rworld.more w"
    using event_consume_ok [OF inv ev(1), of POSIXC_EVENT_IN] by auto
  note same = svr_frame [OF w1(5)]
  let ?ev = "ev\<lparr>evmask := evmask ev AND NOT POSIXC_EVENT_IN\<rparr>"
  obtain o' s where on: "on_dgram os cl e POSIXC_EVENT_IN (e_arg ev) w1 = Some (Inr (w1\<lparr>inbox := ds, out := o', svr := s\<rparr>))"
    "svr_ok s" "stream (o', buffered_writefile s) = log_stream w @ take one_page d"
    "bfd (buffered_writefile s) = log_fd w" "dgram_event s = e"
    using on_dgram_ok [OF os, of w1 e ?ev d ds cl POSIXC_EVENT_IN "e_arg ev"] ok w1(3) same box
    by (auto simp: log_stream_def log_fd_def svr_ptrs_def)
  let ?w = "w1\<lparr>inbox := ds, out := o', svr := s\<rparr>"
  have "consume_ev (svr_callbacks pl os cl self join) w (dgram_ready e) = Some (Inr ?w)"
    using w1(1) on(1) ev(2)
    by (simp add: consume_ev_def bits_of_filter_def dgram_ready_def svr_callbacks_def)
  moreover have "gc_inv pl r ?w es" using w1(2) unfolding gc_own_def event_own_def by simp
  then have "serving pl r e ?w" using on ev(2) w1(3) by (auto simp: serving_def)
  ultimately show ?thesis using on(3,4) w1(3,4) ev(1)
    by (intro exI [of _ ?w]) (simp add: log_stream_def log_fd_def)
qed

text \<open>A report for every datagram logs all of them in their order.\<close>

lemma consume_dgrams:
  assumes "reliable os" "serving pl r e w"
  shows "\<exists>w'. consume_evs (svr_callbacks pl os cl self join) (map (\<lambda>d. dgram_ready e) (inbox w)) w = Some (Inr w') \<and>
    serving pl r e w' \<and> inbox w' = [] \<and> log_stream w' = log_stream w @ concat (map (take one_page) (inbox w)) \<and>
    log_fd w' = log_fd w"
  using assms(2)
proof (induction "inbox w" arbitrary: w)
  case Nil
  then have "inbox w = []" by simp
  then show ?case using Nil.prems by simp
next
  case (Cons d ds)
  then have box: "inbox w = d # ds" by simp
  obtain w1 where w1: "consume_ev (svr_callbacks pl os cl self join) w (dgram_ready e) = Some (Inr w1)"
    "serving pl r e w1" "inbox w1 = ds" "log_stream w1 = log_stream w @ take one_page d" "log_fd w1 = log_fd w"
    using consume_dgram [OF assms(1) Cons.prems box] by blast
  from Cons.hyps(1) [OF w1(3) [symmetric] w1(2)] show ?case using w1 box by auto
qed

section \<open>Properties\<close>

text \<open>Rolling gives the server a new file name, but the descriptor stays: what is logged afterwards is
  appended to the file that was opened at the start.\<close>

lemma roll_keeps_file:
  assumes "reliable os" "svr_ok (svr w)"
  shows "\<exists>w'. posixc_asynclogsvr_roll os cl w = Some (Inr w') \<and> filename (svr w') = log_name cl (svr w) \<and>
    bytes_written (svr w') = 0 \<and> log_fd w' = log_fd w \<and> log_stream w' = log_stream w"
proof -
  have os: "kernel_ok os" "progress os" "\<not> may_fail os" using assms(1) by (simp_all add: reliable_def)
  obtain o' lost where o': "posixc_asynclogsvr_roll os cl w = Some (Inr (w\<lparr>out := o', svr := (svr w)\<lparr>
      buffered_writefile := (buffered_writefile (svr w))\<lparr>pos := 0\<rparr>, filename := log_name cl (svr w),
      bytes_written := 0\<rparr>\<rparr>))"
    "bytes_of o' (log_fd w) @ lost = log_stream w" "lost \<noteq> [] \<longrightarrow> may_fail os"
    using svr_roll_any [OF os(1,2) assms(2)] .
  then have "lost = []" using os(3) by blast
  then show ?thesis using o'(1,2) by (simp add: log_fd_def log_stream_def stream_simps)
qed

lemma start_reactor_ok:
  assumes w: "events w = Map.empty" "lists w = Map.empty" "plat_calls w = []" "\<forall>n. plat_answer w n" and env: "env_ok env r d t s"
  obtains w' rc where "start_reactor kq_plat env interval w = Inr w'" "gc_inv kq_plat r w' []"
    "svr w' = (svr w)\<lparr>svr_reactor := r, dgram_event := d, timer_event := t, sigint_event := s\<rparr>"
    "events w' = waiting r (env_svr env) (os_socket (env_ipc env))
      (snd (posixc_unique_event_id (env_timer_id env))) interval d t s"
    "plat_calls w' = register_calls (env_rid env) (os_socket (env_ipc env)) (snd (posixc_unique_event_id (env_timer_id env))) d t s @
      enable_calls (env_rid env) (os_socket (env_ipc env)) (snd (posixc_unique_event_id (env_timer_id env))) interval d t s"
    "out w' = out w" "inbox w' = inbox w" "dirs_made w' = dirs_made w" "exited w' = exited w"
    "reactors w' r = Some rc" "env_thread env = Some (r_thread rc)" "\<not> r_closing rc"
proof -
  obtain th where th: "env_thread env = Some th" using env by (auto simp: env_ok_def)
  let ?rc = "\<lparr>r_mtx = False, r_thread = th, r_id = env_rid env, r_closing = False\<rparr>"
  obtain w2 where w2: "posixc_reactor_create kq_plat w (env_rid env) (Some r) (Some th) = Inr (w2, Some r)"
    "reactors w2 = (reactors w)(r \<mapsto> ?rc)" "events w2 = Map.empty" "ring (lists w2) [r + gc_off kq_plat]"
    "dom (lists w2) = {r + gc_off kq_plat}" "plat_calls w2 = []" "plat_answer w2 = plat_answer w" "rworld.more w2 = rworld.more w"
    using reactor_create_returns [of "env_rid env" kq_plat w r th] env w by (auto simp: env_ok_def)
  let ?cs = "[Socket_Dgram, Unlink usockpath_log, Bind (os_socket (env_ipc env)) (sun_path (env_ipc env) usockpath_log)]"
  let ?w3 = "w2\<lparr>svr := (svr w2)\<lparr>svr_reactor := r\<rparr>, ipc_calls := ipc_calls w2 @ ?cs\<rparr>"
  have sock: "posixc_ipc_dgram_socket (env_ipc env) usockpath_log = (?cs, os_socket (env_ipc env))"
    using env by (simp add: env_ok_def posixc_ipc_dgram_socket_def set_sockaddr_un_def Let_def)
  have inv3: "gc_inv kq_plat r ?w3 []" using w2(2-4) by (simp add: gc_own_def event_own_def dlist_def)
  have pre: "reactors ?w3 r = Some ?rc" "svr_reactor (svr ?w3) = r" "\<forall>n. plat_answer ?w3 n"
    "map (env_event_mem env) [0, 1, 2] = [Some d, Some t, Some s]" "distinct [d, t, s]" "events ?w3 = Map.empty"
    "\<forall>e \<in> {d, t, s}. node_of kq_plat e \<notin> dom (lists ?w3)" "plat_calls ?w3 = []"
    using env w w2 by (simp_all add: env_ok_def)
  obtain w6 where w6: "bindE (create_events kq_plat env (os_socket (env_ipc env)) ?w3) (\<lambda>w.
      bindE (posixc_timer_event_set_interval w (timer_event (svr w)) interval True) (\<lambda>w. submit_events kq_plat w)) = Inr w6"
    "gc_inv kq_plat r w6 []" "svr w6 = (svr ?w3)\<lparr>dgram_event := d, timer_event := t, sigint_event := s\<rparr>"
    "events w6 = waiting r (env_svr env) (os_socket (env_ipc env))
      (snd (posixc_unique_event_id (env_timer_id env))) interval d t s"
    "plat_calls w6 = register_calls (r_id ?rc) (os_socket (env_ipc env)) (snd (posixc_unique_event_id (env_timer_id env))) d t s @
      enable_calls (r_id ?rc) (os_socket (env_ipc env)) (snd (posixc_unique_event_id (env_timer_id env))) interval d t s"
    "out w6 = out ?w3" "inbox w6 = inbox ?w3" "dirs_made w6 = dirs_made ?w3" "reactors w6 = reactors ?w3" "exited w6 = exited ?w3"
    using start_events_ok [OF inv3 pre, of "os_socket (env_ipc env)" interval] by (elim exE conjE) (rule that; assumption)
  have "env_reactor_mem env = Some r" "os_socket (env_ipc env) \<noteq> -1" using env by (simp_all add: env_ok_def)
  then have "start_reactor kq_plat env interval w = Inr w6"
    using w2(1) sock w6(1) th by (simp add: start_reactor_def Let_def ptr_of_def)
  then show ?thesis using that [of w6 ?rc] w6(2-10) pre(1) th svr_frame [OF w2(8)] by simp
qed

text \<open>The server after its start.\<close>

lemma server_start_ok:
  assumes w: "fresh_process w" and env: "env_ok env r d t s"
    and dir: "dir \<noteq> []" "nul \<notin> set dir" "length dir < 180"
  shows "\<exists>w'. posixc_asynclogsvr_init kq_plat env dir max_size interval w = Inr w' \<and>
    gc_inv kq_plat r w' [] \<and> svr_ok (svr w') \<and> cstr (filename (svr w')) = log_path (env_clock env) dir \<and>
    dirs_made w' = dirs_made w @ (if env_dir_exists env (chop dir) then [] else map mkdir (ancestors (chop dir) @ [chop dir])) \<and>
    log_fd w' = env_open env (log_path (env_clock env) dir) {O_TRUNC, O_WRONLY, O_CREAT} (Some 0x1A4) \<and>
    log_stream w' = bytes_of (out w) (log_fd w') \<and> inbox w' = inbox w \<and>
    svr_reactor (svr w') = r \<and> dgram_event (svr w') = d \<and> timer_event (svr w') = t \<and> sigint_event (svr w') = s \<and>
    events w' = waiting r (env_svr env) (os_socket (env_ipc env))
      (snd (posixc_unique_event_id (env_timer_id env))) interval d t s \<and>
    plat_calls w' = register_calls (env_rid env) (os_socket (env_ipc env)) (snd (posixc_unique_event_id (env_timer_id env))) d t s @
      enable_calls (env_rid env) (os_socket (env_ipc env)) (snd (posixc_unique_event_id (env_timer_id env))) interval d t s \<and>
    (\<exists>rc. reactors w' r = Some rc \<and> env_thread env = Some (r_thread rc) \<and> \<not> r_closing rc) \<and> exited w' = exited w"
proof -
  let ?w = "w\<lparr>sigmask := posixc_block_all_signals (env_signals env) (sigmask w)\<rparr>"
  let ?n = "log_path (env_clock env) dir"
  let ?made = "if env_dir_exists env (chop dir) then [] else map mkdir (ancestors (chop dir) @ [chop dir])"
  let ?fd = "env_open env ?n {O_TRUNC, O_WRONLY, O_CREAT} (Some 0x1A4)"
  let ?bw = "(buffered_writefile (svr w))\<lparr>pos := 0, bfd := ?fd\<rparr>"
  have len: "length (filename ((svr w)\<lparr>bytes_written := 0\<rparr>)) = 256" using w by (simp add: fresh_process_def)
  obtain f where f: "init_filename (env_clock env) dir ((svr w)\<lparr>bytes_written := 0\<rparr>) =
      Inr ((svr w)\<lparr>bytes_written := 0, filename := f, dirlen := Suc (length (chop dir))\<rparr>)" "length f = 256"
    and cs: "cstr f = ?n" and cl: "Suc (length (chop dir)) \<le> 180"
    and opened: "\<And>bw. posixc_buffered_writable_init_from (env_dir_exists env) (env_open env) bw ?n =
      Inr (?made, bw\<lparr>pos := 0, bfd := ?fd\<rparr>)"
    using log_file_opened [OF len dir, of env] by metis
  define s1 where "s1 = (svr w)\<lparr>bytes_written := 0, filename := f, dirlen := Suc (length (chop dir)),
    buffered_writefile := ?bw, max_file_size := nat (max_size mod 2 ^ 32), flush_interval := interval\<rparr>"
  define w1 where "w1 = ?w\<lparr>svr := s1, dirs_made := dirs_made w @ ?made\<rparr>"
  have "events w1 = Map.empty" "lists w1 = Map.empty" "plat_calls w1 = []" "\<forall>n. plat_answer w1 n"
    using w by (simp_all add: w1_def fresh_process_def)
  then obtain w6 rc where w6: "start_reactor kq_plat env interval w1 = Inr w6" "gc_inv kq_plat r w6 []"
    "svr w6 = (svr w1)\<lparr>svr_reactor := r, dgram_event := d, timer_event := t, sigint_event := s\<rparr>"
    "events w6 = waiting r (env_svr env) (os_socket (env_ipc env))
      (snd (posixc_unique_event_id (env_timer_id env))) interval d t s"
    "plat_calls w6 = register_calls (env_rid env) (os_socket (env_ipc env)) (snd (posixc_unique_event_id (env_timer_id env))) d t s @
      enable_calls (env_rid env) (os_socket (env_ipc env)) (snd (posixc_unique_event_id (env_timer_id env))) interval d t s"
    "out w6 = out w1" "inbox w6 = inbox w1" "dirs_made w6 = dirs_made w1" "exited w6 = exited w1"
    "reactors w6 r = Some rc" "env_thread env = Some (r_thread rc)" "\<not> r_closing rc"
    by (rule start_reactor_ok [OF _ _ _ _ env])
  have "posixc_asynclogsvr_init kq_plat env dir max_size interval w = Inr w6"
    using f(1) opened w6(1) by (simp add: posixc_asynclogsvr_init_def cs s1_def w1_def)
  moreover have "svr w6 = s1\<lparr>svr_reactor := r, dgram_event := d, timer_event := t, sigint_event := s\<rparr>"
    "out w6 = out w" "inbox w6 = inbox w" "dirs_made w6 = dirs_made w @ ?made"
    using w6(3,6,7,8) by (simp_all add: w1_def)
  moreover have "svr_ok (s1\<lparr>svr_reactor := r, dgram_event := d, timer_event := t, sigint_event := s\<rparr>)"
    using w f(2) cl by (simp add: svr_ok_def bw_ok_def s1_def fresh_process_def)
  moreover have "\<exists>rc. reactors w6 r = Some rc \<and> env_thread env = Some (r_thread rc) \<and> \<not> r_closing rc"
    using w6(10-12) by blast
  moreover have "exited w6 = exited w" using w6(9) by (simp add: w1_def)
  ultimately show ?thesis using w6(2,4,5) cs
    by (intro exI [of _ w6]) (simp add: log_fd_def log_stream_def s1_def stream_simps)
qed

text \<open>C18: in a fresh process where the calls succeed (\<open>env_ok\<close>), for a directory name that is not empty and has
  less than 180 bytes, \<open>posixc_asynclogsvr_init\<close> with the kqueue platform returns: the directories that
  are missing are created, a file named after the time is opened in the directory, and exactly three
  events wait, for the socket, the timer and the signal. The calls of the kernel are, on the new
  kqueue, three that add the filters of an event, disabled, and then three that enable what the event
  waits for, each for the descriptor, timer id or signal of the event and with the event's address.\<close>

theorem server_starts:
  assumes w: "fresh_process w" and env: "env_ok env r d t s"
    and dir: "dir \<noteq> []" "nul \<notin> set dir" "length dir < 180"
  shows "\<exists>w'. posixc_asynclogsvr_init kq_plat env dir max_size interval w = Inr w' \<and>
    gc_inv kq_plat r w' [] \<and> svr_ok (svr w') \<and> cstr (filename (svr w')) = log_path (env_clock env) dir \<and>
    dirs_made w' = dirs_made w @ (if env_dir_exists env (chop dir) then [] else map mkdir (ancestors (chop dir) @ [chop dir])) \<and>
    log_fd w' = env_open env (log_path (env_clock env) dir) {O_TRUNC, O_WRONLY, O_CREAT} (Some 0x1A4) \<and>
    log_stream w' = bytes_of (out w) (log_fd w') \<and> inbox w' = inbox w \<and>
    svr_reactor (svr w') = r \<and> dgram_event (svr w') = d \<and> timer_event (svr w') = t \<and> sigint_event (svr w') = s \<and>
    events w' = waiting r (env_svr env) (os_socket (env_ipc env))
      (snd (posixc_unique_event_id (env_timer_id env))) interval d t s \<and>
    plat_calls w' = register_calls (env_rid env) (os_socket (env_ipc env)) (snd (posixc_unique_event_id (env_timer_id env))) d t s @
      enable_calls (env_rid env) (os_socket (env_ipc env)) (snd (posixc_unique_event_id (env_timer_id env))) interval d t s"
  using server_start_ok [OF assms, of max_size interval] by (elim exE conjE) (intro exI conjI; assumption)

definition demo_svr :: posixc_asynclogsvr where
  "demo_svr = \<lparr>buffered_writefile = new_writer, svr_reactor = 0, timer_event = 0, dgram_event = 0, sigint_event = 0,
     max_file_size = 0, flush_interval = 0, bytes_written = 0, filename = replicate 256 None, dirlen = 0\<rparr>"

definition demo_process :: "kcall sworld" where
  "demo_process = \<lparr>events = Map.empty, reactors = Map.empty, lists = Map.empty, syscalls = [], plat_calls = [],
     plat_answer = (\<lambda>n. True), svr = demo_svr, out = idle, inbox = [], dirs_made = [], sigmask = {}, ipc_calls = [],
     exited = False, console = []\<rparr>"

definition demo_env :: env where
  "demo_env = \<lparr>env_dir_exists = (\<lambda>d. False), env_open = (\<lambda>n f m. 3),
     env_clock = \<lparr>now = noon, other = (\<lambda>c t. [])\<rparr>, env_rid = 5, env_reactor_mem = Some 1000, env_thread = Some 7,
     env_ipc = \<lparr>os_socket = 4, os_bind = 0, os_listen = 0, os_connect = 0, connection_refused = False, sun_path_size = 104\<rparr>,
     env_event_mem = (\<lambda>i. Some (2000 + 500 * of_nat i)), env_timer_id = 0, env_signals = {}, env_svr = 1\<rparr>"

lemma demo_start: "fresh_process demo_process" "env_ok demo_env 1000 2000 2500 3000"
  by (simp_all add: fresh_process_def demo_process_def demo_svr_def env_ok_def demo_env_def new_writer_def node_of_def
      kq_plat_def)

theorem server_starts_witness:
  "\<exists>w'. posixc_asynclogsvr_init kq_plat demo_env ''/var/log'' 1000 500 demo_process = Inr w' \<and>
    cstr (filename (svr w')) = ''/var/log/01-01-2020_12:00:00.log'' \<and>
    dirs_made w' = [(''/var'', 0x1FC), (''/var/log'', 0x1FC)] \<and> log_fd w' = 3 \<and>
    plat_calls w' = register_calls 5 4 0 2000 2500 3000 @ enable_calls 5 4 0 500 2000 2500 3000"
proof -
  let ?e = demo_env
  have dir: "''/var/log'' \<noteq> []" "nul \<notin> set ''/var/log''" "length ''/var/log'' < 180" by simp_all
  have names: "logfile_text noon = ''01-01-2020_12:00:00.log''" "ancestors ''/var/log'' = [''/var'']"
    by code_simp+
  have start: "snd (posixc_unique_event_id 0) = 0" "chop ''/var/log'' = ''/var/log''"
    by (simp_all add: posixc_unique_event_id_def to_int32_def chop_def)
  have env: "env_clock ?e = \<lparr>now = noon, other = (\<lambda>c t. [])\<rparr>" "env_dir_exists ?e n = False" "env_open ?e n f m = 3"
    "env_rid ?e = 5" "os_socket (env_ipc ?e) = 4" "env_timer_id ?e = 0" for n f m by (simp_all add: demo_env_def)
  obtain w' where w': "posixc_asynclogsvr_init kq_plat ?e ''/var/log'' 1000 500 demo_process = Inr w'"
    "cstr (filename (svr w')) = log_path (env_clock ?e) ''/var/log''"
    "dirs_made w' = dirs_made demo_process @ (if env_dir_exists ?e (chop ''/var/log'') then []
      else map mkdir (ancestors (chop ''/var/log'') @ [chop ''/var/log'']))"
    "log_fd w' = env_open ?e (log_path (env_clock ?e) ''/var/log'') {O_TRUNC, O_WRONLY, O_CREAT} (Some 0x1A4)"
    "plat_calls w' = register_calls (env_rid ?e) (os_socket (env_ipc ?e)) (snd (posixc_unique_event_id (env_timer_id ?e)))
        2000 2500 3000 @
      enable_calls (env_rid ?e) (os_socket (env_ipc ?e)) (snd (posixc_unique_event_id (env_timer_id ?e))) 500 2000 2500 3000"
    using server_starts [OF demo_start dir, of 1000 500] by (elim exE conjE) (rule that; assumption)
  have "log_path (env_clock ?e) ''/var/log'' = ''/var/log/01-01-2020_12:00:00.log''"
    unfolding log_path_def env names start clock.simps by simp
  moreover have "dirs_made demo_process = []" by (simp add: demo_process_def)
  ultimately show ?thesis using w' unfolding env names start
    by (intro exI [of _ w']) (simp add: mkdir_def S_IRWXU_def S_IRWXG_def S_IROTH_def)
qed

lemma on_sigint_any:
  assumes os: "kernel_ok os" "progress os" and w: "svr_ok (svr w)" "gc_inv pl r w es" "reactors w r = Some rc"
    "svr_reactor (svr w) = r" "svr_events w"
  shows "\<exists>w' lost. on_sigint pl os (r_thread rc) (\<lambda>w. Some (Inr w)) e bits arg w = Some (Inr w') \<and> exited w' \<and>
    bytes_of (out w') (log_fd w) @ lost = log_stream w \<and> (lost \<noteq> [] \<longrightarrow> may_fail os) \<and> inbox w' = inbox w \<and> reactors w' r = None \<and>
    events w' = events w |` (- (set es \<union> {timer_event (svr w), dgram_event (svr w), sigint_event (svr w)})) \<and>
    syscalls w' = syscalls w @ closing_calls w (timer_event (svr w)) @ closing_calls w (dgram_event (svr w)) @
      closing_calls w (sigint_event (svr w)) @ map (Close \<circ> fd_of w) es @ [Close (r_id rc)] \<and>
    console w' = console w @ farewell"
proof -
  let ?s = "(svr w)\<lparr>buffered_writefile := (buffered_writefile (svr w))\<lparr>pos := 0\<rparr>\<rparr>"
  obtain o' lost where o': "posixc_asynclogsvr_flush os w = Some (Inr (w\<lparr>out := o', svr := ?s\<rparr>))"
    "bytes_of o' (log_fd w) @ lost = log_stream w" "lost \<noteq> [] \<longrightarrow> may_fail os" using svr_flush_any [OF os w(1)] .
  let ?w = "w\<lparr>out := o', svr := ?s\<rparr>"
  have "gc_inv pl r ?w es" using w(2) by (simp add: gc_own_def event_own_def)
  moreover have "svr_events ?w" using w(5) by (simp add: svr_events_def)
  moreover have "fd_of ?w = fd_of w" by (simp add: fd_of_def fun_eq_iff)
  ultimately obtain w' where w': "posixc_asynclogsvr_destroy pl (r_thread rc) (\<lambda>w. Some (Inr w)) ?w = Some (Inr w')"
    "rworld.more w' = rworld.more ?w" "reactors w' r = None"
    "events w' = events w |` (- (set es \<union> {timer_event (svr w), dgram_event (svr w), sigint_event (svr w)}))"
    "syscalls w' = syscalls w @ closing_calls w (timer_event (svr w)) @ closing_calls w (dgram_event (svr w)) @
      closing_calls w (sigint_event (svr w)) @ map (Close \<circ> fd_of w) es @ [Close (r_id rc)]"
    using svr_destroy_ok [of pl r ?w es rc] w(3,4) by (auto simp: closing_calls_def)
  have "out w' = o'" "inbox w' = inbox w" "console w' = console w" using svr_frame(2,3,6) [OF w'(2)] by simp_all
  then show ?thesis using o' w' by (intro exI [of _ "w'\<lparr>console := console w @ farewell, exited := True\<rparr>"] exI [of _ lost]) (simp add: on_sigint_def)
qed

text \<open>C19: on SIGINT, in the reactor's thread of a server whose events are open and whose reactor is consistent, and
  whatever the system answers to the write, as long as it makes progress (it may fail): what was logged is
  flushed to the file, all of it unless the write fails, which loses the end; the three events and
  those that user threads have queued are released, each descriptor is closed once, the kqueue last,
  the farewell is printed, and the process exits. \<open>pthread_join\<close> of the thread on itself is taken to return at once.\<close>

theorem server_shutdown:
  assumes "kernel_ok os" "progress os" "svr_ok (svr w)" "gc_inv pl r w es" "reactors w r = Some rc"
    and "svr_reactor (svr w) = r" "svr_events w"
  shows "\<exists>w' lost. on_sigint pl os (r_thread rc) (\<lambda>w. Some (Inr w)) e bits arg w = Some (Inr w') \<and> exited w' \<and>
    bytes_of (out w') (log_fd w) @ lost = log_stream w \<and> (lost \<noteq> [] \<longrightarrow> may_fail os) \<and> reactors w' r = None \<and>
    events w' = events w |` (- (set es \<union> {timer_event (svr w), dgram_event (svr w), sigint_event (svr w)})) \<and>
    syscalls w' = syscalls w @ closing_calls w (timer_event (svr w)) @ closing_calls w (dgram_event (svr w)) @
      closing_calls w (sigint_event (svr w)) @ map (Close \<circ> fd_of w) es @ [Close (r_id rc)] \<and>
    console w' = console w @ farewell"
  using on_sigint_any [OF assms, of e bits arg] by (elim exE conjE) (intro exI conjI; assumption)

text \<open>The server of \<open>demo_env\<close> while it serves.\<close>

definition demo_serving :: "kcall sworld" where
  "demo_serving = demo_process\<lparr>events := waiting 1000 1 4 0 500 2000 2500 3000,
     reactors := [1000 \<mapsto> \<lparr>r_mtx = False, r_thread = 7, r_id = 5, r_closing = False\<rparr>],
     lists := [1080 \<mapsto> \<lparr>lnext = 1080, lprev = 1080\<rparr>, 2120 \<mapsto> \<lparr>lnext = 2120, lprev = 2120\<rparr>,
       2620 \<mapsto> \<lparr>lnext = 2620, lprev = 2620\<rparr>, 3120 \<mapsto> \<lparr>lnext = 3120, lprev = 3120\<rparr>],
     svr := demo_svr\<lparr>svr_reactor := 1000, dgram_event := 2000, timer_event := 2500, sigint_event := 3000,
       max_file_size := 1000\<rparr>\<rparr>"

lemmas demo_svr_defs = demo_serving_def demo_process_def demo_svr_def waiting_def new_event_def

lemma demo_serving_inv: "gc_inv kq_plat 1000 demo_serving []"
proof -
  have "ring (lists demo_serving) [1080]" by (simp add: ring_def cyc_def nx_def pv_def demo_svr_defs)
  then show ?thesis
    by (simp add: gc_own_def event_own_def dlist_def node_of_def demo_svr_defs kq_plat_def)
qed

lemma demo_serving_ok: "svr_ok (svr demo_serving)" "svr_events demo_serving" "log_stream demo_serving = []"
  "reactors demo_serving 1000 = Some \<lparr>r_mtx = False, r_thread = 7, r_id = 5, r_closing = False\<rparr>"
  "svr_reactor (svr demo_serving) = 1000" "dgram_event (svr demo_serving) = 2000" "inbox demo_serving = []"
  by (simp_all add: svr_ok_def svr_events_def demo_svr_defs log_stream_def)

lemma demo_serving_box: "serving kq_plat 1000 2000 (demo_serving\<lparr>inbox := b\<rparr>)"
proof -
  have "gc_inv kq_plat 1000 (demo_serving\<lparr>inbox := b\<rparr>) []"
    using demo_serving_inv by (simp add: gc_own_def event_own_def)
  then show ?thesis using demo_serving_ok(1,6) by (auto simp: serving_def demo_svr_defs)
qed

lemma slow_os_reliable: "reliable slow_os"
  by (simp add: reliable_def may_fail_def slow_os_def)

text \<open>Among the descriptors that are closed are 0, the identifier of the timer, and 2, the number of the
  signal.\<close>

theorem server_shutdown_witness:
  "\<exists>w'. on_sigint kq_plat slow_os 7 (\<lambda>w. Some (Inr w)) 3000 0 1 demo_serving = Some (Inr w') \<and> exited w' \<and>
    bytes_of (out w') 3 = log_stream demo_serving \<and>
    syscalls w' = [Shutdown 0, Close 0, Shutdown 4, Close 4, Shutdown 2, Close 2, Close 5]"
proof -
  have fd: "fd_of demo_serving 2500 = 0" "fd_of demo_serving 2000 = 4" "fd_of demo_serving 3000 = 2"
    "timer_event (svr demo_serving) = 2500" "sigint_event (svr demo_serving) = 3000" "syscalls demo_serving = []"
    "log_fd demo_serving = 3"
    by (simp_all add: fd_of_def demo_svr_defs SIGINT_def log_fd_def)
  have os: "kernel_ok slow_os" "progress slow_os" "\<not> may_fail slow_os" using slow_os_reliable by (simp_all add: reliable_def)
  show ?thesis
    using server_shutdown [OF os(1,2) demo_serving_ok(1) demo_serving_inv demo_serving_ok(4,5,2), of 3000 0 1] os(3)
    by (auto simp: closing_calls_def fd demo_serving_ok(6))
qed

end
