(* ===== verification/Server.thy ===== *)
theory Server
  imports Asynclogsvr
begin

text \<open>
  The logging server inside the loop of its reactor (\<open>asynclogsvr.c\<close> on \<open>mac/reactor_kq.c\<close>): the thread receives reports for
  the socket and the timer in any number and order, runs the server's callbacks, and collects, while
  datagrams arrive.
\<close>

section \<open>One report\<close>

definition clock_tick :: "addr \<Rightarrow> kevent" where
  "clock_tick e = \<lparr>kident = 0, kfilter = EVFILT_TIMER, kflags = {EV_CLEAR}, kdata = 1, udata = e\<rparr>"

text \<open>An open event with the callback \<open>c\<close>.\<close>

definition has_callback :: "'c sworld \<Rightarrow> addr \<Rightarrow> nat \<Rightarrow> bool" where
  "has_callback w e c \<longleftrightarrow>
     (case events w e of None \<Rightarrow> False | Some ev \<Rightarrow> \<not> e_closing ev \<and> e_cb ev = Some c \<and> e_arg ev \<noteq> NULL)"

text \<open>The state of the server between two reports: the reactor is consistent and its thread is \<open>self\<close>, the server's
  structure is well formed and points to the reactor and to its three events, \<open>d\<close> of the socket, \<open>t\<close> of the timer and \<open>g\<close> of the signal,
  which are open; the process has not ended.\<close>

definition service :: "'c plat \<Rightarrow> addr \<Rightarrow> thread_id \<Rightarrow> addr \<Rightarrow> addr \<Rightarrow> addr \<Rightarrow> 'c sworld \<Rightarrow> bool" where
  "service pl r self d t g w \<longleftrightarrow> thread_inv pl r self w \<and> svr_ok (svr w) \<and> svr_ptrs (svr w) = (r, d, t, g) \<and>
     has_callback w d 0 \<and> has_callback w t 1 \<and> has_callback w g 2 \<and> dom (events w) = {d, t, g} \<and> \<not> exited w"

text \<open>What waits at the socket, as the server will log it.\<close>

definition backlog :: "'c sworld \<Rightarrow> char list" where
  "backlog w = concat (map (take one_page) (inbox w))"

lemma has_callbackE:
  assumes "has_callback w e c"
  obtains ev where "events w e = Some ev" "\<not> e_closing ev" "e_cb ev = Some c" "e_arg ev \<noteq> NULL"
  using assms by (auto simp: has_callback_def split: option.splits)

lemma thread_inv_svr:
  fixes w :: "'c sworld"
  shows "thread_inv pl r t (w\<lparr>inbox := b, out := o', svr := s\<rparr>) \<longleftrightarrow> thread_inv pl r t w"
  by (simp add: thread_inv_def gc_own_def event_own_def)

text \<open>The report itself, before the callback.\<close>

lemma consume_service:
  assumes srv: "service pl r self d t g w" and e: "events w e = Some ev"
  obtains w1 where "posixc_event_consume w e bits = Inr (w1, e_cb ev, e_arg ev)" "service pl r self d t g w1"
    "events w1 e = Some (ev\<lparr>evmask := evmask ev AND NOT bits\<rparr>)" "reactors w1 = reactors w" "rworld.more w1 = rworld.more w"
proof -
  obtain es rc where inv: "gc_inv pl r w es" "reactors w r = Some rc" "r_thread rc = self"
    using srv by (auto simp: service_def thread_inv_def)
  obtain w1 where w1: "posixc_event_consume w e bits = Inr (w1, e_cb ev, e_arg ev)" "gc_inv pl r w1 es"
    "reactors w1 = reactors w" "events w1 = (events w)(e \<mapsto> ev\<lparr>evmask := evmask ev AND NOT bits\<rparr>)"
    "rworld.more w1 = rworld.more w" using event_consume_ok [OF inv(1) e] by blast
  have "thread_inv pl r self w1" using w1(2,3) inv(2,3) by (auto simp: thread_inv_def)
  then have "service pl r self d t g w1"
    using srv svr_frame(1,4) [OF w1(5)] w1(4) e by (auto simp: service_def has_callback_def split: option.splits)
  then show ?thesis using that w1 by simp
qed

lemma service_svr:
  assumes "service pl r self d t g w" "svr_ok s" "svr_ptrs s = svr_ptrs (svr w)"
  shows "service pl r self d t g (w\<lparr>inbox := b, out := o', svr := s\<rparr>)"
  using assms by (simp add: service_def has_callback_def thread_inv_svr)

text \<open>A report returns whatever the system answers. What is logged and what waits make up the same bytes as before, but for
  the end of the log when a write fails.\<close>

lemma report_socket:
  assumes os: "kernel_ok os" "progress os" and srv: "service pl r self d t g w"
  shows "\<exists>w' lost rest. consume_ev (svr_callbacks pl os cl self join) w (dgram_ready d) = Some (Inr w') \<and>
    service pl r self d t g w' \<and> reactors w' = reactors w \<and> log_fd w' = log_fd w \<and> backlog w = rest @ backlog w' \<and>
    log_stream w' @ lost = log_stream w @ rest \<and> (lost \<noteq> [] \<longrightarrow> may_fail os)"
proof -
  obtain ev where ev: "events w d = Some ev" "e_cb ev = Some 0" using srv by (auto simp: service_def elim: has_callbackE)
  obtain w1 where w1: "posixc_event_consume w d POSIXC_EVENT_IN = Inr (w1, e_cb ev, e_arg ev)" "service pl r self d t g w1"
    "events w1 d = Some (ev\<lparr>evmask := evmask ev AND NOT POSIXC_EVENT_IN\<rparr>)" "reactors w1 = reactors w"
    "rworld.more w1 = rworld.more w" using consume_service [OF srv ev(1)] by blast
  note same = svr_frame [OF w1(5)]
  have run: "consume_ev (svr_callbacks pl os cl self join) w (dgram_ready d) =
      on_dgram os cl d POSIXC_EVENT_IN (e_arg ev) w1"
    using w1(1) ev(2) by (simp add: consume_ev_def bits_of_filter_def dgram_ready_def svr_callbacks_def)
  show ?thesis
  proof (cases "inbox w1")
    case Nil
    then have "on_dgram os cl d POSIXC_EVENT_IN (e_arg ev) w1 = Some (Inr (w1\<lparr>inbox := [], out := out w1, svr := svr w1\<rparr>))"
      using w1(3) by (simp add: on_dgram_def read_dgram_def)
    moreover have "service pl r self d t g (w1\<lparr>inbox := [], out := out w1, svr := svr w1\<rparr>)"
      using w1(2) by (rule service_svr) (use w1(2) in \<open>simp_all add: service_def\<close>)
    ultimately show ?thesis using run same w1(4) Nil
      by (intro exI [of _ "w1\<lparr>inbox := [], out := out w1, svr := svr w1\<rparr>"] exI [of _ "[]"])
        (simp add: log_fd_def log_stream_def backlog_def)
  next
    case (Cons x xs)
    have "svr_ok (svr w1)" using w1(2) by (simp add: service_def)
    from on_dgram_any [OF os this w1(3) Cons, of cl POSIXC_EVENT_IN "e_arg ev"] obtain o' s lost where
      on: "on_dgram os cl d POSIXC_EVENT_IN (e_arg ev) w1 = Some (Inr (w1\<lparr>inbox := xs, out := o', svr := s\<rparr>))" "svr_ok s"
        "stream (o', buffered_writefile s) @ lost = log_stream w1 @ take one_page x" "lost \<noteq> [] \<longrightarrow> may_fail os"
        "bfd (buffered_writefile s) = log_fd w1" "svr_ptrs s = svr_ptrs (svr w1)" by blast
    let ?w = "w1\<lparr>inbox := xs, out := o', svr := s\<rparr>"
    have "service pl r self d t g ?w" by (rule service_svr [OF w1(2) on(2,6)])
    moreover have "backlog w = take one_page x @ backlog ?w" using Cons same by (simp add: backlog_def)
    moreover have "log_stream ?w @ lost = log_stream w @ take one_page x" "log_fd ?w = log_fd w"
      using on(3,5) same by (simp_all add: log_stream_def log_fd_def)
    ultimately show ?thesis using run on(1,4) w1(4)
      by (intro exI [of _ ?w] exI [of _ lost] exI [of _ "take one_page x"]) simp
  qed
qed

lemma report_timer:
  assumes os: "kernel_ok os" "progress os" and srv: "service pl r self d t g w"
  shows "\<exists>w' lost. consume_ev (svr_callbacks pl os cl self join) w (clock_tick t) = Some (Inr w') \<and>
    service pl r self d t g w' \<and> reactors w' = reactors w \<and> log_fd w' = log_fd w \<and> backlog w' = backlog w \<and>
    log_stream w' @ lost = log_stream w \<and> (lost \<noteq> [] \<longrightarrow> may_fail os)"
proof -
  obtain ev where ev: "events w t = Some ev" "e_cb ev = Some 1" "e_arg ev \<noteq> NULL"
    using srv by (auto simp: service_def elim: has_callbackE)
  obtain w1 where w1: "posixc_event_consume w t 0 = Inr (w1, e_cb ev, e_arg ev)" "service pl r self d t g w1"
    "reactors w1 = reactors w" "rworld.more w1 = rworld.more w" using consume_service [OF srv ev(1)] by blast
  note same = svr_frame [OF w1(4)]
  let ?s = "(svr w1)\<lparr>buffered_writefile := (buffered_writefile (svr w1))\<lparr>pos := 0\<rparr>\<rparr>"
  have ok: "svr_ok (svr w1)" using w1(2) by (simp add: service_def)
  obtain o' lost where o': "posixc_asynclogsvr_flush os w1 = Some (Inr (w1\<lparr>out := o', svr := ?s\<rparr>))"
    "bytes_of o' (log_fd w1) @ lost = log_stream w1" "lost \<noteq> [] \<longrightarrow> may_fail os" using svr_flush_any [OF os ok] .
  let ?w = "w1\<lparr>inbox := inbox w1, out := o', svr := ?s\<rparr>"
  have "svr_ok ?s" using ok by (simp add: svr_ok_def bw_ok_def)
  then have "service pl r self d t g ?w" by (rule service_svr [OF w1(2)]) (simp add: svr_ptrs_def)
  moreover have "consume_ev (svr_callbacks pl os cl self join) w (clock_tick t) = Some (Inr ?w)"
    using w1(1) ev o'(1) by (simp add: consume_ev_def bits_of_filter_def clock_tick_def svr_callbacks_def on_clock_def)
  moreover have "log_stream ?w @ lost = log_stream w" "log_fd ?w = log_fd w" "backlog ?w = backlog w"
    using o'(2) same by (simp_all add: log_stream_def log_fd_def backlog_def stream_simps)
  ultimately show ?thesis using o'(3) w1(3) by (intro exI [of _ ?w] exI [of _ lost]) simp
qed

section \<open>Batches and rounds\<close>

definition reports :: "addr \<Rightarrow> addr \<Rightarrow> kevent list \<Rightarrow> bool" where
  "reports d t kes \<longleftrightarrow> set kes \<subseteq> {dgram_ready d, clock_tick t}"

text \<open>Nothing is lost: the log and what waits at the socket are the same bytes.\<close>

definition accounted :: "'c sworld \<Rightarrow> char list" where
  "accounted w = log_stream w @ backlog w"

text \<open>What the thread does between two waits changes neither the reactors nor the descriptor of the log, and loses nothing
  unless a write fails.\<close>

definition keeps :: "write_os \<Rightarrow> 'c sworld \<Rightarrow> 'c sworld \<Rightarrow> bool" where
  "keeps os w w' \<longleftrightarrow> reactors w' = reactors w \<and> log_fd w' = log_fd w \<and> (may_fail os \<or> accounted w' = accounted w)"

lemma report_ok:
  assumes "kernel_ok os" "progress os" "service pl r self d t g w" "ke \<in> {dgram_ready d, clock_tick t}"
  shows "\<exists>w'. consume_ev (svr_callbacks pl os cl self join) w ke = Some (Inr w') \<and> service pl r self d t g w' \<and> keeps os w w'"
proof (cases "ke = dgram_ready d")
  case True
  from report_socket [OF assms(1-3), of cl join] obtain w' lost rest where
    "consume_ev (svr_callbacks pl os cl self join) w (dgram_ready d) = Some (Inr w')" "service pl r self d t g w'"
    "reactors w' = reactors w" "log_fd w' = log_fd w" "backlog w = rest @ backlog w'"
    "log_stream w' @ lost = log_stream w @ rest" "lost \<noteq> [] \<longrightarrow> may_fail os" by blast
  then show ?thesis using True by (intro exI [of _ w']) (auto simp: accounted_def keeps_def)
next
  case False
  then have ke: "ke = clock_tick t" using assms(4) by simp
  from report_timer [OF assms(1-3), of cl join] obtain w' lost where
    "consume_ev (svr_callbacks pl os cl self join) w (clock_tick t) = Some (Inr w')" "service pl r self d t g w'"
    "reactors w' = reactors w" "log_fd w' = log_fd w" "backlog w' = backlog w"
    "log_stream w' @ lost = log_stream w" "lost \<noteq> [] \<longrightarrow> may_fail os" by blast
  then show ?thesis using ke by (intro exI [of _ w']) (auto simp: accounted_def keeps_def)
qed

lemma accounted_frame:
  fixes w w' :: "'c sworld"
  assumes "rworld.more w' = rworld.more w"
  shows "accounted w' = accounted w" "log_fd w' = log_fd w"
  using svr_frame [OF assms] by (simp_all add: accounted_def log_stream_def log_fd_def backlog_def)

text \<open>A collection frees none of the server's events, which are open.\<close>

lemma gc_service:
  assumes srv: "service pl r self d t g w"
  shows "\<exists>w'. posixc_reactor_gc pl self w r = Some (Inr w') \<and> service pl r self d t g w' \<and> reactors w' = reactors w \<and>
    rworld.more w' = rworld.more w"
proof -
  obtain es rc where inv: "gc_inv pl r w es" "reactors w r = Some rc" "r_thread rc = self"
    using srv by (auto simp: service_def thread_inv_def)
  obtain w' where w': "posixc_reactor_gc pl self w r = Some (Inr w')" "gc_inv pl r w' []"
    "events w' = (events w) |` (- set es)" "reactors w' = reactors w" "rworld.more w' = rworld.more w"
    using reactor_gc_ok [OF inv(1,2)] inv(3) by blast
  have "event_inv pl r w es" using inv(1) by (simp add: gc_own_def)
  then have keep: "has_callback w e c \<Longrightarrow> has_callback w' e c" for e c
    using w'(3) queued_iff [of pl r w es e] by (auto simp: has_callback_def restrict_map_def split: option.splits)
  have "thread_inv pl r self w'" using w'(2,4) inv(2,3) by (auto simp: thread_inv_def)
  moreover have "dom (events w') = {d, t, g}"
  proof -
    have "{d, t, g} \<subseteq> dom (events w')" using srv keep [of d 0] keep [of t 1] keep [of g 2]
      by (auto simp: service_def has_callback_def split: option.splits)
    moreover have "dom (events w') \<subseteq> dom (events w)" using w'(3) by auto
    ultimately show ?thesis using srv by (auto simp: service_def)
  qed
  ultimately have "service pl r self d t g w'" using srv keep svr_frame(1,4) [OF w'(5)] by (simp add: service_def)
  then show ?thesis using w' by blast
qed

interpretation lsv: loop_client pl r self "svr_callbacks pl os cl self join"
  "\<lambda>w. kernel_ok os \<and> progress os \<and> service pl r self d t g w" "\<lambda>ke. ke \<in> {dgram_ready d, clock_tick t}" "keeps os"
  for pl r self os cl join d t g
proof unfold_locales
  fix w :: "'a sworld" and ke
  assume w: "kernel_ok os \<and> progress os \<and> service pl r self d t g w"
  then show "\<exists>w'. consume_ev (svr_callbacks pl os cl self join) w ke = Some (Inr w') \<and>
      (kernel_ok os \<and> progress os \<and> service pl r self d t g w') \<and> keeps os w w'" if "ke \<in> {dgram_ready d, clock_tick t}"
    using report_ok [of os pl r self d t g w ke cl join] that by blast
  obtain w' where w': "posixc_reactor_gc pl self w r = Some (Inr w')" "service pl r self d t g w'" "reactors w' = reactors w"
    "rworld.more w' = rworld.more w" using gc_service [of pl r self d t g w] w by blast
  then show "\<exists>w'. posixc_reactor_gc pl self w r = Some (Inr w') \<and>
      (kernel_ok os \<and> progress os \<and> service pl r self d t g w') \<and> keeps os w w'"
    using w accounted_frame [OF w'(4)] by (auto simp: keeps_def)
qed (auto simp: keeps_def)

text \<open>While the thread waits, datagrams arrive; in the end a thread asks the reactor to close.\<close>

definition deliver :: "char list list \<Rightarrow> 'c sworld \<Rightarrow> 'c sworld" where
  "deliver ds w = w\<lparr>inbox := inbox w @ ds\<rparr>"

definition stop :: "addr \<Rightarrow> 'c sworld \<Rightarrow> 'c sworld" where
  "stop r w = w\<lparr>reactors := (reactors w)(r := map_option (\<lambda>rc. rc\<lparr>r_closing := True\<rparr>) (reactors w r))\<rparr>"

definition day :: "addr \<Rightarrow> (char list list \<times> kevent list) list \<Rightarrow> ('c sworld, kevent) wait list" where
  "day r rounds = map (\<lambda>(ds, kes). \<lparr>others = deliver ds, answer = Ready kes\<rparr>) rounds @
     [\<lparr>others = stop r, answer = Ready []\<rparr>]"

definition texts :: "(char list list \<times> kevent list) list \<Rightarrow> char list" where
  "texts rounds = concat (map (take one_page) (concat (map fst rounds)))"

lemma deliver_service:
  assumes "service pl r self d t g w"
  shows "service pl r self d t g (deliver ds w)" "accounted (deliver ds w) = accounted w @ concat (map (take one_page) ds)"
    "reactors (deliver ds w) = reactors w" "log_fd (deliver ds w) = log_fd w"
  using assms by (auto simp: deliver_def service_def has_callback_def thread_inv_def gc_own_def event_own_def
      accounted_def log_stream_def log_fd_def backlog_def)

lemma stop_service:
  assumes "service pl r self d t g w"
  shows "service pl r self d t g (stop r w)" "accounted (stop r w) = accounted w" "log_fd (stop r w) = log_fd w"
    "\<exists>rc. reactors (stop r w) r = Some rc \<and> r_closing rc"
proof -
  obtain es rc where inv: "gc_inv pl r w es" "reactors w r = Some rc" "r_thread rc = self"
    using assms by (auto simp: service_def thread_inv_def)
  then have "gc_inv pl r (stop r w) es" "reactors (stop r w) r = Some (rc\<lparr>r_closing := True\<rparr>)"
    by (simp_all add: stop_def gc_own_def event_own_def)
  then show "service pl r self d t g (stop r w)" "accounted (stop r w) = accounted w" "log_fd (stop r w) = log_fd w"
    "\<exists>rc. reactors (stop r w) r = Some rc \<and> r_closing rc"
    using assms inv(3)
    by (auto simp: stop_def service_def has_callback_def thread_inv_def accounted_def log_stream_def log_fd_def backlog_def)
qed

lemma day_ok:
  assumes os: "kernel_ok os" "progress os" and srv: "service pl r self d t g w"
    and rc: "reactors w r = Some rc" "\<not> r_closing rc" and rounds: "\<forall>(ds, kes) \<in> set rounds. reports d t kes"
  shows "\<exists>w'. kq_thread_loop pl (svr_callbacks pl os cl self join) self r i (day r rounds) w = Some (Inr w') \<and>
    service pl r self d t g w' \<and> log_fd w' = log_fd w \<and> (may_fail os \<or> accounted w' = accounted w @ texts rounds)"
  using srv rc rounds
proof (induction rounds arbitrary: w rc i)
  case Nil
  note st = stop_service [OF Nil.prems(1)]
  let ?wt = "\<lparr>others = stop r, answer = Ready []\<rparr> :: ('a sworld, kevent) wait"
  obtain w2 where w2: "kq_thread_loop pl (svr_callbacks pl os cl self join) self r i [?wt] w =
      kq_thread_loop pl (svr_callbacks pl os cl self join) self r ((i + 1) mod 2 ^ 32) [] w2"
      "service pl r self d t g w2" "keeps os (stop r w) w2"
    using lsv.iteration [OF Nil.prems(2,3), where os = os and wt = ?wt and kes = "[]"
        and pl = pl and self = self and d = d and t = t and g = g and cl = cl and join = join and i = i and waits = "[]"] os st(1) by auto
  obtain rc' where rc': "reactors w2 r = Some rc'" "r_closing rc'" using st(4) w2(3) by (auto simp: keeps_def)
  obtain w3 where "kq_thread_loop pl (svr_callbacks pl os cl self join) self r ((i + 1) mod 2 ^ 32) [] w2 = Some (Inr w3)"
    "service pl r self d t g w3" "keeps os w2 w3"
    using lsv.last_iteration [OF rc', where os = os and pl = pl and self = self and d = d and t = t and g = g and cl = cl and join = join
        and i = "(i + 1) mod 2 ^ 32" and waits = "[]"] os w2(2) by auto
  then show ?case using w2(1,3) st(2,3) by (auto simp: day_def texts_def keeps_def)
next
  case (Cons round rounds)
  obtain ds kes where rd: "round = (ds, kes)" by (cases round)
  note dl = deliver_service [OF Cons.prems(1), of ds]
  let ?wt = "\<lparr>others = deliver ds, answer = Ready kes\<rparr> :: ('a sworld, kevent) wait"
  have kes: "\<forall>ke \<in> set kes. ke \<in> {dgram_ready d, clock_tick t}" using Cons.prems(4) rd by (auto simp: reports_def)
  obtain w2 where w2: "kq_thread_loop pl (svr_callbacks pl os cl self join) self r i (?wt # day r rounds) w =
      kq_thread_loop pl (svr_callbacks pl os cl self join) self r ((i + 1) mod 2 ^ 32) (day r rounds) w2"
      "service pl r self d t g w2" "keeps os (deliver ds w) w2"
    using lsv.iteration [OF Cons.prems(2,3) _ _ kes, where os = os and wt = ?wt and pl = pl and self = self and cl = cl
        and join = join and i = i and waits = "day r rounds"] os dl(1) by auto
  have "reactors w2 r = Some rc" using Cons.prems(2) w2(3) dl(3) by (simp add: keeps_def)
  moreover have "\<forall>(ds, kes) \<in> set rounds. reports d t kes" using Cons.prems(4) by simp
  ultimately obtain w' where
    "kq_thread_loop pl (svr_callbacks pl os cl self join) self r ((i + 1) mod 2 ^ 32) (day r rounds) w2 = Some (Inr w')"
    "service pl r self d t g w'" "log_fd w' = log_fd w2" "may_fail os \<or> accounted w' = accounted w2 @ texts rounds"
    using Cons.IH [OF w2(2), of rc "(i + 1) mod 2 ^ 32"] Cons.prems(3) by blast
  moreover have "day r (round # rounds) = ?wt # day r rounds" using rd by (simp add: day_def)
  ultimately show ?case using w2(1,3) dl(2,4) rd by (auto simp: texts_def keeps_def)
qed

text \<open>The start brings the server into service.\<close>

lemma start_service:
  assumes w: "fresh_process w" and env: "env_ok env r d t s" "env_svr env \<noteq> NULL" "env_thread env = Some self"
    and dir: "chop dir \<noteq> []" "nul \<notin> set dir" "length dir < 180"
  shows "\<exists>w0 rc. posixc_asynclogsvr_init kq_plat env dir max_size interval w = Inr w0 \<and> service kq_plat r self d t s w0 \<and>
    reactors w0 r = Some rc \<and> \<not> r_closing rc \<and> inbox w0 = inbox w \<and> log_stream w0 = bytes_of (out w) (log_fd w0) \<and>
    log_fd w0 = env_open env (log_path (env_clock env) dir) {O_TRUNC, O_WRONLY, O_CREAT} (Some 0x1A4)"
proof -
  have ne: "dir \<noteq> []" using dir(1) by (auto simp: chop_def split: if_splits)
  obtain w0 rc where w0: "posixc_asynclogsvr_init kq_plat env dir max_size interval w = Inr w0" "gc_inv kq_plat r w0 []"
    "svr_ok (svr w0)" "log_fd w0 = env_open env (log_path (env_clock env) dir) {O_TRUNC, O_WRONLY, O_CREAT} (Some 0x1A4)"
    "log_stream w0 = bytes_of (out w) (log_fd w0)" "inbox w0 = inbox w"
    "events w0 = waiting r (env_svr env) (os_socket (env_ipc env))
      (snd (posixc_unique_event_id (env_timer_id env))) interval d t s"
    "reactors w0 r = Some rc" "env_thread env = Some (r_thread rc)" "\<not> r_closing rc"
    "svr_reactor (svr w0) = r" "dgram_event (svr w0) = d" "timer_event (svr w0) = t" "sigint_event (svr w0) = s"
    "exited w0 = exited w" using server_start_ok [OF w env(1) ne dir(2,3), of max_size interval] by (elim exE conjE) (rule that; assumption)
  have "distinct [d, t, s]" using env(1) by (simp add: env_ok_def)
  then have "has_callback w0 d 0" "has_callback w0 t 1" "has_callback w0 s 2" "dom (events w0) = {d, t, s}"
    using env(2) w0(7) by (auto simp: has_callback_def waiting_def new_event_def)
  moreover have "thread_inv kq_plat r self w0" using w0(2,8,9) env(3) by (auto simp: thread_inv_def)
  ultimately have "service kq_plat r self d t s w0" using w0(3,11-15) w by (simp add: service_def svr_ptrs_def fresh_process_def)
  then show ?thesis using w0 by blast
qed

section \<open>Properties\<close>

text \<open>C22: whatever the system answers to the writes of the server, every batch of reports for its socket and its timer, in any
  number and order and also when no datagram waits, is handled: the callbacks return, the server's structure stays
  well formed (the position of the buffer within it, the file name terminated within its bytes), its events stay open
  and the reactor's list consistent.\<close>

theorem server_keeps_type:
  assumes "kernel_ok os" "progress os" "service pl r self d t g w" "reports d t kes"
  shows "\<exists>w'. consume_evs (svr_callbacks pl os cl self join) kes w = Some (Inr w') \<and> service pl r self d t g w' \<and>
    log_fd w' = log_fd w"
  using lsv.batch [where os = os and pl = pl and r = r and self = self and d = d and t = t and g = g and w = w and kes = kes
      and cl = cl and join = join] assms by (auto simp: keeps_def reports_def)

text \<open>The server of \<open>demo_serving\<close>, whose disk is full.\<close>

lemma demo_service: "service kq_plat 1000 7 2000 2500 3000 (demo_serving\<lparr>inbox := b\<rparr>)"
proof -
  have "gc_inv kq_plat 1000 (demo_serving\<lparr>inbox := b\<rparr>) []"
    using demo_serving_inv by (simp add: gc_own_def event_own_def)
  then have "thread_inv kq_plat 1000 7 (demo_serving\<lparr>inbox := b\<rparr>)"
    using demo_serving_ok(4) by (auto simp: thread_inv_def)
  then show ?thesis using demo_serving_ok(1)
    by (auto simp: service_def has_callback_def demo_svr_defs NULL_def svr_ptrs_def)
qed

theorem server_keeps_type_witness:
  "\<exists>w'. consume_evs (svr_callbacks kq_plat full_disk \<lparr>now = noon, other = (\<lambda>c t. [])\<rparr> 7 (\<lambda>w. Some (Inr w)))
      [dgram_ready 2000, clock_tick 2500, dgram_ready 2000] (demo_serving\<lparr>inbox := [''a'']\<rparr>) = Some (Inr w') \<and>
    service kq_plat 1000 7 2000 2500 3000 w'"
proof -
  have "kernel_ok full_disk" "progress full_disk" by (auto simp: kernel_ok_def progress_def full_disk_def)
  moreover have "reports 2000 2500 [dgram_ready 2000, clock_tick 2500, dgram_ready 2000]" by (simp add: reports_def)
  ultimately show ?thesis using server_keeps_type [OF _ _ demo_service] by blast
qed

text \<open>C10: the server's thread runs from its start until the reactor is asked to close: in each round datagrams arrive,
  the kernel reports the socket and the timer in any order and any number of times, also when nothing waits, the log may
  roll, and the list is collected every other time. The thread ends, the descriptor of the log is still the same, and when
  no write fails the log followed by what still waits at the socket is what it was, followed by all that has arrived, in order: no
  datagram is lost, repeated or overtaken.\<close>

theorem server_run:
  assumes "kernel_ok os" "progress os" "service pl r self d t g w" "reactors w r = Some rc" "\<not> r_closing rc"
    and "\<forall>(ds, kes) \<in> set rounds. reports d t kes"
  shows "\<exists>w'. kq_reactor_plat_threadfn pl (svr_callbacks pl os cl self join) self r (day r rounds) w = Some (Inr w') \<and>
    service pl r self d t g w' \<and> log_fd w' = log_fd w \<and>
    (\<not> may_fail os \<longrightarrow> log_stream w' @ backlog w' = log_stream w @ backlog w @ texts rounds)"
  using day_ok [OF assms, of cl join 0] unfolding kq_reactor_plat_threadfn_def accounted_def by auto

theorem server_run_witness:
  "\<exists>w'. kq_reactor_plat_threadfn kq_plat (svr_callbacks kq_plat slow_os \<lparr>now = noon, other = (\<lambda>c t. [])\<rparr> 7 (\<lambda>w. Some (Inr w)))
      7 1000 (day 1000 [([''ab''], [dgram_ready 2000, clock_tick 2500]), ([''c'', ''d''], [dgram_ready 2000])]) demo_serving =
      Some (Inr w') \<and> log_stream w' @ backlog w' = ''abcd''"
proof -
  have w: "demo_serving\<lparr>inbox := []\<rparr> = demo_serving" using demo_serving_ok(7) by simp
  have os: "kernel_ok slow_os" "progress slow_os" "\<not> may_fail slow_os" using slow_os_reliable by (simp_all add: reliable_def)
  let ?rs = "[([''ab''], [dgram_ready 2000, clock_tick 2500]), ([''c'', ''d''], [dgram_ready 2000])]"
  have "\<forall>(ds, kes) \<in> set ?rs. reports 2000 2500 kes" by (simp add: reports_def)
  moreover have "log_stream demo_serving @ backlog demo_serving @ texts ?rs = ''abcd''"
    using demo_serving_ok(3,7) by (simp add: backlog_def texts_def one_page_def)
  ultimately show ?thesis
    using server_run [OF os(1,2) demo_service [of "[]", unfolded w] demo_serving_ok(4), of ?rs "\<lparr>now = noon, other = (\<lambda>c t. [])\<rparr>"
        "\<lambda>w. Some (Inr w)"] os(3) by auto
qed

end
