(* ===== verification/Process.thy ===== *)
theory Process
  imports Server
begin

text \<open>
  The process of the logging server, which \<open>exit\<close> in \<open>on_sigint\<close> ends: the loop of \<open>mac/reactor_kq.c\<close> over the server's
  callbacks, in which nothing runs any more once a callback has called \<open>exit\<close>. From the start to SIGINT.
\<close>

section \<open>The loop of a process that may exit\<close>

type_synonym 'c svr_cbs = "nat \<Rightarrow> addr \<Rightarrow> 32 word \<Rightarrow> addr \<Rightarrow> 'c sworld \<Rightarrow> 'c sworld run"

fun until_exit :: "'c svr_cbs \<Rightarrow> kevent list \<Rightarrow> 'c sworld \<Rightarrow> 'c sworld run" where
  "until_exit cbs [] w = Some (Inr w)"
| "until_exit cbs (ke # kes) w =
     bindR (consume_ev cbs w ke) (\<lambda>w. if exited w then Some (Inr w) else until_exit cbs kes w)"

text \<open>As \<open>kq_thread_loop\<close>, with \<open>until_exit\<close> for the batch.\<close>

fun process_loop :: "'c plat \<Rightarrow> 'c svr_cbs \<Rightarrow> thread_id \<Rightarrow> addr \<Rightarrow> nat \<Rightarrow> ('c sworld, kevent) wait list \<Rightarrow>
    'c sworld \<Rightarrow> 'c sworld run" where
  "process_loop pl cbs self r i waits w =
     bindR (Some (get_reactor w r)) (\<lambda>rc.
     if r_closing rc then posixc_reactor_gc pl self w r
     else (case waits of [] \<Rightarrow> None
       | wt # waits \<Rightarrow>
         (let w = others wt w in
          case answer wt of Wait_EBADF \<Rightarrow> Some (Inr w)
          | ans \<Rightarrow>
            bindR (case ans of Ready kes \<Rightarrow> until_exit cbs kes w | _ \<Rightarrow> Some (Inr w)) (\<lambda>w.
            if exited w then Some (Inr w)
            else bindR (if i mod loops_per_gc = 0 then posixc_reactor_gc pl self w r else Some (Inr w)) (\<lambda>w.
              process_loop pl cbs self r ((i + 1) mod 2 ^ 32) waits w)))))"

declare process_loop.simps [simp del]

text \<open>Callbacks that do not exit: the loop is the one of the reactor.\<close>

lemma until_exit_same:
  assumes "\<And>w ke w'. \<not> exited w \<Longrightarrow> consume_ev cbs w ke = Some (Inr w') \<Longrightarrow> \<not> exited w'" "\<not> exited w"
  shows "until_exit cbs kes w = consume_evs cbs kes w"
    and "consume_evs cbs kes w = Some (Inr w') \<Longrightarrow> \<not> exited w'"
  using assms(2)
  by (induction kes arbitrary: w) (auto simp: bindR_def assms(1) split: option.splits sum.splits)

section \<open>Signals\<close>

definition sigint_ready :: "addr \<Rightarrow> kevent" where
  "sigint_ready e = \<lparr>kident = 2, kfilter = EVFILT_SIGNAL, kflags = {EV_CLEAR}, kdata = 1, udata = e\<rparr>"

lemma service_events:
  assumes "service pl r self d t g w"
  shows "svr_events w" "svr_reactor (svr w) = r"
    "{timer_event (svr w), dgram_event (svr w), sigint_event (svr w)} = dom (events w)"
proof -
  have "has_callback w d 0" "has_callback w t 1" "has_callback w g 2" "svr_ptrs (svr w) = (r, d, t, g)"
    using assms by (simp_all add: service_def)
  then show "svr_events w" by (auto simp: svr_events_def svr_ptrs_def has_callback_def split: option.splits)
  show "svr_reactor (svr w) = r" "{timer_event (svr w), dgram_event (svr w), sigint_event (svr w)} = dom (events w)"
    using assms by (auto simp: service_def svr_ptrs_def)
qed

text \<open>SIGINT writes what is buffered, releases everything and ends the process.\<close>

lemma report_sigint:
  assumes os: "kernel_ok os" "progress os" and srv: "service pl r self d t g w"
  shows "\<exists>w' lost. until_exit (svr_callbacks pl os cl self (\<lambda>w. Some (Inr w))) (sigint_ready g # rest) w = Some (Inr w') \<and>
    exited w' \<and> events w' = Map.empty \<and> reactors w' r = None \<and> backlog w' = backlog w \<and>
    bytes_of (out w') (log_fd w) @ lost = log_stream w \<and> (lost \<noteq> [] \<longrightarrow> may_fail os)"
proof -
  obtain ev where ev: "events w g = Some ev" "e_cb ev = Some 2" using srv by (auto simp: service_def elim: has_callbackE)
  obtain w1 where w1: "posixc_event_consume w g POSIXC_EVENT_SIG = Inr (w1, e_cb ev, e_arg ev)" "service pl r self d t g w1"
    "rworld.more w1 = rworld.more w" using consume_service [OF srv ev(1)] by blast
  note same = svr_frame [OF w1(3)] and se = service_events [OF w1(2)]
  obtain es rc where inv: "gc_inv pl r w1 es" "reactors w1 r = Some rc" "r_thread rc = self" and ok: "svr_ok (svr w1)"
    using w1(2) by (auto simp: service_def thread_inv_def)
  obtain w' lost where w': "on_sigint pl os self (\<lambda>w. Some (Inr w)) g POSIXC_EVENT_SIG (e_arg ev) w1 = Some (Inr w')" "exited w'"
    "bytes_of (out w') (log_fd w1) @ lost = log_stream w1" "lost \<noteq> [] \<longrightarrow> may_fail os" "inbox w' = inbox w1" "reactors w' r = None"
    "events w' = events w1 |` (- (set es \<union> {timer_event (svr w1), dgram_event (svr w1), sigint_event (svr w1)}))"
    using on_sigint_any [OF os ok inv(1,2) se(2,1), of g POSIXC_EVENT_SIG "e_arg ev"] inv(3) by blast
  have "consume_ev (svr_callbacks pl os cl self (\<lambda>w. Some (Inr w))) w (sigint_ready g) = Some (Inr w')"
    using w1(1) ev(2) w'(1) by (simp add: consume_ev_def bits_of_filter_def sigint_ready_def svr_callbacks_def)
  moreover have "events w' = Map.empty" unfolding w'(7) se(3) by (auto simp: restrict_map_def)
  ultimately show ?thesis using w'(2-6) same
    by (intro exI [of _ w'] exI [of _ lost]) (simp add: backlog_def log_fd_def log_stream_def)
qed

section \<open>Batches and rounds\<close>

lemma until_exit_batch:
  assumes os: "kernel_ok os" "progress os" and srv: "service pl r self d t g w" and kes: "reports d t kes"
  shows "\<exists>w'. (\<forall>rest. until_exit (svr_callbacks pl os cl self join) (kes @ rest) w =
      until_exit (svr_callbacks pl os cl self join) rest w') \<and> service pl r self d t g w' \<and> keeps os w w'"
  using srv kes
proof (induction kes arbitrary: w)
  case Nil
  then show ?case by (auto simp: keeps_def)
next
  case (Cons ke kes)
  have ke: "ke \<in> {dgram_ready d, clock_tick t}" "reports d t kes" using Cons.prems(2) by (auto simp: reports_def)
  obtain w1 where w1: "consume_ev (svr_callbacks pl os cl self join) w ke = Some (Inr w1)" "service pl r self d t g w1"
    "keeps os w w1" using report_ok [OF os Cons.prems(1) ke(1)] by blast
  obtain w2 where w2: "\<forall>rest. until_exit (svr_callbacks pl os cl self join) (kes @ rest) w1 =
      until_exit (svr_callbacks pl os cl self join) rest w2" "service pl r self d t g w2" "keeps os w1 w2"
    using Cons.IH [OF w1(2) ke(2)] by blast
  have "\<not> exited w1" using w1(2) by (simp add: service_def)
  then show ?case using w1(1,3) w2 by (intro exI [of _ w2]) (auto simp: keeps_def)
qed

lemma process_round:
  assumes os: "kernel_ok os" "progress os" and srv: "service pl r self d t g w"
    and rc: "reactors w r = Some rc" "\<not> r_closing rc" and kes: "reports d t kes"
  shows "\<exists>w'. process_loop pl (svr_callbacks pl os cl self join) self r i (\<lparr>others = deliver ds, answer = Ready kes\<rparr> # waits) w =
      process_loop pl (svr_callbacks pl os cl self join) self r ((i + 1) mod 2 ^ 32) waits w' \<and>
    service pl r self d t g w' \<and> keeps os (deliver ds w) w'"
proof -
  note dl = deliver_service [OF srv, of ds]
  obtain w1 where w1: "until_exit (svr_callbacks pl os cl self join) kes (deliver ds w) = Some (Inr w1)"
    "service pl r self d t g w1" "keeps os (deliver ds w) w1"
    using until_exit_batch [OF os dl(1) kes, of cl join] by (metis append_Nil2 until_exit.simps(1))
  obtain w2 where w2: "(if i mod loops_per_gc = 0 then posixc_reactor_gc pl self w1 r else Some (Inr w1)) = Some (Inr w2)"
    "service pl r self d t g w2" "keeps os w1 w2"
    using lsv.collect_law [where os = os and pl = pl and self = self and r = r and d = d and t = t and g = g and w = w1] os w1(2)
      lsv.rel_refl [of os w1] by (cases "i mod loops_per_gc = 0") auto
  have "\<not> exited w1" using w1(2) by (simp add: service_def)
  then have "process_loop pl (svr_callbacks pl os cl self join) self r i (\<lparr>others = deliver ds, answer = Ready kes\<rparr> # waits) w =
      process_loop pl (svr_callbacks pl os cl self join) self r ((i + 1) mod 2 ^ 32) waits w2"
    using rc w1(1) w2(1) by (simp add: process_loop.simps [of _ _ _ _ i])
  then show ?thesis using w2(2,3) w1(3) by (intro exI [of _ w2]) (auto simp: keeps_def)
qed

text \<open>The waits of a process that ends with SIGINT: rounds of reports, and then a batch with the signal in it.\<close>

definition lifespan :: "addr \<Rightarrow> (char list list \<times> kevent list) list \<Rightarrow> char list list \<Rightarrow> kevent list \<Rightarrow> kevent list \<Rightarrow>
    ('c sworld, kevent) wait list \<Rightarrow> ('c sworld, kevent) wait list" where
  "lifespan g rounds ds kes unseen later = map (\<lambda>(ds, kes). \<lparr>others = deliver ds, answer = Ready kes\<rparr>) rounds @
     \<lparr>others = deliver ds, answer = Ready (kes @ sigint_ready g # unseen)\<rparr> # later"

lemma lifespan_ok:
  assumes os: "kernel_ok os" "progress os" and srv: "service pl r self d t g w"
    and rc: "reactors w r = Some rc" "\<not> r_closing rc" and rounds: "\<forall>(ds, kes) \<in> set rounds. reports d t kes" "reports d t kes"
  shows "\<exists>w'. process_loop pl (svr_callbacks pl os cl self (\<lambda>w. Some (Inr w))) self r i (lifespan g rounds ds kes unseen later) w =
      Some (Inr w') \<and> exited w' \<and> events w' = Map.empty \<and> reactors w' r = None \<and>
    (may_fail os \<or> bytes_of (out w') (log_fd w) @ backlog w' = accounted w @ texts (rounds @ [(ds, kes)]))"
  using srv rc rounds(1)
proof (induction rounds arbitrary: w rc i)
  case Nil
  note dl = deliver_service [OF Nil.prems(1), of ds]
  obtain w1 where w1: "\<forall>rest. until_exit (svr_callbacks pl os cl self (\<lambda>w. Some (Inr w))) (kes @ rest) (deliver ds w) =
      until_exit (svr_callbacks pl os cl self (\<lambda>w. Some (Inr w))) rest w1" "service pl r self d t g w1" "keeps os (deliver ds w) w1"
    using until_exit_batch [OF os dl(1) rounds(2), of cl "\<lambda>w. Some (Inr w)"] by blast
  obtain w' lost where w': "until_exit (svr_callbacks pl os cl self (\<lambda>w. Some (Inr w))) (sigint_ready g # unseen) w1 = Some (Inr w')"
    "exited w'" "events w' = Map.empty" "reactors w' r = None" "backlog w' = backlog w1"
    "bytes_of (out w') (log_fd w1) @ lost = log_stream w1" "lost \<noteq> [] \<longrightarrow> may_fail os"
    using report_sigint [OF os w1(2), of cl unseen] by blast
  have "process_loop pl (svr_callbacks pl os cl self (\<lambda>w. Some (Inr w))) self r i (lifespan g [] ds kes unseen later) w = Some (Inr w')"
    using Nil.prems(2,3) w1(1) w'(1,2) by (simp add: lifespan_def process_loop.simps [of _ _ _ _ i] del: until_exit.simps)
  moreover have "may_fail os \<or> bytes_of (out w') (log_fd w) @ backlog w' = accounted w @ texts [(ds, kes)]"
    using w'(5-7) w1(3) dl(2,4) by (auto simp: keeps_def accounted_def texts_def)
  ultimately show ?case using w'(2-4) by simp
next
  case (Cons round rounds)
  obtain ds1 kes1 where rd: "round = (ds1, kes1)" by (cases round)
  note dl = deliver_service [OF Cons.prems(1), of ds1]
  have kes1: "reports d t kes1" "\<forall>(ds, kes) \<in> set rounds. reports d t kes" using Cons.prems(4) rd by auto
  obtain w1 where w1: "process_loop pl (svr_callbacks pl os cl self (\<lambda>w. Some (Inr w))) self r i
        (\<lparr>others = deliver ds1, answer = Ready kes1\<rparr> # lifespan g rounds ds kes unseen later) w =
      process_loop pl (svr_callbacks pl os cl self (\<lambda>w. Some (Inr w))) self r ((i + 1) mod 2 ^ 32) (lifespan g rounds ds kes unseen later) w1"
    "service pl r self d t g w1" "keeps os (deliver ds1 w) w1"
    using process_round [OF os Cons.prems(1-3) kes1(1)] by blast
  have "reactors w1 r = Some rc" using Cons.prems(2) w1(3) dl(3) by (simp add: keeps_def)
  then obtain w' where w': "process_loop pl (svr_callbacks pl os cl self (\<lambda>w. Some (Inr w))) self r ((i + 1) mod 2 ^ 32)
      (lifespan g rounds ds kes unseen later) w1 = Some (Inr w')" "exited w'" "events w' = Map.empty" "reactors w' r = None"
    "may_fail os \<or> bytes_of (out w') (log_fd w1) @ backlog w' = accounted w1 @ texts (rounds @ [(ds, kes)])"
    using Cons.IH [OF w1(2) _ Cons.prems(3) kes1(2)] by blast
  have "lifespan g (round # rounds) ds kes unseen later =
      \<lparr>others = deliver ds1, answer = Ready kes1\<rparr> # lifespan g rounds ds kes unseen later" using rd by (simp add: lifespan_def)
  then show ?case using w1(1,3) w' dl(2,4) rd by (auto simp: texts_def keeps_def)
qed

end
