(* ===== verification/Programs.thy ===== *)
theory Programs
  imports Kernel_List Utils Slice Lifecycle Process
begin

text \<open>
  The programs under \<open>src/tests/\<close>: what they do with the library, composed from the models of the functions they call. A
  program that ends in \<open>while(true)\<close> is modelled up to there.
\<close>

definition line :: "char list \<Rightarrow> char list" where
  "line s = s @ [CHR 0x0A]"

text \<open>\<open>printf\<close> with \<open>%d\<close>.\<close>

definition decimal :: "int \<Rightarrow> char list" where
  "decimal x = (if x = 0 then ''0'' else if x < 0 then CHR ''-'' # rev (digits_rev (nat (- x))) else rev (digits_rev (nat x)))"

section \<open>tests/list_test.c\<close>

text \<open>\<open>events\<close> and \<open>node\<close> are the first fields of their structures, so a node has the address of its structure; the second map holds
  the fields \<open>x\<close>.\<close>

definition list_test_setup :: "addr \<Rightarrow> addr \<Rightarrow> addr \<Rightarrow> addr \<Rightarrow> lheap \<Rightarrow> (lheap \<times> (addr \<rightharpoonup> int)) res" where
  "list_test_setup aa b1 b2 b3 h =
     bindE (INIT_LIST_HEAD h aa) (\<lambda>h.
     bindE (INIT_LIST_HEAD h b1) (\<lambda>h. let x = [b1 \<mapsto> 1] in
     bindE (INIT_LIST_HEAD h b2) (\<lambda>h. let x = x(b2 \<mapsto> 2) in
     bindE (INIT_LIST_HEAD h b3) (\<lambda>h. let x = x(b3 \<mapsto> 3) in
     bindE (list_add h b1 aa) (\<lambda>h.
     bindE (list_add h b2 aa) (\<lambda>h.
     bindE (list_add h b3 aa) (\<lambda>h. Inr (h, x))))))))"

definition list_test_main :: "addr \<Rightarrow> addr \<Rightarrow> addr \<Rightarrow> addr \<Rightarrow> lheap \<Rightarrow> char list list run" where
  "list_test_main aa b1 b2 b3 h =
     bindR (Some (list_test_setup aa b1 b2 b3 h)) (\<lambda>(h, x).
     bindR (list_for_each fst (\<lambda>tmp (h, out). Inr (h, out @ [line ''duh~''])) aa (h, [])) (\<lambda>(h, out).
     bindR (list_for_each_entry fst 0 (\<lambda>bx (h, out). case x bx of None \<Rightarrow> Inl Bad_Pointer
         | Some v \<Rightarrow> Inr (h, out @ [line (''bx->x='' @ decimal v)])) aa (h, out)) (\<lambda>(h, out).
     Some (Inr out))))"

lemma init_dlist:
  assumes "p \<in> dom h"
  obtains h' where "INIT_LIST_HEAD h p = Inr h'" "dlist h' p []" "same_outside {p} h h'"
  using INIT_LIST_HEAD_ring [OF assms] by (auto simp: dlist_def)

lemma add_first:
  assumes "dlist h head xs" "cur \<in> dom h" "cur \<notin> set (head # xs)"
  shows "\<exists>h'. list_add h cur head = Inr h' \<and> dlist h' head (cur # xs) \<and> dom h' = dom h"
  using list_add_spec [OF assms] by (metis same_outside_def)

lemma list_test_setup_ok:
  assumes "distinct [aa, b1, b2, b3]" "{aa, b1, b2, b3} \<subseteq> dom h"
  shows "\<exists>h'. list_test_setup aa b1 b2 b3 h = Inr (h', [b1 \<mapsto> 1, b2 \<mapsto> 2, b3 \<mapsto> 3]) \<and> dlist h' aa [b3, b2, b1]"
proof -
  have "aa \<in> dom h" using assms(2) by simp
  then obtain h0 where h0: "INIT_LIST_HEAD h aa = Inr h0" "dlist h0 aa []" "same_outside {aa} h h0" by (rule init_dlist)
  have "b1 \<in> dom h0" using assms(2) h0(3) by (simp add: same_outside_def)
  then obtain h1 where h1: "INIT_LIST_HEAD h0 b1 = Inr h1" "same_outside {b1} h0 h1" by (rule init_dlist)
  have "b2 \<in> dom h1" using assms(2) h0(3) h1(2) by (simp add: same_outside_def)
  then obtain h2 where h2: "INIT_LIST_HEAD h1 b2 = Inr h2" "same_outside {b2} h1 h2" by (rule init_dlist)
  have "b3 \<in> dom h2" using assms(2) h0(3) h1(2) h2(2) by (simp add: same_outside_def)
  then obtain h3 where h3: "INIT_LIST_HEAD h2 b3 = Inr h3" "same_outside {b3} h2 h3" by (rule init_dlist)
  have dom: "dom h3 = dom h" using h0(3) h1(2) h2(2) h3(2) by (simp add: same_outside_def)
  have "dlist h3 aa []"
    using h0(2) by (rule dlist_cong) (use assms(1) h1(2) h2(2) h3(2) in \<open>auto simp: same_outside_def\<close>)
  then obtain h4 where h4: "list_add h3 b1 aa = Inr h4" "dlist h4 aa [b1]" "dom h4 = dom h"
    using add_first [of h3 aa "[]" b1] assms dom by auto
  obtain h5 where h5: "list_add h4 b2 aa = Inr h5" "dlist h5 aa [b2, b1]" "dom h5 = dom h"
    using add_first [OF h4(2), of b2] assms h4(3) by auto
  obtain h6 where h6: "list_add h5 b3 aa = Inr h6" "dlist h6 aa [b3, b2, b1]"
    using add_first [OF h5(2), of b3] assms h5(3) by auto
  show ?thesis using h0(1) h1(1) h2(1) h3(1) h4(1) h5(1) h6 by (simp add: list_test_setup_def)
qed

text \<open>The program prints a line for each node and then the entries, the last one added first.\<close>

lemma list_test_prints:
  assumes "distinct [aa, b1, b2, b3]" "{aa, b1, b2, b3} \<subseteq> dom h"
  shows "list_test_main aa b1 b2 b3 h = Some (Inr (map line [''duh~'', ''duh~'', ''duh~'', ''bx->x=3'', ''bx->x=2'', ''bx->x=1'']))"
proof -
  obtain h' where h': "list_test_setup aa b1 b2 b3 h = Inr (h', [b1 \<mapsto> 1, b2 \<mapsto> 2, b3 \<mapsto> 3])" "dlist h' aa [b3, b2, b1]"
    using list_test_setup_ok [OF assms] by blast
  have nx: "get_next h' aa = Inr b3" "get_next h' b3 = Inr b2" "get_next h' b2 = Inr b1" "get_next h' b1 = Inr aa"
    using dlist_next_head [OF h'(2)] dlist_next_node [of h' aa "[]" b3 "[b2, b1]"] dlist_next_node [of h' aa "[b3]" b2 "[b1]"]
      dlist_next_node [of h' aa "[b3, b2]" b1 "[]"] h'(2) by simp_all
  have d: "decimal 3 = ''3''" "decimal 2 = ''2''" "decimal 1 = ''1''" by (code_simp+)
  have ne: "b1 \<noteq> aa" "b2 \<noteq> aa" "b3 \<noteq> aa" "b1 \<noteq> b2" "b2 \<noteq> b3" "b1 \<noteq> b3" using assms(1) by auto
  have "list_for_each fst (\<lambda>tmp (h, out). Inr (h, out @ [line ''duh~''])) aa (h', []) =
      Some (Inr (h', map line [''duh~'', ''duh~'', ''duh~'']))"
    using ne nx by (simp add: list_for_each_def for_each_loop.simps)
  moreover have "list_for_each_entry fst 0 (\<lambda>bx (h, out). case [b1 \<mapsto> 1, b2 \<mapsto> 2, b3 \<mapsto> 3] bx of None \<Rightarrow> Inl Bad_Pointer
       | Some v \<Rightarrow> Inr (h, out @ [line (''bx->x='' @ decimal v)])) aa (h', out) =
      Some (Inr (h', out @ map line [''bx->x=3'', ''bx->x=2'', ''bx->x=1'']))" for out
    using ne nx d by (simp add: list_for_each_entry_def for_each_entry_loop.simps list_entry_def)
  ultimately show ?thesis using h'(1) by (simp add: list_test_main_def)
qed

section \<open>tests/slice_test.c\<close>

text \<open>\<open>printf\<close> reads the text behind \<open>pos\<close>; a null pointer is an error.\<close>

definition slice_test_main :: "bool \<Rightarrow> saddr \<Rightarrow> saddr \<Rightarrow> smem \<Rightarrow> char list list run" where
  "slice_test_main malloc_ok s needle m =
     bindR (posixc_kmp_contains ''123456'' 6 ''23'' 2) (\<lambda>pos.
     case pos of None \<Rightarrow> Some (Inl Bad_Pointer) | Some i \<Rightarrow>
       (let out = [line (drop (nat i) ''123456''), line ''PosixC Slice''] in
        bindR (Some (posixc_slice_init_from m s ''Hello PosixC Slice!'')) (\<lambda>m.
        bindR (Some (posixc_slice_init_from m needle ''six'')) (\<lambda>m.
        bindR (posixc_slice_contains malloc_ok m s needle) (\<lambda>result.
        Some (Inr (out @ [line (''result='' @ (if result then ''true'' else ''false''))])))))))"

lemma kmp_demo: "posixc_kmp_contains ''123456'' 6 ''23'' 2 = Some (Inr (Some 1))"
  "posixc_kmp_contains ''Hello PosixC Slice!'' 19 ''six'' 3 = Some (Inr (Some 8))"
  using kmp_unique_first_run [of 2 "''23''" 6 "''123456''"] unique_first_23
    kmp_unique_first_run [of 3 "''six''" 19 "''Hello PosixC Slice!''"] unique_first_six by simp_all

text \<open>The program prints the text from the match on, and finds the second needle, whatever \<open>malloc\<close> answers.\<close>

lemma slice_test_prints:
  assumes "slice_var m s" "slice_var m needle" "s \<noteq> needle"
  shows "slice_test_main malloc_ok s needle m = Some (Inr (map line [''23456'', ''PosixC Slice'', ''result=true'']))"
proof -
  obtain m1 where m1: "posixc_slice_init_from m s ''Hello PosixC Slice!'' = Inr m1" "slice_ok m1 s ''Hello PosixC Slice!''"
    "\<forall>b. b \<noteq> s \<longrightarrow> slices m1 b = slices m b"
    using slice_init_from_inline [OF assms(1), of "''Hello PosixC Slice!''"] by (auto simp: inline_cap_def)
  have "slice_var m1 needle" using assms(2,3) m1(3) by (simp add: slice_var_def)
  then obtain m2 where m2: "posixc_slice_init_from m1 needle ''six'' = Inr m2" "slice_ok m2 needle ''six''"
    "\<forall>b. b \<noteq> needle \<longrightarrow> slices m2 b = slices m1 b" "blocks m2 = blocks m1"
    using slice_init_from_inline [of m1 needle "''six''"] by (auto simp: inline_cap_def)
  have "slice_ok m2 s ''Hello PosixC Slice!''"
    by (rule slice_ok_frame [OF m1(2)]) (use m2(3,4) assms(3) in auto)
  then obtain t where t: "slices m2 s = Some t" "ssize t = Some (length ''Hello PosixC Slice!'')"
    "load_bytes m2 (buf t) (length ''Hello PosixC Slice!'') = Inr ''Hello PosixC Slice!''" by (rule slice_ok_load)
  obtain p where p: "slices m2 needle = Some p" "ssize p = Some (length ''six'')" "load_bytes m2 (buf p) (length ''six'') = Inr ''six''"
    using m2(2) by (rule slice_ok_load)
  have len: "length ''Hello PosixC Slice!'' = 19" "length ''six'' = 3" by simp_all
  have "posixc_slice_contains malloc_ok m2 s needle = Some (Inr True)"
    using t [unfolded len] p [unfolded len] kmp_demo(2) by (simp add: posixc_slice_contains_def)
  then show ?thesis using m1(1) m2(1) kmp_demo(1) by (simp add: slice_test_main_def)
qed

section \<open>tests/timer_test.c\<close>

text \<open>The callbacks are \<open>on_clock\<close> (0) and \<open>on_clock2\<close> (1); a null pointer that is used is an error. The kernel's answers and the
  addresses that \<open>malloc\<close> returns are arguments.\<close>

definition non_null :: "'a option \<Rightarrow> 'a res" where
  "non_null p = (case p of None \<Rightarrow> Inl Bad_Pointer | Some a \<Rightarrow> Inr a)"

definition timer_test_setup :: "int \<Rightarrow> thread_id \<Rightarrow> addr \<Rightarrow> addr \<Rightarrow> addr \<Rightarrow> kcall rworld \<Rightarrow> kcall rworld res" where
  "timer_test_setup kq thread m0 m1 m2 w =
     bindE (posixc_reactor_create kq_plat w kq (Some m0) (Some thread)) (\<lambda>(w, reactor).
     bindE (non_null reactor) (\<lambda>reactor.
     bindE (posixc_event_create kq_plat w (Some m1) reactor 0 (Some 0) NULL TIMER_EV) (\<lambda>(w, event).
     bindE (posixc_event_create kq_plat w (Some m2) reactor 1 (Some 1) NULL TIMER_EV) (\<lambda>(w, event2).
     bindE (non_null event) (\<lambda>event. bindE (posixc_timer_event_set_interval w event 1000 False) (\<lambda>w.
     bindE (non_null event2) (\<lambda>event2. bindE (posixc_timer_event_set_interval w event2 3000 True) (\<lambda>w.
     bindE (posixc_event_submit kq_plat w event POSIXC_EVENT_TIMER) (\<lambda>(w, ok).
     bindE (posixc_event_submit kq_plat w event2 POSIXC_EVENT_TIMER) (\<lambda>(w, ok). Inr w))))))))))"

lemma submit_quiet: "posixc_event_submit pl w e evs = Inr (w', ok) \<Longrightarrow> syscalls w' = syscalls w"
  by (cases "get_event w e") (auto simp: posixc_event_submit_def quiet_ops(1) split: if_splits)

text \<open>The kernel gets one timer of a second, which fires once, and one of three seconds. But the identifiers of the timers are taken
  for descriptors as well: the standard input and output of the program become non-blocking and are closed on \<open>exec\<close>.\<close>

lemma timer_test_arms:
  assumes w: "events w = Map.empty" "lists w = Map.empty" "plat_calls w = []" "\<forall>n. plat_answer w n" "syscalls w = []"
    and a: "0 \<le> kq" "m1 \<noteq> m2" "m0 + 80 \<noteq> m1 + 120" "m0 + 80 \<noteq> m2 + 120"
  shows "\<exists>w'. timer_test_setup kq thread m0 m1 m2 w = Inr w' \<and>
    plat_calls w' = [(kq, [EV_SET 0 EVFILT_TIMER ev_newly_add 0 m1]), (kq, [EV_SET 1 EVFILT_TIMER ev_newly_add 0 m2]),
      (kq, [EV_SET 0 EVFILT_TIMER {EV_ENABLE, EV_CLEAR, EV_ONESHOT} 1000 m1]),
      (kq, [EV_SET 1 EVFILT_TIMER {EV_ENABLE, EV_CLEAR} 3000 m2])] \<and>
    {Set_Nonblock 0, Set_Nonblock 1, Set_Cloexec 0, Set_Cloexec 1} \<subseteq> set (syscalls w')"
proof -
  obtain w0 where w0: "posixc_reactor_create kq_plat w kq (Some m0) (Some thread) = Inr (w0, Some m0)"
    "reactors w0 m0 = Some \<lparr>r_mtx = False, r_thread = thread, r_id = kq, r_closing = False\<rparr>" "events w0 = Map.empty"
    "dom (lists w0) = {m0 + 80}" "plat_calls w0 = []" "plat_answer w0 = plat_answer w" "gc_inv kq_plat m0 w0 []"
    using reactor_create_returns [OF a(1), of kq_plat w m0 thread] reactor_create_ok [of kq_plat w kq m0 thread] w
    by (auto simp: kq_plat_def)
  have m1: "plat_create kq_plat kq m1 (new_event m0 0 (Some 0) NULL TIMER_EV) = Some (kq, [EV_SET 0 EVFILT_TIMER ev_newly_add 0 m1])"
    and m2: "plat_create kq_plat kq m2 (new_event m0 1 (Some 1) NULL TIMER_EV) = Some (kq, [EV_SET 1 EVFILT_TIMER ev_newly_add 0 m2])"
    by (simp_all add: kq_plat_def kq_plat_create_def new_event_def register_timer_def event_types to_u64_def)
  have nodes: "node_of kq_plat m1 = m1 + 120" "node_of kq_plat m2 = m2 + 120" by (simp_all add: node_of_def kq_plat_def)
  obtain w1 where w1: "posixc_event_create kq_plat w0 (Some m1) m0 0 (Some 0) NULL TIMER_EV = Inr (w1, Some m1)"
    "gc_inv kq_plat m0 w1 []" "reactors w1 = reactors w0" "plat_answer w1 = plat_answer w"
    "plat_calls w1 = [(kq, [EV_SET 0 EVFILT_TIMER ev_newly_add 0 m1])]" "events w1 = [m1 \<mapsto> new_event m0 0 (Some 0) NULL TIMER_EV]"
    "dom (lists w1) = {m1 + 120, m0 + 80}"
    using event_create_ok [OF w0(7) _ _ w0(2), of m1 0 "Some 0" NULL TIMER_EV] w0 w(4) a m1 nodes by auto
  obtain w2 where w2: "posixc_event_create kq_plat w1 (Some m2) m0 1 (Some 1) NULL TIMER_EV = Inr (w2, Some m2)"
    "gc_inv kq_plat m0 w2 []" "reactors w2 = reactors w0"
    "plat_calls w2 = plat_calls w1 @ [(kq, [EV_SET 1 EVFILT_TIMER ev_newly_add 0 m2])]"
    "events w2 = [m1 \<mapsto> new_event m0 0 (Some 0) NULL TIMER_EV, m2 \<mapsto> new_event m0 1 (Some 1) NULL TIMER_EV]"
    using event_create_ok [OF w1(2) _ _ w0(2) [folded w1(3)], of m2 1 "Some 1" NULL TIMER_EV] w0(2) w1 w(4) a m2 nodes by auto
  let ?e1 = "(new_event m0 0 (Some 0) NULL TIMER_EV)\<lparr>data_1 := 1, data_2 := 1000\<rparr>"
  let ?e2 = "(new_event m0 1 (Some 1) NULL TIMER_EV)\<lparr>data_1 := 0, data_2 := 3000\<rparr>"
  obtain w3 where w3: "posixc_timer_event_set_interval w2 m1 1000 False = Inr w3" "gc_inv kq_plat m0 w3 []"
    "reactors w3 = reactors w0" "plat_calls w3 = plat_calls w2" "events w3 = (events w2)(m1 \<mapsto> ?e1)"
    using set_interval_ok [OF w2(2), of m1 _ 1000 False] w2(3,5) a(2) by (auto simp: POSIXC_TIMER_ONESHOT_def to_u64_def)
  obtain w4 where w4: "posixc_timer_event_set_interval w3 m2 3000 True = Inr w4" "gc_inv kq_plat m0 w4 []"
    "reactors w4 = reactors w0" "plat_calls w4 = plat_calls w2" "events w4 = [m1 \<mapsto> ?e1, m2 \<mapsto> ?e2]"
    using set_interval_ok [OF w3(2), of m2 _ 3000 True] w2(5) w3(3-5) a(2) by (auto simp: POSIXC_TIMER_PERIODIC_def to_u64_def)
  have s1: "plat_submit kq_plat kq m1 (?e1\<lparr>e_mtx := True, evmask := evmask ?e1 OR POSIXC_EVENT_TIMER\<rparr>) =
      Some (kq, [EV_SET 0 EVFILT_TIMER {EV_ENABLE, EV_CLEAR, EV_ONESHOT} 1000 m1])"
    and s2: "plat_submit kq_plat kq m2 (?e2\<lparr>e_mtx := True, evmask := evmask ?e2 OR POSIXC_EVENT_TIMER\<rparr>) =
      Some (kq, [EV_SET 1 EVFILT_TIMER {EV_ENABLE, EV_CLEAR} 3000 m2])"
    by (simp_all add: kq_plat_def kq_plat_submit_def new_event_def submit_timer_def event_types event_bits to_u64_def insert_commute)
  obtain w5 ok1 where w5: "posixc_event_submit kq_plat w4 m1 POSIXC_EVENT_TIMER = Inr (w5, ok1)" "gc_inv kq_plat m0 w5 []"
    "reactors w5 = reactors w0" "events w5 m2 = Some ?e2"
    "plat_calls w5 = plat_calls w2 @ [(kq, [EV_SET 0 EVFILT_TIMER {EV_ENABLE, EV_CLEAR, EV_ONESHOT} 1000 m1])]"
    using event_submit_ok [OF w4(2) _ w0(2) [folded w4(3)], of m1 ?e1 POSIXC_EVENT_TIMER] w4(3-5) a(2) s1
    by (auto simp: new_event_def)
  obtain w6 ok2 where w6: "posixc_event_submit kq_plat w5 m2 POSIXC_EVENT_TIMER = Inr (w6, ok2)"
    "plat_calls w6 = plat_calls w5 @ [(kq, [EV_SET 1 EVFILT_TIMER {EV_ENABLE, EV_CLEAR} 3000 m2])]"
    using event_submit_ok [OF w5(2,4) w0(2) [folded w5(3)], of POSIXC_EVENT_TIMER] s2 by (auto simp: new_event_def)
  have "syscalls w6 = syscalls w0 @ prepare 0 @ prepare 1"
    using create_calls [OF w1(1)] create_calls [OF w2(1)] quiet_ops(3) [OF w3(1)] quiet_ops(3) [OF w4(1)]
      submit_quiet [OF w5(1)] submit_quiet [OF w6(1)] by simp
  moreover have "timer_test_setup kq thread m0 m1 m2 w = Inr w6"
    using w0(1) w1(1) w2(1) w3(1) w4(1) w5(1) w6(1) by (simp add: timer_test_setup_def non_null_def)
  ultimately show ?thesis using w1(5) w2(4) w5(5) w6(2) by (intro exI [of _ w6]) (simp add: prepare_def)
qed

section \<open>tests/asynclogcli_test.c\<close>

text \<open>The calls that the program makes. \<open>cli\<close> is the structure before its initialisation.\<close>

definition asynclogcli_test_main ::
    "ipc_os \<Rightarrow> (char \<Rightarrow> tm \<Rightarrow> char list) \<Rightarrow> tm \<Rightarrow> posixc_asynclogcli \<Rightarrow> ipc_call list res" where
  "asynclogcli_test_main os oth tm0 cli =
     (let (cs, client, failed) = posixc_asynclogcli_init os cli usockpath_log LOG_LEVEL_DEBUG in
      bindE (posixc_asynclogcli_logstr oth tm0 client ''wwwwww'' LOG_LEVEL_INFO) (\<lambda>c1.
      bindE (posixc_asynclogcli_logstr oth tm0 client ''hello world!'' LOG_LEVEL_ERR) (\<lambda>c2.
      Inr (cs @ (case c1 of None \<Rightarrow> [] | Some c \<Rightarrow> [c]) @ (case c2 of None \<Rightarrow> [] | Some c \<Rightarrow> [c])))))"

definition cli_test_lines :: "tm \<Rightarrow> char list list" where
  "cli_test_lines tm0 = [default_text tm0 @ '' Info: wwwwww'' @ [CHR 0x0A], default_text tm0 @ '' Err: hello world!'' @ [CHR 0x0A]]"

lemma asynclogcli_test_sends:
  assumes "0 \<le> os_socket os" "os_connect os \<noteq> -1"
  shows "asynclogcli_test_main os oth tm0 cli = Inr (Socket_Dgram # Connect (os_socket os) (sun_path os usockpath_log) #
    map (Write (os_socket os)) (cli_test_lines tm0))"
proof -
  have lt: "level_text 1 = Some '' Info: ''" "level_text 3 = Some '' Err: ''" by (simp_all add: level_text_def log_levels)
  have init: "posixc_asynclogcli_init os cli usockpath_log 0 = ([Socket_Dgram, Connect (os_socket os) (sun_path os usockpath_log)],
      cli\<lparr>send_fd := os_socket os, lowest_log_level := 0\<rparr>, False)"
    using assms by (simp add: posixc_asynclogcli_init_def posixc_ipc_connect_dgram_def Let_def)
  show ?thesis unfolding asynclogcli_test_main_def log_levels init cli_test_lines_def
    using logstr_short(1) [OF _ lt(1), of "cli\<lparr>send_fd := os_socket os, lowest_log_level := 0\<rparr>" "''wwwwww''" oth tm0]
      logstr_short(1) [OF _ lt(2), of "cli\<lparr>send_fd := os_socket os, lowest_log_level := 0\<rparr>" "''hello world!''" oth tm0]
    by simp
qed

section \<open>tests/asynclogsvr_test.c\<close>

definition asynclogsvr_test_start :: "env \<Rightarrow> kcall sworld \<Rightarrow> kcall sworld res" where
  "asynclogsvr_test_start env w = posixc_asynclogsvr_init kq_plat env ''/tmp/wjplog'' 1024 3000 w"

text \<open>Both programs together: the server is started, the client sends its two lines, the socket is reported, and SIGINT ends the
  server.\<close>

lemma tests_log:
  assumes os: "reliable os" and w: "fresh_process w" "inbox w = []"
    and env: "env_ok env r d t s" "env_svr env \<noteq> NULL" "env_thread env = Some self"
  shows "\<exists>w0 w' fd. asynclogsvr_test_start env w = Inr w0 \<and>
    process_loop kq_plat (svr_callbacks kq_plat os cl self (\<lambda>w. Some (Inr w))) self r 0
      (lifespan s [] (cli_test_lines tm0) [dgram_ready d, dgram_ready d] [] []) w0 = Some (Inr w') \<and> exited w' \<and>
    bytes_of (out w') fd @ backlog w' = bytes_of (out w) fd @ concat (cli_test_lines tm0)"
proof -
  have os': "kernel_ok os" "progress os" "\<not> may_fail os" using os by (simp_all add: reliable_def)
  have dir: "chop ''/tmp/wjplog'' \<noteq> []" "nul \<notin> set ''/tmp/wjplog''" "length ''/tmp/wjplog'' < 180" by (simp_all add: chop_def)
  obtain w0 rc where w0: "posixc_asynclogsvr_init kq_plat env ''/tmp/wjplog'' 1024 3000 w = Inr w0" "service kq_plat r self d t s w0"
    "reactors w0 r = Some rc" "\<not> r_closing rc" "inbox w0 = inbox w" "log_stream w0 = bytes_of (out w) (log_fd w0)"
    using start_service [OF w(1) env dir, of 1024 3000] by blast
  have rs: "\<forall>(ds, kes) \<in> set []. reports d t kes" "reports d t [dgram_ready d, dgram_ready d]" by (simp_all add: reports_def)
  obtain w' where w': "process_loop kq_plat (svr_callbacks kq_plat os cl self (\<lambda>w. Some (Inr w))) self r 0
      (lifespan s [] (cli_test_lines tm0) [dgram_ready d, dgram_ready d] [] []) w0 = Some (Inr w')" "exited w'"
    "bytes_of (out w') (log_fd w0) @ backlog w' = accounted w0 @ texts ([] @ [(cli_test_lines tm0, [dgram_ready d, dgram_ready d])])"
    using lifespan_ok [OF os'(1,2) w0(2-4) rs, of cl 0 "cli_test_lines tm0" "[]" "[]"] os'(3) by blast
  have "texts ([] @ [(cli_test_lines tm0, [dgram_ready d, dgram_ready d])]) = concat (cli_test_lines tm0)"
    by (simp add: texts_def cli_test_lines_def one_page_def)
  moreover have "accounted w0 = bytes_of (out w) (log_fd w0)" using w0(5,6) w(2) by (simp add: accounted_def backlog_def)
  ultimately show ?thesis using w0(1) w' unfolding asynclogsvr_test_start_def by metis
qed

end
