(* ===== verification/Spec2Isabelle.thy ===== *)
theory Spec2Isabelle
  imports Kernel_List Boyermoore Kmp Utils Floatstr Slice Fileio Reactor Kqueue Threads Interleaving Lifecycle Epoll Timestr Ipc
    Tcp Log Sysinfo Asynclogcli Asynclogsvr Server Process Programs
begin

text \<open>
  A verification of posix-commons, a C library of lists, strings, files, events and logging over POSIX.

  \<^bold>\<open>Parts and theories.\<close> The sources are under \<open>src/src/\<close>; every theory models the files that it names,
  in their order, one definition for a function.

  \<^item> \<open>Prelude\<close>: errors as values (\<open>c_error\<close>, \<open>res\<close> for a computation that ends, \<open>run\<close> for one that may not),
    arrays with checked accesses, the integer types, \<open>tolower\<close> and \<open>toupper\<close> (an argument outside their domain, such as a
    negative \<open>char\<close>, is \<open>Bad_Argument\<close>), \<open>common/math.h\<close>.
  \<^item> \<open>Kernel_List\<close>: the intrusive list of \<open>common/list.h\<close> on a heap of nodes.
  \<^item> \<open>Occurrence\<close>, \<open>Boyermoore\<close>, \<open>Kmp\<close>: the two substring searches of \<open>common/boyermoore.c\<close> and \<open>common/kmp.c\<close> and what
    they should find.
  \<^item> \<open>Utils\<close>, \<open>Floatstr\<close>: \<open>common/utils.c\<close>, with finite \<open>float\<close> and \<open>double\<close> numbers as rounded rationals.
  \<^item> \<open>Slice\<close>: the byte slices of \<open>common/slice.c\<close> in a memory of structures and \<open>malloc\<close> blocks.
  \<^item> \<open>Fileio\<close>: \<open>fileio.c\<close>, with the writer without and with a buffer, and the creation of directories.
  \<^item> \<open>Timestr\<close>, \<open>Ipc\<close>, \<open>Tcp\<close>, \<open>Log\<close>, \<open>Sysinfo\<close>: \<open>common/timestr.c\<close>, \<open>ipc.c\<close>, \<open>tcp.c\<close>, \<open>log.c\<close>, \<open>runtime.c\<close>, \<open>signal.c\<close>,
    \<open>linux/eventfd.c\<close>, \<open>linux/signalfd.c\<close>.
  \<^item> \<open>Event\<close>, \<open>Reactor\<close>: \<open>event.c\<close> and \<open>reactor.c\<close> over one world of events, reactors and list nodes.
  \<^item> \<open>Kqueue\<close>, \<open>Epoll\<close>: the platforms of \<open>mac/\<close> and \<open>linux/\<close>, and the thread of a reactor.
  \<^item> \<open>Threads\<close>, \<open>Interleaving\<close>: the threads of a program on one reactor, step by step: \<open>posixc_event_destroy\<close>,
    \<open>posixc_event_submit\<close> and the loop of \<open>mac/reactor_kq.c\<close> as sequences of steps between which other threads run, with an
    invariant of all executions, and the executions that the code does not exclude. A step relation (\<open>lstep\<close>) is labelled with
    the creations of events, and whether \<open>malloc\<close> had memory for them.
  \<^item> \<open>Lifecycle\<close>: the life of an event as an abstract transition system with system calls as labels, and the simulation of the
    threads by it.
  \<^item> \<open>Asynclogcli\<close>, \<open>Asynclogsvr\<close>, \<open>Server\<close>: the client and the server of the logging service (\<open>asynclogcli.c\<close>,
    \<open>asynclogsvr.c\<close>), and the server inside the loop of its reactor. \<open>Process\<close>: the same loop in a process that \<open>exit\<close> ends, up
    to SIGINT. This theory holds what is shown of client and server together.
  \<^item> \<open>Programs\<close>: the programs under \<open>src/tests/\<close>.

  \<^bold>\<open>State.\<close> A C structure is a record; a pointer to memory that may be freed is an address in a map, and a
  missing entry is \<open>Bad_Pointer\<close>. Memory that was never written is \<open>None\<close>. System calls are parameters
  that give their answers, and the calls that are made are collected in order, with what they are given: the change lists of
  \<open>kevent\<close>, the modes of \<open>mkdir\<close>. Allocations are parameters too, and may fail wherever a theorem does not say otherwise. The world of events
  (\<open>rworld\<close>) is extended by the server with its own fields (\<open>sworld\<close>), so that all operations on events
  apply to it unchanged.

  \<^bold>\<open>Interfaces.\<close> The locale \<open>intrusive_list\<close> states what the reactor needs of a list, and is interpreted on the
  kernel list; \<open>substring_search\<close> what a search decides, interpreted on both Boyer-Moore searches;
  \<open>byte_sink\<close> what a sequence of writes leaves in a file, interpreted on both writers; \<open>event_platform\<close> what the
  calls of the kernel must ask for, interpreted on kqueue and epoll; \<open>loop_client\<close> what the callbacks of a program owe the
  loop of a reactor, interpreted on those of the logging server.

  \<^bold>\<open>What is shown.\<close>

  \<^item> Lists: every operation refines the one on lists of addresses, keeps what is outside, and the loops
    visit each node once; the safe loop survives the release of the current node.
  \<^item> Searches: Boyer-Moore finds the first occurrence, with and without case, and every access is inside
    its array, if there is memory for the table, and a null pointer is used if there is none; without case, if the
    bytes are below 128. The failure table of KMP is right, but its search is not: it misses matches and may loop.
  \<^item> Slices: initialisation, appending and destruction keep the bytes and leak nothing, unless an allocation fails; the
    numeric conversions give the decimal text, where the code prints it (\<open>printed_text\<close>): numbers below 1 lack the digit
    before the point.
  \<^item> Files: a write returns when the system makes progress, fails only when a call fails, and the file with the buffer is the
    text written so far; directories are created from the outside in, on the first 1023 bytes of a path.
  \<^item> Events: the calls of the API in any allowed order keep the list of a reactor equal to the set of
    closing events, so that no call fails; a collection in the reactor's thread frees each once, in the
    order in which they were destroyed; the thread ends with an empty list, unless the wait reports a bad descriptor.
  \<^item> Threads: in every execution in which no thread destroys an event that another uses and no callback one with a report
    still to come, each step of each thread succeeds, and the closing events are those in the list and those a thread is
    about to put there. Without these conditions freed memory is read: when two threads destroy an event at once, when one
    submits what another destroys, and when a callback destroys an event that is reported twice in a batch. A call without
    interruption is the function of \<open>Event\<close> (\<open>calls_alone\<close>, which ties the two models). Every allowed execution is a run of the abstract life of events with the same system
    calls, so each descriptor that is handed over is closed once, still owned by an event, or lost to a creation without memory.
  \<^item> Platforms: a submission enables exactly the conditions that are waited for (\<open>kq_armed\<close> and \<open>ep_armed\<close> read them off the
    calls; the calls themselves are stated for the start of the server).
  \<^item> Logging: the client's datagram, the start of the server with its three events, its run until the reactor closes or SIGINT comes,
    over which the log with what still waits is the sequence of the lines sent, and the end that writes everything and
    closes what is open. The callbacks return and keep the server well formed also when writes fail.

  Several theorems state what the code does where it is not what it means to do; each names the case.

  \<^bold>\<open>Loops.\<close> Loops with a bound are total functions with a measure. The others (\<open>posixc_binary_search\<close>, the
  two searches, the traversals of a list, \<open>write\<close> and \<open>read\<close> with retries) are partial functions
  in the option monad: \<open>None\<close> is a loop that does not end, and the theorems show that they return, so no
  fuel is needed. The thread of a reactor ends with the list of answers it gets; without more answers
  it waits for ever (\<open>None\<close>).

  \<^bold>\<open>Not modelled.\<close> In \<open>Threads\<close>, sections under a mutex are one step, as is the creation of an event, of which no other thread
  knows; memory is sequentially consistent, and of \<open>posixc_reactor_destroy\<close> only the assignment to \<open>closing\<close> is interleaved (the
  function as a whole is in \<open>Reactor\<close>). Elsewhere a call on the library is one step, and a mutex that is held is a \<open>Deadlock\<close>.
  The kernel itself, apart from the calls and the answers; in \<open>Threads\<close> it is the set of events registered
  with it. \<open>exit\<close> in \<open>on_sigint\<close> sets a flag, after which \<open>process_loop\<close> runs
  nothing; handlers of \<open>exit\<close> are left out. Infinities, NaN and subnormal numbers. \<open>vfprintf\<close>.
  The mutex of a logger, which the source does not initialise. \<open>localasynclog.c\<close> and
  \<open>linux/timerfd.c\<close>, which are empty; build files and the compiler probes that CMake generates. Of the
  programs under \<open>src/tests/\<close>, the titles that they print.
\<close>

section \<open>The logging service from end to end\<close>

text \<open>What a client sends for a message (time, text, level), and the line it stands for.\<close>

definition client_sends ::
    "(char \<Rightarrow> tm \<Rightarrow> char list) \<Rightarrow> posixc_asynclogcli \<Rightarrow> tm \<times> char list \<times> int \<Rightarrow> char list list" where
  "client_sends oth cli m = (case m of (t, what, level) \<Rightarrow>
     case posixc_asynclogcli_logstr oth t cli what level of Inr (Some (Write fd d)) \<Rightarrow> [d] | _ \<Rightarrow> [])"

definition message_line :: "posixc_asynclogcli \<Rightarrow> tm \<times> char list \<times> int \<Rightarrow> char list" where
  "message_line cli m = (case m of (t, what, level) \<Rightarrow>
     if level < lowest_log_level cli then [] else
     case level_text level of None \<Rightarrow> [] | Some l \<Rightarrow> default_text t @ l @ what @ [CHR 0x0A])"

lemma client_sends_line:
  assumes "length (fst (snd m)) \<le> 4068"
  shows "concat (map (take one_page) (client_sends oth cli m)) = message_line cli m"
proof -
  obtain t what level where m: "m = (t, what, level)" by (cases m)
  show ?thesis
  proof (cases "level < lowest_log_level cli \<or> level_text level = None")
    case True
    then show ?thesis
      by (auto simp: m client_sends_def message_line_def posixc_asynclogcli_logstr_def posixc_asynclogcli_log_def)
  next
    case False
    then obtain l where l: "\<not> level < lowest_log_level cli" "level_text level = Some l" by auto
    have what: "length what \<le> 4068" using assms m by simp
    have "take one_page (default_text t @ l @ what @ [CHR 0x0A]) = default_text t @ l @ what @ [CHR 0x0A]"
      by (rule take_all) (rule logstr_short(2) [OF l what])
    then show ?thesis using l logstr_short(1) [OF l what, of oth t]
      by (simp add: m client_sends_def message_line_def del: take_append)
  qed
qed

text \<open>Reports for every datagram that waits leave nothing behind.\<close>

lemma messages_logged:
  assumes "reliable os" "serving pl r e w" "inbox w = concat (map (client_sends oth cli) ms)"
    and "\<forall>m \<in> set ms. length (fst (snd m)) \<le> 4068"
  shows "\<exists>w'. consume_evs (svr_callbacks pl os cl self join) (map (\<lambda>d. dgram_ready e) (inbox w)) w = Some (Inr w') \<and>
    serving pl r e w' \<and> inbox w' = [] \<and> log_fd w' = log_fd w \<and>
    log_stream w' = log_stream w @ concat (map (message_line cli) ms)"
proof -
  have "concat (map (take one_page) (concat (map (client_sends oth cli) ms))) = concat (map (message_line cli) ms)"
    using assms(4) by (induction ms) (auto simp: client_sends_line)
  then show ?thesis using consume_dgrams [OF assms(1,2), of cl self join] assms(3) by metis
qed

definition demo_messages :: "(tm \<times> char list \<times> int) list" where
  "demo_messages = [(noon, ''disk full'', 3), (noon, ''ping'', 0), (noon, ''bye'', 1)]"

definition demo_cli :: posixc_asynclogcli where
  "demo_cli = \<lparr>lowest_log_level = 1, send_fd = 4\<rparr>"

text \<open>Several clients: the datagrams of their messages, as the server logs them.\<close>

lemma clients_lines:
  assumes "\<forall>(cli, m) \<in> set ms. length (fst (snd m)) \<le> 4068"
  shows "concat (map (take one_page) (concat (map (\<lambda>(cli, m). client_sends oth cli m) ms))) =
    concat (map (\<lambda>(cli, m). message_line cli m) ms)"
  using assms by (induction ms) (auto simp: client_sends_line)

text \<open>A server is started in a fresh process, and then runs until its reactor is asked to close. Meanwhile any number of clients log
  messages of up to 4068 bytes. If no write fails, the log followed by what still waits at the socket is exactly the lines of the
  messages, in the file that the start has opened.\<close>

lemma logging_service:
  assumes "reliable os" "fresh_process w" "inbox w = []" and env: "env_ok env r d t s" "env_svr env \<noteq> NULL" "env_thread env = Some self"
    and dir: "chop dir \<noteq> []" "nul \<notin> set dir" "length dir < 180" and rounds: "\<forall>(ds, kes) \<in> set rounds. reports d t kes"
    and ms: "concat (map fst rounds) = concat (map (\<lambda>(cli, m). client_sends oth cli m) ms)"
      "\<forall>(cli, m) \<in> set ms. length (fst (snd m)) \<le> 4068"
  shows "\<exists>w0 w'. posixc_asynclogsvr_init kq_plat env dir max_size interval w = Inr w0 \<and>
    kq_reactor_plat_threadfn kq_plat (svr_callbacks kq_plat os cl self join) self r (day r rounds) w0 = Some (Inr w') \<and>
    log_fd w' = env_open env (log_path (env_clock env) dir) {O_TRUNC, O_WRONLY, O_CREAT} (Some 0x1A4) \<and>
    log_stream w' @ backlog w' = bytes_of (out w) (log_fd w') @ concat (map (\<lambda>(cli, m). message_line cli m) ms)"
proof -
  have os: "kernel_ok os" "progress os" "\<not> may_fail os" using assms(1) by (simp_all add: reliable_def)
  obtain w0 rc where w0: "posixc_asynclogsvr_init kq_plat env dir max_size interval w = Inr w0" "service kq_plat r self d t s w0"
    "reactors w0 r = Some rc" "\<not> r_closing rc" "inbox w0 = inbox w" "log_stream w0 = bytes_of (out w) (log_fd w0)"
    "log_fd w0 = env_open env (log_path (env_clock env) dir) {O_TRUNC, O_WRONLY, O_CREAT} (Some 0x1A4)"
    using start_service [OF assms(2) env dir, of max_size interval] by blast
  have "texts rounds = concat (map (\<lambda>(cli, m). message_line cli m) ms)" using ms(1) clients_lines [OF ms(2)] by (simp add: texts_def)
  moreover have "backlog w0 = []" using assms(3) w0(5) by (simp add: backlog_def)
  ultimately show ?thesis using day_ok [OF os(1,2) w0(2-4) rounds, of cl join 0] w0 os(3)
    by (auto simp: kq_reactor_plat_threadfn_def accounted_def)
qed

text \<open>C3: the life of a logging server. It is started in a fresh process, and its reactor runs rounds of reports for the socket and the
  timer, in any number and order, until SIGINT is reported; what the kernel reports after the signal (\<open>unseen\<close>, \<open>later\<close>) no longer
  runs. Meanwhile any number of clients log messages of up to 4068 bytes, whose datagrams arrive in some order. If no write
  fails, the process ends with all events and the reactor released, and the file that the start has opened holds the lines of the
  messages, complete and in the order of arrival, up to those that still wait at the socket: nothing stays in the buffer. Messages below
  the level of their client leave nothing.\<close>

theorem logging_life:
  assumes "reliable os" "fresh_process w" "inbox w = []" and env: "env_ok env r d t s" "env_svr env \<noteq> NULL" "env_thread env = Some self"
    and dir: "chop dir \<noteq> []" "nul \<notin> set dir" "length dir < 180"
    and rounds: "\<forall>(ds, kes) \<in> set rounds. reports d t kes" "reports d t kes"
    and ms: "concat (map fst (rounds @ [(ds, kes)])) = concat (map (\<lambda>(cli, m). client_sends oth cli m) ms)"
      "\<forall>(cli, m) \<in> set ms. length (fst (snd m)) \<le> 4068"
  shows "\<exists>w0 w'. posixc_asynclogsvr_init kq_plat env dir max_size interval w = Inr w0 \<and>
    process_loop kq_plat (svr_callbacks kq_plat os cl self (\<lambda>w. Some (Inr w))) self r 0 (lifespan s rounds ds kes unseen later) w0 =
      Some (Inr w') \<and> exited w' \<and> events w' = Map.empty \<and> reactors w' r = None \<and>
    (let fd = env_open env (log_path (env_clock env) dir) {O_TRUNC, O_WRONLY, O_CREAT} (Some 0x1A4) in
     bytes_of (out w') fd @ backlog w' = bytes_of (out w) fd @ concat (map (\<lambda>(cli, m). message_line cli m) ms))"
proof -
  have os: "kernel_ok os" "progress os" "\<not> may_fail os" using assms(1) by (simp_all add: reliable_def)
  obtain w0 rc where w0: "posixc_asynclogsvr_init kq_plat env dir max_size interval w = Inr w0" "service kq_plat r self d t s w0"
    "reactors w0 r = Some rc" "\<not> r_closing rc" "inbox w0 = inbox w" "log_stream w0 = bytes_of (out w) (log_fd w0)"
    "log_fd w0 = env_open env (log_path (env_clock env) dir) {O_TRUNC, O_WRONLY, O_CREAT} (Some 0x1A4)"
    using start_service [OF assms(2) env dir, of max_size interval] by blast
  have "texts (rounds @ [(ds, kes)]) = concat (map (\<lambda>(cli, m). message_line cli m) ms)"
    unfolding texts_def ms(1) by (rule clients_lines [OF ms(2)])
  moreover have "backlog w0 = []" using assms(3) w0(5) by (simp add: backlog_def)
  ultimately show ?thesis using lifespan_ok [OF os(1,2) w0(2-4) rounds, of cl 0 ds unseen later] w0(1,6,7) os(3)
    by (auto simp: accounted_def)
qed

theorem logging_life_witness:
  "\<exists>w0 w'. posixc_asynclogsvr_init kq_plat demo_env ''/var/log'' 1000 500 demo_process = Inr w0 \<and>
    process_loop kq_plat (svr_callbacks kq_plat slow_os \<lparr>now = noon, other = (\<lambda>c t. [])\<rparr> 7 (\<lambda>w. Some (Inr w))) 7 1000 0
      (lifespan 3000 [(concat (map (client_sends (\<lambda>c t. []) demo_cli) demo_messages), [dgram_ready 2000])] [] [clock_tick 2500]
        [dgram_ready 2000] []) w0 = Some (Inr w') \<and> exited w' \<and> events w' = Map.empty \<and>
    (\<exists>fd. bytes_of (out w') fd @ backlog w' =
      ''01-01-2020 12:00:00 Err: disk full'' @ [CHR 0x0A] @ ''01-01-2020 12:00:00 Info: bye'' @ [CHR 0x0A])"
proof -
  let ?rs = "[(concat (map (client_sends (\<lambda>c t. []) demo_cli) demo_messages), [dgram_ready 2000])]"
  let ?ms = "map (Pair demo_cli) demo_messages"
  have "concat (map (message_line demo_cli) demo_messages) =
      ''01-01-2020 12:00:00 Err: disk full'' @ [CHR 0x0A] @ ''01-01-2020 12:00:00 Info: bye'' @ [CHR 0x0A]"
    by code_simp
  then have lines: "concat (map (\<lambda>(cli, m). message_line cli m) ?ms) =
      ''01-01-2020 12:00:00 Err: disk full'' @ [CHR 0x0A] @ ''01-01-2020 12:00:00 Info: bye'' @ [CHR 0x0A]"
    by (simp add: comp_def)
  have box: "inbox demo_process = []" "\<And>f. bytes_of (out demo_process) f = []" by (simp_all add: demo_process_def idle_def)
  have env: "env_svr demo_env \<noteq> NULL" "env_thread demo_env = Some 7" by (simp_all add: demo_env_def NULL_def)
  have dir: "chop ''/var/log'' \<noteq> []" "nul \<notin> set ''/var/log''" "length ''/var/log'' < 180" by (simp_all add: chop_def)
  have rs: "\<forall>(ds, kes) \<in> set ?rs. reports 2000 2500 kes" "reports 2000 2500 [clock_tick 2500]" by (simp_all add: reports_def)
  have ms: "concat (map fst (?rs @ [([], [clock_tick 2500])])) = concat (map (\<lambda>(cli, m). client_sends (\<lambda>c t. []) cli m) ?ms)"
    "\<forall>(cli, m) \<in> set ?ms. length (fst (snd m)) \<le> 4068" by (simp_all add: comp_def demo_messages_def)
  show ?thesis
    using logging_life [OF slow_os_reliable demo_start(1) box(1) demo_start(2) env dir rs ms, of 1000 500
        "\<lparr>now = noon, other = (\<lambda>c t. [])\<rparr>" "[dgram_ready 2000]" "[]"] unfolding lines box(2) by (auto simp: Let_def)
qed

text \<open>C40: the callback of the socket logs the datagram that is reported but does not submit its event
  again: no call of the kernel is made, and the event no longer waits for input. The kernel disables
  a filter when it reports it (\<open>EV_DISPATCH\<close>), so that one report is the last.\<close>

theorem dgram_not_rearmed:
  assumes "reliable os" "serving pl r e w" "inbox w = d # ds"
  shows "\<exists>w' ev. consume_ev (svr_callbacks pl os cl self join) w (dgram_ready e) = Some (Inr w') \<and>
    log_stream w' = log_stream w @ take one_page d \<and> inbox w' = ds \<and> plat_calls w' = plat_calls w \<and>
    events w' e = Some ev \<and> evmask ev AND POSIXC_EVENT_IN = 0"
proof -
  obtain ev where ev: "events w e = Some ev" using assms(2) by (auto simp: serving_def split: option.splits)
  have "(x AND NOT POSIXC_EVENT_IN) AND POSIXC_EVENT_IN = 0" for x :: "32 word"
    by (simp add: and.assoc)
  then show ?thesis using consume_dgram [OF assms, of cl self join] ev by auto
qed

theorem dgram_not_rearmed_witness:
  "\<exists>w' :: kcall sworld. consume_ev (svr_callbacks kq_plat slow_os \<lparr>now = noon, other = (\<lambda>c t. [])\<rparr> 7
      (\<lambda>w. Some (Inr w))) (demo_serving\<lparr>inbox := [''a'', ''b'']\<rparr>) (dgram_ready 2000) = Some (Inr w') \<and>
    log_stream w' = ''a'' \<and> inbox w' = [''b''] \<and> plat_calls w' = []"
proof -
  from dgram_not_rearmed [OF slow_os_reliable demo_serving_box, of "[''a'', ''b'']" "''a''" "[''b'']" "\<lparr>now = noon, other = (\<lambda>c t. [])\<rparr>" 7
      "\<lambda>w. Some (Inr w)"]
  show ?thesis using demo_serving_ok(3)
    by (auto simp: log_stream_def one_page_def demo_svr_defs)
qed

end
